(* ===== verification/Prelude.thy ===== *)
theory Prelude
  imports Main "HOL-Library.Word" "HOL-Library.Multiset"
begin

unbundle bit_operations_syntax

text \<open>
  What the component theories share: names for the machine integer types, the result type of
  operations that may panic, the bit-counting methods of Rust's integers, and the generic lemmas on
  lists, updates and words that the component proofs use.
\<close>

section \<open>Machine integers and panics\<close>

type_synonym u8 = "8 word"
type_synonym u32 = "32 word"
type_synonym u64 = "64 word"
type_synonym u128 = "128 word"
type_synonym usize = "64 word"

text \<open>Signed integers are the same words read with \<open>sint\<close>.\<close>

type_synonym i8 = "8 word"
type_synonym i32 = "32 word"
type_synonym i64 = "64 word"
type_synonym isize = "64 word"

text \<open>
  An operation of the kernel that can panic (an assertion, \<open>unwrap\<close> on \<open>None\<close>, an index out of
  range, \<open>unreachable!\<close>) returns an \<open>outcome\<close>. Rust's own \<open>Option\<close> is \<open>option\<close> and Rust's
  \<open>Result<T, E>\<close> is \<open>'e + 't\<close> with \<open>Inl\<close> for \<open>Err\<close>.
\<close>

datatype 'a outcome = Panic | Ret 'a

fun bind_outcome :: "'a outcome \<Rightarrow> ('a \<Rightarrow> 'b outcome) \<Rightarrow> 'b outcome" where
  "bind_outcome Panic f = Panic"
| "bind_outcome (Ret x) f = f x"

lemma bind_outcome_Ret_iff:
  "bind_outcome m f = Ret y \<longleftrightarrow> (\<exists>x. m = Ret x \<and> f x = Ret y)"
  by (cases m) auto

lemma bind_outcome_cong [fundef_cong]:
  "m = m' \<Longrightarrow> (\<And>x. m' = Ret x \<Longrightarrow> f x = f' x) \<Longrightarrow> bind_outcome m f = bind_outcome m' f'"
  by (cases m') auto

text \<open>Rust's \<open>saturating_sub\<close> and \<open>saturating_add\<close> on unsigned integers.\<close>

definition sat_sub :: "'a::len word \<Rightarrow> 'a word \<Rightarrow> 'a word" where
  "sat_sub a b = (if a \<le> b then 0 else a - b)"

definition sat_add :: "'a::len word \<Rightarrow> 'a word \<Rightarrow> 'a word" where
  "sat_add a b = (if a \<le> a + b then a + b else - 1)"

named_theorems alloc_defs "definitions of the identifier allocators"
named_theorems sched_defs "definitions of the run queues"

section \<open>Bit counting\<close>

text \<open>Rust's \<open>trailing_zeros\<close>, \<open>leading_zeros\<close> and \<open>count_ones\<close> on an unsigned integer.\<close>

definition trailing_zeros :: "'a::len word \<Rightarrow> nat" where
  "trailing_zeros w = length (takeWhile (\<lambda>i. \<not> bit w i) [0..<LENGTH('a)])"

definition leading_zeros :: "'a::len word \<Rightarrow> nat" where
  "leading_zeros w = length (takeWhile (\<lambda>i. \<not> bit w i) (rev [0..<LENGTH('a)]))"

definition count_ones :: "'a::len word \<Rightarrow> nat" where
  "count_ones w = length (filter (bit w) [0..<LENGTH('a)])"

lemma length_takeWhile_less_iff:
  "length (takeWhile P xs) < length xs \<longleftrightarrow> (\<exists>x\<in>set xs. \<not> P x)"
  by (induction xs) auto

lemma word_neq_0_bit: "(w :: 'a::len word) \<noteq> 0 \<longleftrightarrow> (\<exists>i < LENGTH('a). bit w i)"
  by (metis bit_0_eq bit_word_eqI bot_apply bot_bool_def)

lemma trailing_zeros_spec:
  fixes w :: "'a::len word"
  assumes "w \<noteq> 0"
  shows "trailing_zeros w < LENGTH('a)" and "bit w (trailing_zeros w)"
    and "j < trailing_zeros w \<Longrightarrow> \<not> bit w j"
proof -
  let ?P = "\<lambda>i. \<not> bit w i" and ?xs = "[0..<LENGTH('a)]"
  let ?n = "length (takeWhile ?P ?xs)"
  have lt: "?n < length ?xs"
    unfolding length_takeWhile_less_iff using assms by (auto simp: word_neq_0_bit)
  then show "trailing_zeros w < LENGTH('a)"
    by (simp add: trailing_zeros_def)
  have "\<not> ?P (?xs ! ?n)"
    using lt by (rule nth_length_takeWhile)
  then show "bit w (trailing_zeros w)"
    using lt by (simp add: trailing_zeros_def)
  assume j: "j < trailing_zeros w"
  then have "?P (takeWhile ?P ?xs ! j)"
    using nth_mem set_takeWhileD by (fastforce simp: trailing_zeros_def)
  then show "\<not> bit w j"
    using j lt by (simp add: trailing_zeros_def takeWhile_nth)
qed

text \<open>The index of the highest set bit, as \<open>width - 1 - leading_zeros\<close> computes it.\<close>

lemma leading_zeros_spec:
  fixes w :: "'a::len word"
  assumes "w \<noteq> 0"
  shows "leading_zeros w < LENGTH('a)" and "bit w (LENGTH('a) - 1 - leading_zeros w)"
    and "LENGTH('a) - 1 - leading_zeros w < j \<Longrightarrow> \<not> bit w j"
proof -
  let ?P = "\<lambda>i. \<not> bit w i" and ?xs = "rev [0..<LENGTH('a)]"
  let ?n = "length (takeWhile ?P ?xs)"
  have lt: "?n < length ?xs"
    unfolding length_takeWhile_less_iff using assms by (auto simp: word_neq_0_bit)
  then show n: "leading_zeros w < LENGTH('a)"
    by (simp add: leading_zeros_def)
  have "\<not> ?P (?xs ! ?n)"
    using lt by (rule nth_length_takeWhile)
  then show "bit w (LENGTH('a) - 1 - leading_zeros w)"
    using lt by (simp add: leading_zeros_def rev_nth)
  assume j: "LENGTH('a) - 1 - leading_zeros w < j"
  show "\<not> bit w j"
  proof (cases "j < LENGTH('a)")
    case True
    let ?k = "LENGTH('a) - 1 - j"
    have k: "?k < ?n"
      using j True by (simp add: leading_zeros_def)
    then have "?P (takeWhile ?P ?xs ! ?k)"
      using nth_mem set_takeWhileD by fastforce
    then show ?thesis
      using k lt True by (simp add: takeWhile_nth rev_nth)
  next
    case False
    then show ?thesis
      by (simp add: bit_word.rep_eq)
  qed
qed

text \<open>Single-bit masks, as \<open>w | 1 << b\<close>, \<open>w & !(1 << b)\<close> and \<open>w & 1 << b\<close> use them.\<close>

lemma bit_push_bit_1: "b < LENGTH('a) \<Longrightarrow> bit (push_bit b 1 :: 'a::len word) j \<longleftrightarrow> j = b"
  by (auto simp: bit_simps)

lemma bit_or_push_bit:
  "b < LENGTH('a) \<Longrightarrow> bit (w OR push_bit b 1 :: 'a::len word) j \<longleftrightarrow> bit w j \<or> j = b"
  by (auto simp: bit_simps)

lemma bit_and_not_push_bit:
  "b < LENGTH('a) \<Longrightarrow> bit (w AND NOT (push_bit b 1) :: 'a::len word) j \<longleftrightarrow> bit w j \<and> j \<noteq> b"
  using bit_imp_le_length by (auto simp: bit_simps)

lemma and_push_bit_eq_0:
  assumes "b < LENGTH('a)"
  shows "w AND push_bit b 1 = (0 :: 'a::len word) \<longleftrightarrow> \<not> bit w b"
proof -
  have "bit (w AND push_bit b 1) n \<longleftrightarrow> n = b \<and> bit w n" for n
    using assms by (auto simp: bit_simps)
  then show ?thesis
    by (metis bit_0_eq bot_apply bot_bool_def bit_word_eqI)
qed

text \<open>Decrementing a \<open>usize\<close> counter, which wraps around at 0 in a release build.\<close>

definition dec_usize :: "nat \<Rightarrow> nat" where
  "dec_usize n = (if n = 0 then 2 ^ 64 - 1 else n - 1)"

section \<open>Lists\<close>

text \<open>Removing the element at an index, as \<open>Vec::remove\<close> and \<open>VecDeque::remove\<close> do.\<close>

definition remove_nth :: "nat \<Rightarrow> 'a list \<Rightarrow> 'a list" where
  "remove_nth k xs = take k xs @ drop (Suc k) xs"

lemma split_nth:
  assumes "k < length xs"
  obtains ys zs where "xs = ys @ xs ! k # zs" "remove_nth k xs = ys @ zs" "length ys = k"
  using assms id_take_nth_drop [OF assms] by (simp add: remove_nth_def)

lemma length_remove_nth [simp]: "k < length xs \<Longrightarrow> length (remove_nth k xs) = length xs - 1"
  by (simp add: remove_nth_def)

lemma mset_remove_nth: "k < length xs \<Longrightarrow> mset xs = add_mset (xs ! k) (mset (remove_nth k xs))"
  by (erule split_nth) (metis mset.simps(2) mset_append union_mset_add_mset_right)

lemma remove_nth_distinct:
  assumes "k < length xs" "distinct xs"
  shows "distinct (remove_nth k xs)" "set (remove_nth k xs) = set xs - {xs ! k}"
  using mset_remove_nth [OF assms(1)] assms(2)
  by (metis distinct.simps(2) mset.simps(2) mset_eq_imp_distinct_iff)
     (metis assms Diff_insert_absorb distinct.simps(2) list.simps(15) mset.simps(2)
       mset_eq_imp_distinct_iff mset_eq_setD mset_remove_nth)

lemma sum_list_update_nat:
  fixes f :: "'a \<Rightarrow> nat"
  assumes "i < length xs"
  shows "sum_list (map f (xs[i := x])) + f (xs ! i) = sum_list (map f xs) + f x"
  using assms
proof (induction xs arbitrary: i)
  case Nil
  then show ?case by simp
next
  case (Cons y ys)
  then show ?case by (cases i) auto
qed

end
