(* ===== verification/Id_Alloc.thy ===== *)
theory Id_Alloc
  imports Prelude
begin

text \<open>
  The contract that the kernel's identifier allocators share (process ids, physical frames, bitmap
  frames, compressed-memory slots, swap pages), as the locale \<open>id_allocator\<close>, with what its clients rely on
  proved once. \<open>Pid\<close>, \<open>Frame_Alloc\<close>, \<open>Bitmap_Alloc\<close>, \<open>Zram\<close> and \<open>Swap\<close> interpret it.
\<close>

section \<open>The interface of an identifier allocator\<close>

text \<open>
  Identifiers are owned: a client gets one from \<open>alloc\<close>, holds it (in a \<open>PidHandle\<close>,
  \<open>FrameTracker\<close>, \<open>ZramTracker\<close>) and gives it back once, when the handle is dropped. A history is a
  list of client events; \<open>Release k\<close> drops the \<open>k\<close>-th handle the client holds, if there is one.
\<close>

datatype id_event = Acquire | Release nat

fun alloc_many :: "('s \<Rightarrow> (nat \<times> 's) option) \<Rightarrow> nat \<Rightarrow> 's \<Rightarrow> (nat list \<times> 's) option" where
  "alloc_many al 0 s = Some ([], s)"
| "alloc_many al (Suc n) s =
     (case al s of
        None \<Rightarrow> None
      | Some (i, s') \<Rightarrow> map_option (\<lambda>(is, s''). (i # is, s'')) (alloc_many al n s'))"

fun id_history ::
  "('s \<Rightarrow> (nat \<times> 's) option) \<Rightarrow> (nat \<Rightarrow> 's \<Rightarrow> 's outcome) \<Rightarrow> id_event list \<Rightarrow> nat list \<Rightarrow> 's
     \<Rightarrow> (nat list \<times> 's) outcome" where
  "id_history al de [] held s = Ret (held, s)"
| "id_history al de (Acquire # es) held s =
     (case al s of
        None \<Rightarrow> id_history al de es held s
      | Some (i, s') \<Rightarrow> id_history al de es (held @ [i]) s')"
| "id_history al de (Release k # es) held s =
     (if k < length held
      then bind_outcome (de (held ! k) s)
             (\<lambda>s'. id_history al de es (remove_nth k held) s')
      else id_history al de es held s)"

locale id_allocator =
  fixes alloc :: "'s \<Rightarrow> (nat \<times> 's) option"
    and dealloc :: "nat \<Rightarrow> 's \<Rightarrow> 's outcome"
    and invar :: "'s \<Rightarrow> bool"
    and used :: "'s \<Rightarrow> nat set"
    and avail :: "'s \<Rightarrow> nat set"
  assumes alloc_Some: "invar s \<Longrightarrow> alloc s = Some (i, s') \<Longrightarrow>
      i \<in> avail s \<and> used s' = insert i (used s) \<and> avail s' = avail s - {i} \<and> invar s'"
    and alloc_None: "invar s \<Longrightarrow> alloc s = None \<Longrightarrow> avail s = {}"
    and used_avail: "invar s \<Longrightarrow> used s \<inter> avail s = {}"
    and dealloc_used: "invar s \<Longrightarrow> i \<in> used s \<Longrightarrow>
      \<exists>s'. dealloc i s = Ret s' \<and> used s' = used s - {i} \<and> avail s' = insert i (avail s) \<and> invar s'"
begin

lemma alloc_fresh: "invar s \<Longrightarrow> alloc s = Some (i, s') \<Longrightarrow> i \<notin> used s"
  using alloc_Some used_avail by blast

lemma alloc_succeeds: "invar s \<Longrightarrow> avail s \<noteq> {} \<Longrightarrow> \<exists>i s'. alloc s = Some (i, s')"
  using alloc_None by (cases "alloc s") auto

lemma alloc_many_spec:
  assumes "invar s" "alloc_many alloc n s = Some (is, s')"
  shows "invar s' \<and> length is = n \<and> distinct is \<and> set is \<subseteq> avail s
    \<and> used s' = used s \<union> set is \<and> avail s' = avail s - set is"
  using assms
proof (induction n arbitrary: s "is")
  case 0
  then show ?case by simp
next
  case (Suc n)
  from Suc.prems(2) obtain i s1 js where a: "alloc s = Some (i, s1)"
    and m: "alloc_many alloc n s1 = Some (js, s')" and js: "is = i # js"
    by (auto split: option.splits)
  note step = alloc_Some [OF Suc.prems(1) a]
  from Suc.IH [OF _ m] step show ?case
    by (auto simp: js)
qed

text \<open>Enough free identifiers: the whole batch is granted.\<close>

lemma alloc_many_complete:
  assumes "invar s" "finite A" "card A = n" "A \<subseteq> avail s"
  shows "\<exists>is s'. alloc_many alloc n s = Some (is, s')"
  using assms
proof (induction n arbitrary: s A)
  case 0
  then show ?case by simp
next
  case (Suc n)
  then have "avail s \<noteq> {}" by auto
  then obtain i s1 where a: "alloc s = Some (i, s1)"
    using alloc_succeeds Suc.prems(1) by blast
  note step = alloc_Some [OF Suc.prems(1) a]
  have "n \<le> card (A - {i})"
    using Suc.prems(2,3) by (simp add: card_Diff_singleton_if)
  then obtain B where "B \<subseteq> A - {i}" "card B = n" "finite B"
    by (meson obtain_subset_with_card_n)
  then show ?case
    using Suc.IH [of s1 B] step Suc.prems(4) a by force
qed

lemma history_safe:
  assumes "invar s" "distinct held" "set held \<subseteq> used s"
  shows "\<exists>held' s'. id_history alloc dealloc es held s = Ret (held', s')
    \<and> invar s' \<and> distinct held' \<and> set held' \<subseteq> used s'
    \<and> used s' - set held' = used s - set held"
  using assms
proof (induction es arbitrary: held s)
  case Nil
  then show ?case by auto
next
  case (Cons e es)
  show ?case
  proof (cases e)
    case Acquire
    show ?thesis
    proof (cases "alloc s")
      case None
      then show ?thesis
        using Cons.IH [OF Cons.prems] Acquire by simp
    next
      case (Some p)
      then obtain i s1 where a: "alloc s = Some (i, s1)" by (cases p) auto
      note step = alloc_Some [OF Cons.prems(1) a] and fresh = alloc_fresh [OF Cons.prems(1) a]
      have "\<exists>held' s'. id_history alloc dealloc es (held @ [i]) s1 = Ret (held', s')
          \<and> invar s' \<and> distinct held' \<and> set held' \<subseteq> used s'
          \<and> used s' - set held' = used s1 - set (held @ [i])"
        using step fresh Cons.prems by (intro Cons.IH) auto
      moreover have "used s1 - set (held @ [i]) = used s - set held"
        using step fresh by auto
      ultimately show ?thesis
        using a Acquire by auto
    qed
  next
    case (Release k)
    show ?thesis
    proof (cases "k < length held")
      case False
      then show ?thesis
        using Cons.IH [OF Cons.prems] Release by simp
    next
      case True
      let ?i = "held ! k" and ?h = "remove_nth k held"
      note dh = remove_nth_distinct [OF True Cons.prems(2)]
      have i: "?i \<in> set held"
        using True by simp
      obtain s1 where de: "dealloc ?i s = Ret s1" "used s1 = used s - {?i}" "invar s1"
        using dealloc_used Cons.prems(1,3) i by blast
      have "\<exists>held' s'. id_history alloc dealloc es ?h s1 = Ret (held', s')
          \<and> invar s' \<and> distinct held' \<and> set held' \<subseteq> used s'
          \<and> used s' - set held' = used s1 - set ?h"
        using de dh Cons.prems by (intro Cons.IH) auto
      moreover have "used s1 - set ?h = used s - set held"
        using de(2) dh i by auto
      ultimately show ?thesis
        using de(1) True Release by auto
    qed
  qed
qed

end

end
