(* ===== verification/Bitmap_Alloc.thy ===== *)
theory Bitmap_Alloc
  imports Id_Alloc
begin

text \<open>
  \<open>mm/bitmap_alloc.rs\<close>: the bitmap frame allocator, one bit per frame in 64-bit words (1 for
  allocated), with a next-fit hint, single and contiguous allocation. \<open>dbg\<close> stands for
  \<open>cfg(debug_assertions)\<close>, under which arithmetic overflow panics too.
\<close>

section \<open>State and operations\<close>

record bitmap_frame_allocator =
  ba_bitmap :: "u64 list"
  ba_start_ppn :: nat
  ba_total_frames :: nat
  ba_alloc_hint :: nat
  ba_allocated_count :: nat

definition ba_new :: bitmap_frame_allocator where
  "ba_new = \<lparr>ba_bitmap = [], ba_start_ppn = 0, ba_total_frames = 0, ba_alloc_hint = 0,
     ba_allocated_count = 0\<rparr>"

definition BITS_PER_WORD :: nat where "BITS_PER_WORD = 64"

definition ba_init :: "nat \<Rightarrow> nat \<Rightarrow> bitmap_frame_allocator \<Rightarrow> bitmap_frame_allocator outcome" where
  "ba_init start end s =
     (if \<not> start < end then Panic
      else
        let total = end - start;
            word_count = (total + BITS_PER_WORD - 1) div BITS_PER_WORD;
            bm = replicate word_count (0 :: u64);
            valid_bits_in_last = total mod BITS_PER_WORD;
            bm' = (if valid_bits_in_last \<noteq> 0 \<and> bm \<noteq> []
                   then bm[length bm - 1 :=
                          (bm ! (length bm - 1)) OR NOT (push_bit valid_bits_in_last 1 - 1)]
                   else bm)
        in Ret (s\<lparr>ba_bitmap := bm', ba_start_ppn := start, ba_total_frames := total,
             ba_alloc_hint := 0, ba_allocated_count := 0\<rparr>))"

definition ba_unallocated_frames :: "bitmap_frame_allocator \<Rightarrow> nat" where
  "ba_unallocated_frames s = ba_total_frames s - ba_allocated_count s"

definition index_to_ppn :: "bitmap_frame_allocator \<Rightarrow> nat \<Rightarrow> nat" where
  "index_to_ppn s idx = ba_start_ppn s + idx"

definition ppn_to_index :: "bitmap_frame_allocator \<Rightarrow> nat \<Rightarrow> nat option" where
  "ppn_to_index s ppn =
     (if ppn \<ge> ba_start_ppn s \<and> ppn < ba_start_ppn s + ba_total_frames s
      then Some (ppn - ba_start_ppn s) else None)"

text \<open>The search of \<open>alloc_frame\<close>: word offsets from the hint, wrapping around.\<close>

fun ba_search :: "bitmap_frame_allocator \<Rightarrow> nat list \<Rightarrow> (nat \<times> nat) option" where
  "ba_search s [] = None"
| "ba_search s (offset # offsets) =
     (let word_idx = (ba_alloc_hint s + offset) mod length (ba_bitmap s);
          word = ba_bitmap s ! word_idx
      in if word \<noteq> - 1
         then let bit_idx = trailing_zeros (NOT word);
                  frame_idx = word_idx * BITS_PER_WORD + bit_idx
              in if frame_idx < ba_total_frames s then Some (word_idx, bit_idx)
                 else ba_search s offsets
         else ba_search s offsets)"

definition alloc_frame :: "bitmap_frame_allocator \<Rightarrow> (nat \<times> bitmap_frame_allocator) option" where
  "alloc_frame s =
     (let word_count = length (ba_bitmap s)
      in if word_count = 0 then None
         else case ba_search s [0..<word_count] of
           None \<Rightarrow> None
         | Some (word_idx, bit_idx) \<Rightarrow>
             Some (index_to_ppn s (word_idx * BITS_PER_WORD + bit_idx),
               s\<lparr>ba_bitmap := (ba_bitmap s)[word_idx := (ba_bitmap s ! word_idx) OR push_bit bit_idx 1],
                 ba_allocated_count := ba_allocated_count s + 1,
                 ba_alloc_hint := word_idx\<rparr>))"

text \<open>The search of \<open>alloc_contiguous\<close>: the start of the first run of \<open>count\<close> free frames.\<close>

fun ba_find_run :: "u64 list \<Rightarrow> nat \<Rightarrow> nat list \<Rightarrow> nat \<Rightarrow> nat \<Rightarrow> nat option" where
  "ba_find_run bm cnt [] consecutive start_idx = None"
| "ba_find_run bm cnt (idx # idxs) consecutive start_idx =
     (let word_idx = idx div BITS_PER_WORD;
          bit_idx = idx mod BITS_PER_WORD;
          is_free = (bm ! word_idx) AND push_bit bit_idx 1 = 0
      in if is_free
         then let start_idx' = (if consecutive = 0 then idx else start_idx);
                  consecutive' = consecutive + 1
              in if consecutive' \<ge> cnt then Some start_idx'
                 else ba_find_run bm cnt idxs consecutive' start_idx'
         else ba_find_run bm cnt idxs 0 start_idx)"

definition ba_mark :: "nat \<Rightarrow> u64 list \<Rightarrow> u64 list" where
  "ba_mark i bm =
     bm[i div BITS_PER_WORD := (bm ! (i div BITS_PER_WORD)) OR push_bit (i mod BITS_PER_WORD) 1]"

definition alloc_contiguous ::
  "nat \<Rightarrow> bitmap_frame_allocator \<Rightarrow> (nat \<times> bitmap_frame_allocator) option" where
  "alloc_contiguous cnt s =
     (if cnt = 0 then None
      else if cnt = 1 then alloc_frame s
      else case ba_find_run (ba_bitmap s) cnt [0..<ba_total_frames s] 0 0 of
             None \<Rightarrow> None
           | Some start_idx \<Rightarrow>
               Some (index_to_ppn s start_idx,
                 s\<lparr>ba_bitmap := fold ba_mark [start_idx..<start_idx + cnt] (ba_bitmap s),
                   ba_allocated_count := ba_allocated_count s + cnt\<rparr>))"

definition dealloc_frame ::
  "bool \<Rightarrow> nat \<Rightarrow> bitmap_frame_allocator \<Rightarrow> bitmap_frame_allocator outcome" where
  "dealloc_frame dbg ppn s =
     (case ppn_to_index s ppn of
        None \<Rightarrow> Panic
      | Some frame_idx \<Rightarrow>
          let word_idx = frame_idx div BITS_PER_WORD; bit_idx = frame_idx mod BITS_PER_WORD
          in if dbg \<and> (ba_bitmap s ! word_idx) AND push_bit bit_idx 1 = 0 then Panic
             else if dbg \<and> ba_allocated_count s = 0 then Panic
             else Ret (s\<lparr>ba_bitmap := (ba_bitmap s)[word_idx :=
                            (ba_bitmap s ! word_idx) AND NOT (push_bit bit_idx 1)],
                         ba_allocated_count := dec_usize (ba_allocated_count s),
                         ba_alloc_hint := word_idx\<rparr>))"

definition is_allocated :: "bitmap_frame_allocator \<Rightarrow> nat \<Rightarrow> bool" where
  "is_allocated s ppn =
     (case ppn_to_index s ppn of
        None \<Rightarrow> False
      | Some idx \<Rightarrow> (ba_bitmap s ! (idx div BITS_PER_WORD)) AND push_bit (idx mod BITS_PER_WORD) 1 \<noteq> 0)"

record allocator_stats =
  stat_total_frames :: nat
  stat_allocated_frames :: nat
  stat_free_frames :: nat
  stat_bitmap_words :: nat
  stat_bitmap_bytes :: nat

definition ba_statistics :: "bitmap_frame_allocator \<Rightarrow> allocator_stats" where
  "ba_statistics s = \<lparr>stat_total_frames = ba_total_frames s,
     stat_allocated_frames = ba_allocated_count s,
     stat_free_frames = ba_unallocated_frames s,
     stat_bitmap_words = length (ba_bitmap s),
     stat_bitmap_bytes = length (ba_bitmap s) * 8\<rparr>"

section \<open>Invariant\<close>

text \<open>Frame \<open>i\<close> of a bitmap, and the state's invariant: the bitmap covers all frames, the padding
  bits of the last word are set, and the counter is the number of set bits.\<close>

definition bm_get :: "u64 list \<Rightarrow> nat \<Rightarrow> bool" where
  "bm_get bm i = bit (bm ! (i div 64)) (i mod 64)"

definition ba_invar :: "bitmap_frame_allocator \<Rightarrow> bool" where
  "ba_invar s \<longleftrightarrow> length (ba_bitmap s) = (ba_total_frames s + 63) div 64
     \<and> (\<forall>i. ba_total_frames s \<le> i \<longrightarrow> i < 64 * length (ba_bitmap s) \<longrightarrow> bm_get (ba_bitmap s) i)
     \<and> ba_allocated_count s = card {i. i < ba_total_frames s \<and> bm_get (ba_bitmap s) i}"

definition ba_used :: "bitmap_frame_allocator \<Rightarrow> nat set" where
  "ba_used s = {ba_start_ppn s + i | i. i < ba_total_frames s \<and> bm_get (ba_bitmap s) i}"

definition ba_avail :: "bitmap_frame_allocator \<Rightarrow> nat set" where
  "ba_avail s = {ba_start_ppn s + i | i. i < ba_total_frames s \<and> \<not> bm_get (ba_bitmap s) i}"

lemma length_ba_mark [simp]: "length (ba_mark i bm) = length bm"
  by (simp add: ba_mark_def)

lemma bm_get_or:
  assumes "w < length bm" "b < 64"
  shows "bm_get (bm[w := (bm ! w) OR push_bit b 1]) i \<longleftrightarrow> bm_get bm i \<or> i = w * 64 + b"
proof (cases "i div 64 = w")
  case True
  then have "i = w * 64 + b \<longleftrightarrow> i mod 64 = b"
    using assms(2) by (metis add.commute add_left_cancel div_mult_mod_eq mult.commute)
  then show ?thesis
    using assms True by (auto simp: bm_get_def bit_or_push_bit simp del: push_bit_of_1)
next
  case False
  then have "i \<noteq> w * 64 + b"
    using assms(2) by auto
  then show ?thesis
    using False assms by (simp add: bm_get_def)
qed

lemma bm_get_clear:
  assumes "i < 64 * length bm"
  shows "bm_get (bm[i div 64 := (bm ! (i div 64)) AND NOT (push_bit (i mod 64) 1)]) j
    \<longleftrightarrow> bm_get bm j \<and> j \<noteq> i"
proof (cases "j div 64 = i div 64")
  case True
  then have "j = i \<longleftrightarrow> j mod 64 = i mod 64"
    by (metis div_mult_mod_eq)
  moreover have "i div 64 < length bm"
    using assms by auto
  ultimately show ?thesis
    using True by (simp add: bm_get_def bit_and_not_push_bit del: push_bit_of_1)
next
  case False
  then show ?thesis by (auto simp: bm_get_def)
qed

lemma bm_get_mark:
  assumes "i < 64 * length bm"
  shows "bm_get (ba_mark i bm) j \<longleftrightarrow> bm_get bm j \<or> j = i"
  using assms bm_get_or [of "i div 64" bm "i mod 64" j]
  by (auto simp: ba_mark_def BITS_PER_WORD_def less_mult_imp_div_less mult.commute)

lemma fold_mark:
  assumes "\<forall>i\<in>set is. i < 64 * length bm"
  shows "length (fold ba_mark is bm) = length bm
    \<and> (bm_get (fold ba_mark is bm) j \<longleftrightarrow> bm_get bm j \<or> j \<in> set is)"
  using assms by (induction "is" arbitrary: bm) (auto simp: bm_get_mark)

text \<open>What marking a set of free frames, or clearing one frame, does to the abstract view.\<close>

lemma ba_grow:
  assumes inv: "ba_invar s" and I: "\<forall>i\<in>I. i < ba_total_frames s \<and> \<not> bm_get (ba_bitmap s) i"
    and bm: "length bm = length (ba_bitmap s)" "\<And>j. bm_get bm j \<longleftrightarrow> bm_get (ba_bitmap s) j \<or> j \<in> I"
    and s': "s' = s\<lparr>ba_bitmap := bm, ba_allocated_count := ba_allocated_count s + card I,
      ba_alloc_hint := h\<rparr>"
  shows "ba_invar s' \<and> ba_used s' = ba_used s \<union> (+) (ba_start_ppn s) ` I
    \<and> ba_avail s' = ba_avail s - (+) (ba_start_ppn s) ` I"
proof -
  let ?n = "ba_total_frames s"
  have "{i. i < ?n \<and> bm_get bm i} = {i. i < ?n \<and> bm_get (ba_bitmap s) i} \<union> I"
    using I bm(2) by auto
  moreover have "finite I"
    using I by (auto intro: finite_subset [of I "{..<?n}"])
  moreover have "{i. i < ?n \<and> bm_get (ba_bitmap s) i} \<inter> I = {}"
    using I by auto
  ultimately have "card {i. i < ?n \<and> bm_get bm i} = ba_allocated_count s + card I"
    using inv by (simp add: card_Un_disjoint ba_invar_def)
  then have "ba_invar s'"
    using inv bm(1) by (simp add: s' ba_invar_def bm(2))
  moreover have "ba_used s' = ba_used s \<union> (+) (ba_start_ppn s) ` I"
    unfolding ba_used_def s' using I by (auto simp: bm(2))
  moreover have "ba_avail s' = ba_avail s - (+) (ba_start_ppn s) ` I"
    unfolding ba_avail_def s' by (auto simp: bm(2))
  ultimately show ?thesis by blast
qed

lemma ba_shrink:
  assumes inv: "ba_invar s" and i: "i < ba_total_frames s" "bm_get (ba_bitmap s) i"
    and bm: "length bm = length (ba_bitmap s)" "\<And>j. bm_get bm j \<longleftrightarrow> bm_get (ba_bitmap s) j \<and> j \<noteq> i"
    and s': "s' = s\<lparr>ba_bitmap := bm, ba_allocated_count := ba_allocated_count s - 1,
      ba_alloc_hint := h\<rparr>"
  shows "ba_invar s' \<and> ba_used s' = ba_used s - {ba_start_ppn s + i}
    \<and> ba_avail s' = insert (ba_start_ppn s + i) (ba_avail s)"
proof -
  let ?n = "ba_total_frames s"
  have "{i. i < ?n \<and> bm_get bm i} = {i. i < ?n \<and> bm_get (ba_bitmap s) i} - {i}"
    using bm(2) by auto
  then have "card {i. i < ?n \<and> bm_get bm i} = ba_allocated_count s - 1"
    using i inv by (simp add: ba_invar_def)
  then show ?thesis
    using inv i bm by (auto simp: s' ba_invar_def ba_used_def ba_avail_def)
qed

lemma ba_bit_in_range: "ba_invar s \<Longrightarrow> i < ba_total_frames s \<Longrightarrow> i < 64 * length (ba_bitmap s)"
  by (simp add: ba_invar_def)

section \<open>Single frames\<close>

lemma not_max_word:
  fixes w :: u64
  assumes "w \<noteq> - 1"
  shows "trailing_zeros (NOT w) < 64" "\<not> bit w (trailing_zeros (NOT w))"
proof -
  have "NOT w \<noteq> 0"
    using assms by (metis bit.compl_zero bit.double_compl)
  from trailing_zeros_spec(1,2) [OF this] show "trailing_zeros (NOT w) < 64"
    "\<not> bit w (trailing_zeros (NOT w))"
    by (simp_all add: bit_not_iff)
qed

lemma ba_search_Some:
  assumes "ba_search s offs = Some (w, b)" "ba_bitmap s \<noteq> []"
  shows "w < length (ba_bitmap s) \<and> b < 64 \<and> w * 64 + b < ba_total_frames s
    \<and> \<not> bm_get (ba_bitmap s) (w * 64 + b)"
  using assms
proof (induction offs)
  case (Cons off offs)
  then show ?case
    by (auto simp: Let_def not_max_word bm_get_def BITS_PER_WORD_def split: if_splits)
qed simp

lemma ba_search_None:
  assumes "ba_search s offs = None" "ba_invar s" "ba_bitmap s \<noteq> []" "off \<in> set offs"
  shows "ba_bitmap s ! ((ba_alloc_hint s + off) mod length (ba_bitmap s)) = - 1"
  using assms
proof (induction s offs rule: ba_search.induct)
  case (1 s)
  then show ?case by simp
next
  case (2 s o1 offs)
  let ?w = "(ba_alloc_hint s + o1) mod length (ba_bitmap s)"
  let ?b = "trailing_zeros (NOT (ba_bitmap s ! ?w))"
  have w: "?w < length (ba_bitmap s)"
    using 2(5) by simp
  have max: "ba_bitmap s ! ?w = - 1"
  proof (rule ccontr)
    assume nm: "ba_bitmap s ! ?w \<noteq> - 1"
    then have "\<not> ?w * 64 + ?b < ba_total_frames s"
      using 2(3) by (auto simp: Let_def BITS_PER_WORD_def split: if_splits)
    moreover have "?w * 64 + ?b < 64 * length (ba_bitmap s)"
      using w not_max_word(1) [OF nm] by linarith
    ultimately have "bm_get (ba_bitmap s) (?w * 64 + ?b)"
      using 2(4) by (simp add: ba_invar_def)
    then show False
      using not_max_word [OF nm] by (simp add: bm_get_def)
  qed
  then have "ba_search s offs = None"
    using 2(3) by (simp add: Let_def)
  then show ?case
    using 2 max by (auto simp: Let_def)
qed

lemma mod_offset_surj:
  assumes "w < (n :: nat)"
  shows "\<exists>off<n. (h + off) mod n = w"
proof -
  let ?off = "(w + (n - h mod n)) mod n"
  have "h mod n \<le> n"
    using assms by (simp add: less_imp_le)
  then have "h + (w + (n - h mod n)) = w + n * (h div n + 1)"
    using div_mult_mod_eq [of h n] unfolding distrib_left mult.commute [of n] by linarith
  then have "(h + ?off) mod n = (w + n * (h div n + 1)) mod n"
    by (simp only: mod_add_right_eq)
  then have "(h + ?off) mod n = w"
    using assms by (simp only: mod_mult_self2 mod_less)
  then show ?thesis
    using assms by (intro exI [of _ ?off]) simp
qed

lemma alloc_frame_Some:
  assumes inv: "ba_invar s" and a: "alloc_frame s = Some (p, s')"
  shows "p \<in> ba_avail s \<and> ba_used s' = insert p (ba_used s) \<and> ba_avail s' = ba_avail s - {p}
    \<and> ba_invar s'"
proof -
  from a obtain w b where ne: "ba_bitmap s \<noteq> []"
    and sr: "ba_search s [0..<length (ba_bitmap s)] = Some (w, b)"
    and p: "p = ba_start_ppn s + (w * 64 + b)"
    and s': "s' = s\<lparr>ba_bitmap := (ba_bitmap s)[w := (ba_bitmap s ! w) OR push_bit b 1],
      ba_allocated_count := ba_allocated_count s + card {w * 64 + b}, ba_alloc_hint := w\<rparr>"
    by (auto simp: alloc_frame_def Let_def index_to_ppn_def BITS_PER_WORD_def
        split: if_splits option.splits)
  note found = ba_search_Some [OF sr ne]
  have "ba_invar s' \<and> ba_used s' = ba_used s \<union> (+) (ba_start_ppn s) ` {w * 64 + b}
    \<and> ba_avail s' = ba_avail s - (+) (ba_start_ppn s) ` {w * 64 + b}"
    by (rule ba_grow [OF inv _ _ _ s']) (use found bm_get_or in auto)
  moreover have "p \<in> ba_avail s"
    using found by (auto simp: p ba_avail_def)
  ultimately show ?thesis
    by (simp add: p)
qed

lemma alloc_frame_None:
  assumes inv: "ba_invar s" and a: "alloc_frame s = None"
  shows "ba_avail s = {}"
proof (cases "ba_bitmap s = []")
  case True
  then show ?thesis
    using inv by (auto simp: ba_invar_def ba_avail_def)
next
  case False
  then have sr: "ba_search s [0..<length (ba_bitmap s)] = None"
    using a by (auto simp: alloc_frame_def Let_def split: option.splits)
  have "bm_get (ba_bitmap s) i" if "i < ba_total_frames s" for i
  proof -
    have "i div 64 < length (ba_bitmap s)"
      using ba_bit_in_range [OF inv that] by auto
    then obtain off where "off < length (ba_bitmap s)"
      "(ba_alloc_hint s + off) mod length (ba_bitmap s) = i div 64"
      using mod_offset_surj by blast
    then have "ba_bitmap s ! (i div 64) = - 1"
      using ba_search_None [OF sr inv False, of off] by simp
    then show ?thesis
      by (simp add: bm_get_def)
  qed
  then show ?thesis
    by (auto simp: ba_avail_def)
qed

lemma dealloc_frame_used:
  assumes inv: "ba_invar s" and p: "p \<in> ba_used s"
  shows "\<exists>s'. dealloc_frame dbg p s = Ret s' \<and> ba_used s' = ba_used s - {p}
    \<and> ba_avail s' = insert p (ba_avail s) \<and> ba_invar s'"
proof -
  obtain i where i: "p = ba_start_ppn s + i" "i < ba_total_frames s" "bm_get (ba_bitmap s) i"
    using p by (auto simp: ba_used_def)
  let ?bm = "(ba_bitmap s)[i div 64 := (ba_bitmap s ! (i div 64)) AND NOT (push_bit (i mod 64) 1)]"
  have "ba_allocated_count s \<noteq> 0"
    using inv i by (auto simp: ba_invar_def)
  moreover have "(ba_bitmap s ! (i div 64)) AND push_bit (i mod 64) 1 \<noteq> 0"
    using i(3) and_push_bit_eq_0 [of "i mod 64" "ba_bitmap s ! (i div 64)"] by (simp add: bm_get_def)
  ultimately have "dealloc_frame dbg p s = Ret (s\<lparr>ba_bitmap := ?bm,
      ba_allocated_count := ba_allocated_count s - 1, ba_alloc_hint := i div 64\<rparr>)" (is "_ = Ret ?s'")
    using i(1,2) by (simp add: dealloc_frame_def ppn_to_index_def Let_def BITS_PER_WORD_def
        dec_usize_def del: push_bit_of_1)
  moreover have "ba_invar ?s' \<and> ba_used ?s' = ba_used s - {ba_start_ppn s + i}
    \<and> ba_avail ?s' = insert (ba_start_ppn s + i) (ba_avail s)"
    by (rule ba_shrink [OF inv i(2,3) _ _ refl])
      (use bm_get_clear [OF ba_bit_in_range [OF inv i(2)]] in simp_all)
  ultimately show ?thesis
    using i(1) by blast
qed

interpretation bitmap: id_allocator alloc_frame "dealloc_frame dbg" ba_invar ba_used ba_avail
  for dbg
  by unfold_locales
    (use alloc_frame_Some alloc_frame_None dealloc_frame_used in
      \<open>auto simp: ba_used_def ba_avail_def\<close>)

section \<open>Initialisation\<close>

lemma round_up_div: "(n :: nat) mod 64 = 0 \<Longrightarrow> (n + 63) div 64 = n div 64"
  by (simp add: div_add1_eq [of n 63])

lemma round_up_div_Suc:
  assumes "(n :: nat) mod 64 \<noteq> 0"
  shows "(n + 63) div 64 = n div 64 + 1"
proof -
  have "(n mod 64 + 63) div 64 = 1"
    using assms by (intro div_nat_eqI) auto
  then show ?thesis
    by (simp add: div_add1_eq [of n 63])
qed

lemma init_bitmap_get:
  fixes n :: nat
  defines "wc \<equiv> (n + 63) div 64"
  assumes v: "n mod 64 \<noteq> 0" and i: "i < 64 * wc"
  shows "bm_get ((replicate wc 0)[wc - 1 := 0 OR NOT (push_bit (n mod 64) 1 - 1)]) i \<longleftrightarrow> n \<le> i"
proof -
  have wc: "wc = n div 64 + 1"
    using round_up_div_Suc [OF v] by (simp add: wc_def)
  then have q: "n div 64 = wc - 1" "0 < wc"
    by simp_all
  have m: "push_bit (n mod 64) 1 - 1 = (mask (n mod 64) :: u64)"
    by (simp add: mask_eq_exp_minus_1)
  show ?thesis
  proof (cases "i div 64 = n div 64")
    case True
    then have "n \<le> i \<longleftrightarrow> n mod 64 \<le> i mod 64"
      by (metis add_le_cancel_left div_mult_mod_eq)
    then show ?thesis
      using True q by (simp add: bm_get_def m bit_simps not_less del: push_bit_of_1)
  next
    case False
    moreover have "i div 64 < n div 64 + 1"
      using i unfolding wc by (simp add: less_mult_imp_div_less mult.commute)
    ultimately have "i div 64 < n div 64"
      by simp
    moreover from this have "\<not> n \<le> i"
      using div_le_mono leD by blast
    ultimately show ?thesis
      using q by (simp add: bm_get_def)
  qed
qed

lemma ba_init_fields:
  assumes "ba_init l r s0 = Ret s" "n = r - l"
  shows "l < r" "ba_start_ppn s = l" "ba_total_frames s = n" "ba_allocated_count s = 0"
    "length (ba_bitmap s) = (n + 63) div 64"
    "ba_bitmap s = (if n mod 64 = 0 then replicate ((n + 63) div 64) 0
       else (replicate ((n + 63) div 64) 0)[(n + 63) div 64 - 1 :=
         0 OR NOT (push_bit (n mod 64) 1 - 1)])"
proof -
  have "l < r"
    using assms(1) by (simp add: ba_init_def split: if_splits)
  moreover from this have "r = l + n" "0 < n"
    using assms(2) by simp_all
  ultimately show "l < r" "ba_start_ppn s = l" "ba_total_frames s = n" "ba_allocated_count s = 0"
    "length (ba_bitmap s) = (n + 63) div 64"
    "ba_bitmap s = (if n mod 64 = 0 then replicate ((n + 63) div 64) 0
       else (replicate ((n + 63) div 64) 0)[(n + 63) div 64 - 1 :=
         0 OR NOT (push_bit (n mod 64) 1 - 1)])"
    using assms(1)
    by (auto simp: ba_init_def Let_def BITS_PER_WORD_def add.commute [of 63 n] simp del: push_bit_of_1)
qed

lemma ba_init_get:
  assumes init: "ba_init l r s0 = Ret s" "n = r - l" and i: "i < 64 * ((n + 63) div 64)"
  shows "bm_get (ba_bitmap s) i \<longleftrightarrow> n \<le> i"
proof (cases "n mod 64 = 0")
  case True
  then have n: "64 * (n div 64) = n"
    by (metis mult_div_mod_eq add.right_neutral)
  have i': "i div 64 < n div 64" "i < n"
    using i n by (auto simp: round_up_div [OF True])
  have "ba_bitmap s = replicate (n div 64) 0"
    unfolding ba_init_fields(6) [OF init] using True by (simp add: round_up_div)
  then show ?thesis
    using i' by (simp add: bm_get_def)
next
  case False
  then show ?thesis
    using init_bitmap_get [OF False i] ba_init_fields(6) [OF init] by simp
qed

lemma ba_init_invar:
  assumes "ba_init l r s0 = Ret s"
  shows "ba_invar s" and "ba_used s = {}" and "ba_avail s = {l..<r}"
proof -
  define n where "n = r - l"
  note init = assms n_def
  note s = ba_init_fields(1-5) [OF init]
  have get: "bm_get (ba_bitmap s) i \<longleftrightarrow> n \<le> i" if "i < 64 * ((n + 63) div 64)" for i
    using ba_init_get [OF init that] .
  have no: "\<not> bm_get (ba_bitmap s) i" if "i < n" for i
    using get [of i] that by simp
  then have "{i. i < n \<and> bm_get (ba_bitmap s) i} = {}"
    by blast
  then show "ba_invar s"
    unfolding ba_invar_def s using get by simp
  show "ba_used s = {}"
    using no by (auto simp: ba_used_def s)
  have "ba_avail s = {l + i | i. i < n}"
    using no by (auto simp: ba_avail_def s)
  also have "\<dots> = {l..<r}"
    using s(1) by (auto simp: n_def nat_le_iff_add)
  finally show "ba_avail s = {l..<r}" .
qed

lemma ba_unallocated_card:
  assumes "ba_invar s"
  shows "ba_unallocated_frames s = card (ba_avail s)"
proof -
  let ?U = "{i. i < ba_total_frames s \<and> bm_get (ba_bitmap s) i}"
  have "ba_avail s = (+) (ba_start_ppn s) ` ({..<ba_total_frames s} - ?U)"
    by (auto simp: ba_avail_def)
  then have "card (ba_avail s) = card ({..<ba_total_frames s} - ?U)"
    by (simp add: card_image)
  also have "\<dots> = ba_total_frames s - card ?U"
    by (subst card_Diff_subset) auto
  finally show ?thesis
    using assms by (simp add: ba_unallocated_frames_def ba_invar_def)
qed

section \<open>Contiguous frames\<close>

definition free_run :: "u64 list \<Rightarrow> nat \<Rightarrow> nat \<Rightarrow> nat \<Rightarrow> bool" where
  "free_run bm n cnt st \<longleftrightarrow> st + cnt \<le> n \<and> (\<forall>i\<in>{st..<st + cnt}. \<not> bm_get bm i)"

text \<open>After \<open>k\<close> frames with the last \<open>c\<close> of them free, the scan returns the first run that starts
  at \<open>k - c\<close> or later, and nothing exactly when there is none.\<close>

lemma ba_find_run_spec:
  assumes "c \<le> k" "c < cnt" "\<forall>i\<in>{k - c..<k}. \<not> bm_get bm i" "c > 0 \<Longrightarrow> st = k - c" "k \<le> n"
  shows "case ba_find_run bm cnt [k..<n] c st of
      None \<Rightarrow> \<forall>t\<ge>k - c. \<not> free_run bm n cnt t
    | Some r \<Rightarrow> free_run bm n cnt r \<and> (\<forall>t. k - c \<le> t \<and> t < r \<longrightarrow> \<not> free_run bm n cnt t)"
  using assms
proof (induction "n - k" arbitrary: k c st)
  case 0
  then have "k = n" by simp
  moreover have "\<not> free_run bm n cnt t" if "n - c \<le> t" for t
    using that 0(3) by (simp add: free_run_def)
  ultimately show ?case by simp
next
  case (Suc d)
  then have k: "k < n" by simp
  note k = k upt_conv_Cons [OF k]
  have free: "(bm ! (k div 64)) AND push_bit (k mod 64) 1 = 0 \<longleftrightarrow> \<not> bm_get bm k"
    using and_push_bit_eq_0 [of "k mod 64" "bm ! (k div 64)"] by (simp add: bm_get_def)
  have d: "d = n - Suc k"
    using Suc.hyps(2) by simp
  define st' where "st' = (if c = 0 then k else st)"
  have step: "ba_find_run bm cnt [k..<n] c st =
      (if bm_get bm k then ba_find_run bm cnt [Suc k..<n] 0 st
       else if cnt \<le> Suc c then Some st' else ba_find_run bm cnt [Suc k..<n] (Suc c) st')"
    by (simp add: k(2) free BITS_PER_WORD_def Let_def st'_def del: push_bit_of_1)
  show ?case
  proof (cases "bm_get bm k")
    case True
    have no: "\<not> free_run bm n cnt t" if "k - c \<le> t" "t < Suc k" for t
    proof -
      have "k \<in> {t..<t + cnt}"
        using that Suc.prems(2) by simp
      then show ?thesis
        using True unfolding free_run_def by blast
    qed
    note ih = Suc.hyps(1) [OF d, of 0 st]
    have split: "\<not> free_run bm n cnt t" if "Suc k \<le> t \<Longrightarrow> \<not> free_run bm n cnt t" "k - c \<le> t" for t
      using that no [of t] by (cases "t < Suc k") auto
    show ?thesis
    proof (cases "ba_find_run bm cnt [Suc k..<n] 0 st")
      case None
      with ih have "\<forall>t\<ge>Suc k. \<not> free_run bm n cnt t"
        using Suc.prems(2) k(1) by simp
      then show ?thesis
        using split None True by (simp add: step)
    next
      case (Some r)
      with ih have "free_run bm n cnt r" "\<forall>t. Suc k \<le> t \<and> t < r \<longrightarrow> \<not> free_run bm n cnt t"
        using Suc.prems(2) k(1) by simp_all
      then have "free_run bm n cnt r \<and> (\<forall>t. k - c \<le> t \<and> t < r \<longrightarrow> \<not> free_run bm n cnt t)"
        using split by meson
      then show ?thesis
        using Some True by (simp add: step)
    qed
  next
    case False
    have st': "st' = k - c"
      using Suc.prems(4) by (simp add: st'_def)
    have run: "\<forall>i\<in>{k - c..<Suc k}. \<not> bm_get bm i"
      using Suc.prems(3) False by (auto simp: less_Suc_eq)
    show ?thesis
    proof (cases "Suc c \<ge> cnt")
      case True
      then have "k - c + cnt = Suc k"
        using Suc.prems(1,2) by simp
      then have "free_run bm n cnt (k - c)"
        unfolding free_run_def using run k(1) by simp
      then show ?thesis
        using True False by (auto simp: step st')
    next
      case ncnt: False
      then show ?thesis
        using Suc.hyps(1) [OF d, of "Suc c" st', unfolded diff_Suc_Suc] Suc.prems(1) st' run k(1) False
        by (simp add: step)
    qed
  qed
qed

lemma ba_find_run_iff:
  assumes "0 < cnt"
  shows "ba_find_run bm cnt [0..<n] 0 0 = Some r \<longleftrightarrow>
      free_run bm n cnt r \<and> (\<forall>t<r. \<not> free_run bm n cnt t)"
    and "ba_find_run bm cnt [0..<n] 0 0 = None \<longleftrightarrow> (\<forall>t. \<not> free_run bm n cnt t)"
  using ba_find_run_spec [of 0 0 cnt bm 0 n] assms
  by (auto split: option.splits) (metis linorder_neqE_nat)

lemma alloc_contiguous_Some:
  assumes inv: "ba_invar s" and a: "alloc_contiguous cnt s = Some (p, s')" and c: "1 < cnt"
  shows "ba_invar s' \<and> {p..<p + cnt} \<subseteq> ba_avail s \<and> ba_used s' = ba_used s \<union> {p..<p + cnt}
    \<and> ba_avail s' = ba_avail s - {p..<p + cnt}"
proof -
  from a c obtain st where
    f: "ba_find_run (ba_bitmap s) cnt [0..<ba_total_frames s] 0 0 = Some st"
    and p: "p = ba_start_ppn s + st"
    and s': "s' = s\<lparr>ba_bitmap := fold ba_mark [st..<st + cnt] (ba_bitmap s),
      ba_allocated_count := ba_allocated_count s + card {st..<st + cnt},
      ba_alloc_hint := ba_alloc_hint s\<rparr>"
    by (auto simp: alloc_contiguous_def index_to_ppn_def split: option.splits)
  have run: "free_run (ba_bitmap s) (ba_total_frames s) cnt st"
    using f ba_find_run_iff(1) [of cnt] c by simp
  then have I: "\<forall>i\<in>{st..<st + cnt}. i < ba_total_frames s \<and> \<not> bm_get (ba_bitmap s) i"
    by (auto simp: free_run_def)
  have "\<forall>i\<in>set [st..<st + cnt]. i < 64 * length (ba_bitmap s)"
    using I ba_bit_in_range [OF inv] by simp
  note mark = fold_mark [OF this]
  have "ba_invar s' \<and> ba_used s' = ba_used s \<union> (+) (ba_start_ppn s) ` {st..<st + cnt}
    \<and> ba_avail s' = ba_avail s - (+) (ba_start_ppn s) ` {st..<st + cnt}"
    by (rule ba_grow [OF inv I _ _ s']) (use mark in simp_all)
  moreover have img: "(+) (ba_start_ppn s) ` {st..<st + cnt} = {p..<p + cnt}"
    by (simp add: p ac_simps)
  moreover have "(+) (ba_start_ppn s) ` {st..<st + cnt} \<subseteq> ba_avail s"
    using I unfolding ba_avail_def by blast
  ultimately show ?thesis by simp
qed

lemma alloc_contiguous_None:
  assumes inv: "ba_invar s" and a: "alloc_contiguous cnt s = None" and c: "1 < cnt"
  shows "\<not> {p..<p + cnt} \<subseteq> ba_avail s"
proof
  assume sub: "{p..<p + cnt} \<subseteq> ba_avail s"
  let ?st = "p - ba_start_ppn s" and ?n = "ba_total_frames s"
  have av: "ba_start_ppn s \<le> q \<and> q - ba_start_ppn s < ?n \<and> \<not> bm_get (ba_bitmap s) (q - ba_start_ppn s)"
    if "q \<in> {p..<p + cnt}" for q
    using sub that by (auto simp: ba_avail_def subset_iff)
  have "ba_start_ppn s \<le> p" "p + cnt - 1 - ba_start_ppn s < ?n"
    using av [of p] av [of "p + cnt - 1"] c by auto
  then have "?st + cnt \<le> ?n"
    using c by linarith
  moreover have "\<not> bm_get (ba_bitmap s) i" if "i \<in> {?st..<?st + cnt}" for i
  proof -
    have "ba_start_ppn s + i \<in> {p..<p + cnt}"
      using that \<open>ba_start_ppn s \<le> p\<close> by auto
    from av [OF this] show ?thesis by simp
  qed
  ultimately have "free_run (ba_bitmap s) ?n cnt ?st"
    by (simp add: free_run_def)
  then show False
    using a c ba_find_run_iff(2) [of cnt]
    by (auto simp: alloc_contiguous_def split: option.splits)
qed

section \<open>Properties\<close>

text \<open>Whatever sequence of single-frame allocations and frees a client performs on an
  initialised bitmap allocator, no free panics, no frame is held twice, the set bits are exactly the
  held frames, all of them in the managed range, and the free count is exact.\<close>

theorem bitmap_history_safe:
  assumes "ba_init l r s0 = Ret s"
  shows "\<exists>held s'. id_history alloc_frame (dealloc_frame dbg) es [] s = Ret (held, s')
    \<and> ba_invar s' \<and> distinct held \<and> ba_used s' = set held
    \<and> ba_unallocated_frames s' = card (ba_avail s')"
proof -
  obtain held s' where "id_history alloc_frame (dealloc_frame dbg) es [] s = Ret (held, s')"
    "ba_invar s'" "distinct held" "set held \<subseteq> ba_used s'" "ba_used s' - set held = {}"
    using bitmap.history_safe [of s "[]" dbg es] ba_init_invar [OF assms] by auto
  then show ?thesis
    using ba_unallocated_card by blast
qed

theorem bitmap_history_safe_witness:
  "\<exists>s. ba_init 4096 4200 ba_new = Ret s \<and>
     (\<exists>held s'. id_history alloc_frame (dealloc_frame True) [Acquire, Acquire, Release 0, Acquire] [] s
        = Ret (held, s') \<and> distinct held \<and> ba_used s' = set held)"
proof -
  obtain s where "ba_init 4096 4200 ba_new = Ret s"
    by (simp add: ba_init_def Let_def)
  then show ?thesis
    using bitmap_history_safe [of 4096 4200 ba_new s True] by blast
qed

text \<open>(C13) \<open>alloc_contiguous\<close> for two or more frames is sound and complete: a returned block was
  wholly free, is now marked and nothing else is; \<open>None\<close> is returned only when the managed range has
  no such block.\<close>

theorem alloc_contiguous_correct:
  assumes "ba_invar s" "1 < cnt"
  shows "(case alloc_contiguous cnt s of
      None \<Rightarrow> \<forall>p. \<not> {p..<p + cnt} \<subseteq> ba_avail s
    | Some (p, s') \<Rightarrow> ba_invar s' \<and> {p..<p + cnt} \<subseteq> ba_avail s
        \<and> ba_used s' = ba_used s \<union> {p..<p + cnt} \<and> ba_avail s' = ba_avail s - {p..<p + cnt})"
  using alloc_contiguous_Some [OF assms(1) _ assms(2)] alloc_contiguous_None [OF assms(1) _ assms(2)]
  by (auto split: option.splits)

theorem alloc_contiguous_correct_witness:
  "\<exists>s. ba_init 4096 4200 ba_new = Ret s \<and> (\<exists>p s'. alloc_contiguous 70 s = Some (p, s')
     \<and> ba_used s' = {p..<p + 70})"
proof -
  obtain s where s: "ba_init 4096 4200 ba_new = Ret s"
    by (simp add: ba_init_def Let_def)
  note inv = ba_init_invar [OF s]
  have "{4096..<4096 + 70} \<subseteq> ba_avail s"
    by (auto simp: inv(3))
  then show ?thesis
    using alloc_contiguous_correct [OF inv(1), of 70] s inv(2)
    by (cases "alloc_contiguous 70 s") fastforce+
qed

text \<open>\<open>alloc_frame\<close> returns \<open>None\<close> exactly when every managed frame is allocated, wherever the
  next-fit hint points.\<close>

theorem alloc_frame_None_iff:
  assumes "ba_invar s"
  shows "alloc_frame s = None \<longleftrightarrow> ba_unallocated_frames s = 0"
proof -
  have "finite (ba_avail s)"
    by (simp add: ba_avail_def)
  then show ?thesis
    using bitmap.alloc_None [OF assms] bitmap.alloc_Some [OF assms] ba_unallocated_card [OF assms]
    by (cases "alloc_frame s") auto
qed

theorem alloc_frame_None_iff_witness:
  "alloc_frame \<lparr>ba_bitmap = [- 1], ba_start_ppn = 9, ba_total_frames = 64, ba_alloc_hint = 5,
     ba_allocated_count = 64\<rparr> = None"
proof -
  have "{i. i < (64 :: nat) \<and> bm_get [- 1] i} = {..<64}"
    by (auto simp: bm_get_def)
  then show ?thesis
    by (subst alloc_frame_None_iff) (auto simp: ba_invar_def ba_unallocated_frames_def)
qed

end
