(* ===== verification/Pipe.thy ===== *)
theory Pipe
  imports Prelude
begin

text \<open>
  \<open>fs/dev/pipe.rs\<close>: the 256-byte ring buffer of a pipe, its read and write ends, and the blocking
  read and write operations. One pass of the blocking loop is modelled; \<open>Blocked\<close> means that the task
  sleeps and tries again later. The inner copying loops are partial functions, so that their
  termination is a theorem.
\<close>

section \<open>A bounded first-in first-out stream\<close>

text \<open>
  What the readers and writers of a pipe rely on: bytes come out in the order in which they went in,
  none lost, none duplicated, none invented. \<open>push\<close> says how many elements it accepted.
\<close>

datatype 'a fifo_event = Push "'a list" | Pop nat

fun fifo_run ::
  "('a list \<Rightarrow> 's \<Rightarrow> nat \<times> 's) \<Rightarrow> (nat \<Rightarrow> 's \<Rightarrow> 'a list \<times> 's) \<Rightarrow> 'a fifo_event list \<Rightarrow> 's
     \<Rightarrow> 'a list \<times> 'a list \<times> 's" where
  "fifo_run push pop [] s = ([], [], s)"
| "fifo_run push pop (Push xs # es) s =
     (case push xs s of (n, s1) \<Rightarrow>
        (case fifo_run push pop es s1 of (ins, outs, s') \<Rightarrow> (take n xs @ ins, outs, s')))"
| "fifo_run push pop (Pop n # es) s =
     (case pop n s of (ys, s1) \<Rightarrow>
        (case fifo_run push pop es s1 of (ins, outs, s') \<Rightarrow> (ins, ys @ outs, s')))"

locale bounded_fifo =
  fixes push :: "'a list \<Rightarrow> 's \<Rightarrow> nat \<times> 's"
    and pop :: "nat \<Rightarrow> 's \<Rightarrow> 'a list \<times> 's"
    and invar :: "'s \<Rightarrow> bool"
    and contents :: "'s \<Rightarrow> 'a list"
    and capacity :: nat
  assumes bounded: "invar s \<Longrightarrow> length (contents s) \<le> capacity"
    and push_spec: "invar s \<Longrightarrow> xs \<noteq> [] \<Longrightarrow> push xs s = (n, s') \<Longrightarrow>
      invar s' \<and> n = min (length xs) (capacity - length (contents s))
      \<and> contents s' = contents s @ take n xs"
    and pop_spec: "invar s \<Longrightarrow> 0 < n \<Longrightarrow> pop n s = (ys, s') \<Longrightarrow>
      invar s' \<and> ys = take n (contents s) \<and> contents s' = drop n (contents s)"
begin

lemma stream:
  assumes "invar s" "\<forall>e\<in>set es. e \<noteq> Push [] \<and> e \<noteq> Pop 0" "fifo_run push pop es s = (ins, outs, s')"
  shows "invar s' \<and> contents s @ ins = outs @ contents s'"
  using assms
proof (induction es arbitrary: s ins outs)
  case Nil
  then show ?case by simp
next
  case (Cons e es)
  show ?case
  proof (cases e)
    case (Push xs)
    obtain n s1 where p: "push xs s = (n, s1)" by fastforce
    obtain i o1 where r: "fifo_run push pop es s1 = (i, o1, s')" "ins = take n xs @ i" "outs = o1"
      using Cons.prems(3) Push p by (auto split: prod.splits)
    have "xs \<noteq> []" using Cons.prems(2) Push by auto
    from push_spec [OF Cons.prems(1) this p] Cons.IH [OF _ _ r(1)] Cons.prems(2) r(2,3)
    show ?thesis by auto
  next
    case (Pop n)
    obtain ys s1 where p: "pop n s = (ys, s1)" by fastforce
    obtain i o1 where r: "fifo_run push pop es s1 = (i, o1, s')" "ins = i" "outs = ys @ o1"
      using Cons.prems(3) Pop p by (auto split: prod.splits)
    have "0 < n" using Cons.prems(2) Pop by auto
    note step = pop_spec [OF Cons.prems(1) this p]
    have "invar s' \<and> contents s1 @ i = o1 @ contents s'"
      using Cons.IH [OF _ _ r(1)] step Cons.prems(2) by simp
    then show ?thesis
      using step r(2,3) by (metis append.assoc append_take_drop_id)
  qed
qed

end

section \<open>State and operations\<close>

definition RING_DEFAULT_BUFFER_SIZE :: nat where "RING_DEFAULT_BUFFER_SIZE = 256"

datatype ring_buffer_status = FULL | EMPTY | NORMAL

text \<open>The weak references to the two ends: \<open>None\<close> before \<open>make_pipe\<close> sets them, then whether the
  end is still open.\<close>

record pipe_ring_buffer =
  rb_arr :: "u8 list"
  rb_head :: nat
  rb_tail :: nat
  rb_status :: ring_buffer_status
  rb_write_end :: "bool option"
  rb_read_end :: "bool option"

definition ring_new :: pipe_ring_buffer where
  "ring_new = \<lparr>rb_arr = replicate RING_DEFAULT_BUFFER_SIZE 0, rb_head = 0, rb_tail = 0,
     rb_status = EMPTY, rb_write_end = None, rb_read_end = None\<rparr>"

definition get_used_size :: "pipe_ring_buffer \<Rightarrow> nat outcome" where
  "get_used_size r =
     (if rb_status r = FULL then Ret (length (rb_arr r))
      else if rb_status r = EMPTY then Ret 0
      else if rb_head r = rb_tail r then Panic
      else if rb_head r < rb_tail r then Ret (rb_tail r - rb_head r)
      else Ret (rb_tail r + length (rb_arr r) - rb_head r))"

text \<open>\<open>buffer_read\<close> into a buffer of length \<open>len\<close> returns the bytes it copied.\<close>

definition buffer_read :: "nat \<Rightarrow> pipe_ring_buffer \<Rightarrow> u8 list \<times> pipe_ring_buffer" where
  "buffer_read len r =
     (let begin = rb_head r;
          end' = (if rb_tail r \<le> rb_head r then RING_DEFAULT_BUFFER_SIZE else rb_tail r);
          read_bytes = min len (end' - begin)
      in (take read_bytes (drop begin (rb_arr r)),
          r\<lparr>rb_head := (if begin + read_bytes = RING_DEFAULT_BUFFER_SIZE then 0 else begin + read_bytes)\<rparr>))"

definition buffer_write :: "u8 list \<Rightarrow> pipe_ring_buffer \<Rightarrow> nat \<times> pipe_ring_buffer" where
  "buffer_write buf r =
     (let begin = rb_tail r;
          end' = (if rb_tail r < rb_head r then rb_head r else RING_DEFAULT_BUFFER_SIZE);
          write_bytes = min (length buf) (end' - begin)
      in (write_bytes,
          r\<lparr>rb_arr := take begin (rb_arr r) @ take write_bytes buf @ drop (begin + write_bytes) (rb_arr r),
            rb_tail := (if begin + write_bytes = RING_DEFAULT_BUFFER_SIZE then 0 else begin + write_bytes)\<rparr>))"

definition all_write_ends_closed :: "pipe_ring_buffer \<Rightarrow> bool outcome" where
  "all_write_ends_closed r = (case rb_write_end r of None \<Rightarrow> Panic | Some alive \<Rightarrow> Ret (\<not> alive))"

definition all_read_ends_closed :: "pipe_ring_buffer \<Rightarrow> bool outcome" where
  "all_read_ends_closed r = (case rb_read_end r of None \<Rightarrow> Panic | Some alive \<Rightarrow> Ret (\<not> alive))"

definition make_pipe :: pipe_ring_buffer where
  "make_pipe = ring_new\<lparr>rb_write_end := Some True, rb_read_end := Some True\<rparr>"

text \<open>The copying loops of \<open>read\<close>/\<open>read_user\<close> and \<open>write\<close>/\<open>write_user\<close> for one buffer. The flag says
  that the loop met \<open>head == tail\<close>, set the status and returned.\<close>

partial_function (option) read_loop ::
  "nat \<Rightarrow> u8 list \<Rightarrow> pipe_ring_buffer \<Rightarrow> (u8 list \<times> bool \<times> pipe_ring_buffer) option" where
  "read_loop len acc r =
     (if \<not> length acc < len then Some (acc, False, r)
      else let bs = fst (buffer_read (len - length acc) r); r' = snd (buffer_read (len - length acc) r)
           in if rb_head r' = rb_tail r' then Some (acc @ bs, True, r'\<lparr>rb_status := EMPTY\<rparr>)
              else read_loop len (acc @ bs) r')"

partial_function (option) write_loop ::
  "u8 list \<Rightarrow> nat \<Rightarrow> pipe_ring_buffer \<Rightarrow> (nat \<times> bool \<times> pipe_ring_buffer) option" where
  "write_loop buf start r =
     (if \<not> start < length buf then Some (start, False, r)
      else let n = fst (buffer_write (drop start buf) r); r' = snd (buffer_write (drop start buf) r)
           in if rb_head r' = rb_tail r' then Some (start + n, True, r'\<lparr>rb_status := FULL\<rparr>)
              else write_loop buf (start + n) r')"

datatype 'a attempt = Blocked | Errno int | Done 'a

definition ESPIPE :: int where "ESPIPE = - 29"

definition pipe_read ::
  "nat option \<Rightarrow> nat \<Rightarrow> pipe_ring_buffer \<Rightarrow> (u8 list attempt \<times> pipe_ring_buffer) outcome option" where
  "pipe_read offset len r =
     (if offset \<noteq> None then Some (Ret (Errno ESPIPE, r))
      else if rb_status r = EMPTY
      then Some (bind_outcome (all_write_ends_closed r)
             (\<lambda>closed. if closed then Ret (Done [], r) else Ret (Blocked, r)))
      else Option.bind (read_loop len [] r) (\<lambda>(bs, emptied, r').
             if emptied then Some (Ret (Done bs, r'))
             else Some (Ret (Done bs, r'\<lparr>rb_status := NORMAL\<rparr>))))"

definition pipe_write ::
  "nat option \<Rightarrow> u8 list \<Rightarrow> pipe_ring_buffer \<Rightarrow> (nat attempt \<times> pipe_ring_buffer) outcome option" where
  "pipe_write offset buf r =
     (if offset \<noteq> None then Some (Ret (Errno ESPIPE, r))
      else if rb_status r = FULL
      then Some (bind_outcome (all_read_ends_closed r)
             (\<lambda>closed. if closed then Ret (Done 0, r) else Ret (Blocked, r)))
      else Option.bind (write_loop buf 0 r) (\<lambda>(n, filled, r').
             if filled then Some (Ret (Done n, r'))
             else Some (Ret (Done n, r'\<lparr>rb_status := NORMAL\<rparr>))))"

text \<open>\<open>read_user\<close> and \<open>write_user\<close> do the same over the list of buffers that the user's memory range
  translates to.\<close>

fun read_user_loop ::
  "nat list \<Rightarrow> u8 list \<Rightarrow> pipe_ring_buffer \<Rightarrow> (u8 list \<times> pipe_ring_buffer) option" where
  "read_user_loop [] acc r = Some (acc, r\<lparr>rb_status := NORMAL\<rparr>)"
| "read_user_loop (len # lens) acc r =
     Option.bind (read_loop len [] r) (\<lambda>(bs, emptied, r').
       if emptied then Some (acc @ bs, r') else read_user_loop lens (acc @ bs) r')"

fun write_user_loop ::
  "u8 list list \<Rightarrow> nat \<Rightarrow> pipe_ring_buffer \<Rightarrow> (nat \<times> pipe_ring_buffer) option" where
  "write_user_loop [] write_size r = Some (write_size, r\<lparr>rb_status := NORMAL\<rparr>)"
| "write_user_loop (buf # bufs) write_size r =
     Option.bind (write_loop buf 0 r) (\<lambda>(n, filled, r').
       if filled then Some (write_size + n, r') else write_user_loop bufs (write_size + n) r')"

definition pipe_read_user ::
  "nat option \<Rightarrow> nat list \<Rightarrow> pipe_ring_buffer \<Rightarrow> (u8 list attempt \<times> pipe_ring_buffer) outcome option" where
  "pipe_read_user offset lens r =
     (if offset \<noteq> None then Some (Ret (Errno ESPIPE, r))
      else if rb_status r = EMPTY
      then Some (bind_outcome (all_write_ends_closed r)
             (\<lambda>closed. if closed then Ret (Done [], r) else Ret (Blocked, r)))
      else map_option (\<lambda>(bs, r'). Ret (Done bs, r')) (read_user_loop lens [] r))"

definition pipe_write_user ::
  "nat option \<Rightarrow> u8 list list \<Rightarrow> pipe_ring_buffer \<Rightarrow> (nat attempt \<times> pipe_ring_buffer) outcome option" where
  "pipe_write_user offset bufs r =
     (if offset \<noteq> None then Some (Ret (Errno ESPIPE, r))
      else if rb_status r = FULL
      then Some (bind_outcome (all_read_ends_closed r)
             (\<lambda>closed. if closed then Ret (Done 0, r) else Ret (Blocked, r)))
      else map_option (\<lambda>(n, r'). Ret (Done n, r')) (write_user_loop bufs 0 r))"

definition pipe_r_ready :: "pipe_ring_buffer \<Rightarrow> bool" where "pipe_r_ready r \<longleftrightarrow> rb_status r \<noteq> EMPTY"
definition pipe_w_ready :: "pipe_ring_buffer \<Rightarrow> bool" where "pipe_w_ready r \<longleftrightarrow> rb_status r \<noteq> FULL"

definition pipe_hang_up :: "bool \<Rightarrow> pipe_ring_buffer \<Rightarrow> bool outcome" where
  "pipe_hang_up readable r = (if readable then all_write_ends_closed r else all_read_ends_closed r)"

section \<open>The ring as a byte list\<close>

definition ring_idx :: "pipe_ring_buffer \<Rightarrow> bool" where
  "ring_idx r \<longleftrightarrow> length (rb_arr r) = 256 \<and> rb_head r < 256 \<and> rb_tail r < 256"

text \<open>The bytes from head to tail, a full round when they coincide.\<close>

definition live :: "pipe_ring_buffer \<Rightarrow> u8 list" where
  "live r = (if rb_head r < rb_tail r then take (rb_tail r - rb_head r) (drop (rb_head r) (rb_arr r))
     else drop (rb_head r) (rb_arr r) @ take (rb_tail r) (rb_arr r))"

definition ring_inv :: "pipe_ring_buffer \<Rightarrow> bool" where
  "ring_inv r \<longleftrightarrow> ring_idx r \<and> (rb_status r = NORMAL \<longleftrightarrow> rb_head r \<noteq> rb_tail r)
     \<and> rb_write_end r \<noteq> None \<and> rb_read_end r \<noteq> None"

definition ring_contents :: "pipe_ring_buffer \<Rightarrow> u8 list" where
  "ring_contents r = (if rb_status r = EMPTY then [] else live r)"

lemma live_length:
  "ring_idx r \<Longrightarrow> 0 < length (live r) \<and> length (live r) \<le> 256 \<and> (length (live r) = 256 \<longleftrightarrow> rb_head r = rb_tail r)"
  by (auto simp: ring_idx_def live_def)

lemma make_pipe_inv: "ring_inv make_pipe" "ring_contents make_pipe = []"
  by (simp_all add: make_pipe_def ring_new_def ring_inv_def ring_idx_def ring_contents_def
      RING_DEFAULT_BUFFER_SIZE_def)

lemma get_used_size_contents: "ring_inv r \<Longrightarrow> get_used_size r = Ret (length (ring_contents r))"
  by (cases "rb_status r")
    (auto simp: get_used_size_def ring_inv_def ring_contents_def ring_idx_def live_def)

lemma buffer_read_spec:
  assumes "ring_idx r" "0 < len" "buffer_read len r = (bs, r')"
  shows "bs = take (length bs) (live r)" "0 < length bs" "length bs \<le> len" "ring_idx r'"
    "rb_tail r' = rb_tail r" "rb_status r' = rb_status r" "rb_write_end r' = rb_write_end r"
    "rb_read_end r' = rb_read_end r"
    "rb_head r' = rb_tail r' \<Longrightarrow> length bs = length (live r)"
    "rb_head r' \<noteq> rb_tail r' \<Longrightarrow> live r' = drop (length bs) (live r)"
proof -
  let ?h = "rb_head r" and ?t = "rb_tail r" and ?a = "rb_arr r"
  define k where "k = min len ((if ?t \<le> ?h then 256 else ?t) - ?h)"
  have idx: "length ?a = 256" "?h < 256" "?t < 256"
    using assms(1) by (auto simp: ring_idx_def)
  have bs: "bs = take k (drop ?h ?a)" and r': "r' = r\<lparr>rb_head := if ?h + k = 256 then 0 else ?h + k\<rparr>"
    using assms(3) by (auto simp: buffer_read_def Let_def k_def RING_DEFAULT_BUFFER_SIZE_def)
  have k: "0 < k" "k \<le> len" "?h + k \<le> 256" "?h < ?t \<Longrightarrow> ?h + k \<le> ?t"
    using idx assms(2) by (auto simp: k_def)
  then have l: "length bs = k"
    using idx by (simp add: bs)
  show "0 < length bs" "length bs \<le> len"
    using k l by simp_all
  show "ring_idx r'" "rb_tail r' = rb_tail r" "rb_status r' = rb_status r"
    "rb_write_end r' = rb_write_end r" "rb_read_end r' = rb_read_end r"
    using idx k by (auto simp: r' ring_idx_def)
  show "bs = take (length bs) (live r)"
    unfolding l using k idx by (auto simp: bs live_def min_def)
  show "rb_head r' = rb_tail r' \<Longrightarrow> length bs = length (live r)"
    unfolding l using k idx by (auto simp: r' live_def split: if_splits)
  show "rb_head r' \<noteq> rb_tail r' \<Longrightarrow> live r' = drop (length bs) (live r)"
    unfolding l using k idx by (auto simp: r' live_def drop_take add.commute split: if_splits)
qed

text \<open>What the ring holds for a writer, who never runs on a full ring: nothing when the indexes
  coincide.\<close>

definition held :: "pipe_ring_buffer \<Rightarrow> u8 list" where
  "held r = (if rb_head r = rb_tail r then [] else live r)"

lemma buffer_write_spec:
  assumes "ring_idx r" "buf \<noteq> []" "buffer_write buf r = (n, r')"
  shows "0 < n" "n \<le> length buf" "length (held r) + n \<le> 256" "ring_idx r'"
    "rb_head r' = rb_head r" "rb_status r' = rb_status r" "rb_write_end r' = rb_write_end r"
    "rb_read_end r' = rb_read_end r"
    "rb_head r' = rb_tail r' \<Longrightarrow> live r' = held r @ take n buf"
    "rb_head r' \<noteq> rb_tail r' \<Longrightarrow> held r' = held r @ take n buf"
proof -
  let ?h = "rb_head r" and ?t = "rb_tail r" and ?a = "rb_arr r"
  have idx: "length ?a = 256" "?h < 256" "?t < 256"
    using assms(1) by (auto simp: ring_idx_def)
  have n: "n = min (length buf) ((if ?t < ?h then ?h else 256) - ?t)"
    and r': "r' = r\<lparr>rb_arr := take ?t ?a @ take n buf @ drop (?t + n) ?a,
      rb_tail := if ?t + n = 256 then 0 else ?t + n\<rparr>"
    using assms(3) by (auto simp: buffer_write_def Let_def RING_DEFAULT_BUFFER_SIZE_def)
  have len: "0 < length buf"
    using assms(2) by simp
  show n': "0 < n" "n \<le> length buf"
    using idx len by (auto simp: n)
  have b: "?t + n \<le> 256" "?t < ?h \<Longrightarrow> ?t + n \<le> ?h"
    using idx by (auto simp: n)
  show "length (held r) + n \<le> 256"
    using idx b by (auto simp: held_def live_def)
  show "ring_idx r'" "rb_head r' = rb_head r" "rb_status r' = rb_status r"
    "rb_write_end r' = rb_write_end r" "rb_read_end r' = rb_read_end r"
    using idx b n' by (auto simp: r' ring_idx_def)
  have ln: "length (take n buf) = n"
    using n' by simp
  define P where "P = take ?t ?a @ take n buf"
  have P: "length P = ?t + n" "rb_arr r' = P @ drop (?t + n) ?a"
    using idx n' by (simp_all add: P_def r')
  have hi: "drop x (rb_arr r') = drop x ?a" if "?t + n \<le> x" for x
    using that P by simp
  have lo: "drop ?h P = take (?t - ?h) (drop ?h ?a) @ take n buf" if "?h \<le> ?t"
    using that idx by (simp add: P_def drop_take)
  have tail: "rb_tail r' = (if ?t + n = 256 then 0 else ?t + n)" "rb_head r' = ?h"
    by (simp_all add: r')
  show "rb_head r' = rb_tail r' \<Longrightarrow> live r' = held r @ take n buf"
  proof -
    assume e: "rb_head r' = rb_tail r'"
    then have "live r' = drop ?h (rb_arr r') @ take ?h (rb_arr r')"
      by (simp add: live_def tail)
    then show ?thesis
    proof (cases "?t < ?h")
      case True
      then have "?h = ?t + n" using e tail b idx by (auto split: if_splits)
      then show ?thesis
        using \<open>live r' = _\<close> True hi [of ?h] P by (simp add: held_def live_def P_def)
    next
      case False
      then have "?h = 0" "?t + n = 256" using e tail n' by (auto split: if_splits)
      then show ?thesis
        using \<open>live r' = _\<close> P idx lo by (simp add: held_def live_def P_def)
    qed
  qed
  show "rb_head r' \<noteq> rb_tail r' \<Longrightarrow> held r' = held r @ take n buf"
  proof -
    assume ne: "rb_head r' \<noteq> rb_tail r'"
    show ?thesis
    proof (cases "?t < ?h")
      case True
      then have t: "rb_tail r' = ?t + n" "?t + n < ?h"
        using ne tail b idx by auto
      then show ?thesis
        using ne True hi [of ?h] P by (simp add: held_def live_def P_def tail)
    next
      case False
      have old: "held r = take (?t - ?h) (drop ?h ?a)"
        using False by (simp add: held_def live_def)
      show ?thesis
      proof (cases "?t + n = 256")
        case True
        then show ?thesis
          using ne False P lo idx tail old by (simp add: held_def live_def)
      next
        case nf: False
        have "take (?t + n - ?h) (drop ?h (rb_arr r')) = drop ?h P"
          using False P by (simp add: drop_append)
        then show ?thesis
          using ne False nf lo tail old n' by (simp add: held_def live_def)
      qed
    qed
  qed
qed

section \<open>The copying loops\<close>

text \<open>Both loops return: every pass moves at least one byte.\<close>

lemma read_loop_spec:
  assumes "ring_idx r" "length acc < len"
  shows "\<exists>r'. read_loop len acc r = Some (acc @ take (len - length acc) (live r),
        length (live r) \<le> len - length acc, r')
    \<and> ring_idx r' \<and> rb_write_end r' = rb_write_end r \<and> rb_read_end r' = rb_read_end r
    \<and> (length (live r) \<le> len - length acc \<longrightarrow> rb_status r' = EMPTY \<and> rb_head r' = rb_tail r')
    \<and> (len - length acc < length (live r) \<longrightarrow> rb_status r' = rb_status r
        \<and> rb_head r' \<noteq> rb_tail r' \<and> live r' = drop (len - length acc) (live r))"
  using assms
proof (induction "len - length acc" arbitrary: acc r rule: less_induct)
  case less
  let ?n = "len - length acc"
  obtain bs r1 where b: "buffer_read ?n r = (bs, r1)" by fastforce
  have n: "0 < ?n" using less.prems(2) by simp
  note sp = buffer_read_spec [OF less.prems(1) n b]
  show ?case
  proof (cases "rb_head r1 = rb_tail r1")
    case True
    then have lv: "length bs = length (live r)" using sp(9) by simp
    then have "bs = take ?n (live r)" "length (live r) \<le> ?n"
      using sp(1,3) by simp_all
    then show ?thesis
      using True b less.prems(2) sp by (subst read_loop.simps) (simp add: ring_idx_def)
  next
    case False
    note lv = sp(10) [OF False]
    have step: "read_loop len acc r = read_loop len (acc @ bs) r1"
      using False b less.prems(2) by (subst read_loop.simps) simp
    have cut: "take ?n (live r) = bs @ take (?n - length bs) (live r1)"
      using sp(1,3) by (metis lv append_take_drop_id le_add_diff_inverse take_add)
    show ?thesis
    proof (cases "length (acc @ bs) < len")
      case True
      have lt: "len - length (acc @ bs) < ?n" "len - length (acc @ bs) = ?n - length bs"
        using sp(2) n by (simp_all only: length_append)
      have ll: "length (live r) = length bs + length (live r1)"
        using sp(1) lv by (metis append_take_drop_id length_append)
      have arith: "length (live r1) \<le> ?n - length bs \<longleftrightarrow> length (live r) \<le> ?n"
        "?n - length bs < length (live r1) \<longleftrightarrow> ?n < length (live r)"
        using ll sp(3) by linarith+
      have dr: "drop (?n - length bs) (live r1) = drop ?n (live r)"
        unfolding lv drop_drop using sp(3) by (simp only: le_add_diff_inverse2)
      note ih = less.hyps [OF lt(1) sp(4) True, unfolded lt(2) arith dr]
      show ?thesis
        unfolding step cut append_assoc [symmetric] using ih sp(5-8) by simp
    next
      case fin: False
      then have e: "?n = length bs" using sp(3) by simp
      have "read_loop len (acc @ bs) r1 = Some (acc @ bs, False, r1)"
        using fin by (subst read_loop.simps) simp
      moreover have "\<not> length (live r) \<le> ?n"
        using live_length [OF sp(4)] lv e by auto
      ultimately show ?thesis
        unfolding step using sp e lv False by (auto simp: sp(1) [symmetric])
    qed
  qed
qed

lemma write_loop_spec:
  assumes "ring_idx r" "start < length buf" "length (held r) < 256"
  shows "\<exists>r'. write_loop buf start r = Some (start + min (length buf - start) (256 - length (held r)),
        256 - length (held r) \<le> length buf - start, r')
    \<and> ring_idx r' \<and> rb_write_end r' = rb_write_end r \<and> rb_read_end r' = rb_read_end r
    \<and> (256 - length (held r) \<le> length buf - start \<longrightarrow> rb_status r' = FULL \<and> rb_head r' = rb_tail r'
        \<and> live r' = held r @ take (256 - length (held r)) (drop start buf))
    \<and> (length buf - start < 256 - length (held r) \<longrightarrow> rb_status r' = rb_status r
        \<and> rb_head r' \<noteq> rb_tail r' \<and> held r' = held r @ drop start buf)"
  using assms
proof (induction "length buf - start" arbitrary: start r rule: less_induct)
  case less
  let ?b = "drop start buf"
  obtain n r1 where b: "buffer_write ?b r = (n, r1)" by fastforce
  have ne: "?b \<noteq> []" using less.prems(2) by simp
  note sp = buffer_write_spec [OF less.prems(1) ne b]
  have lb: "n \<le> length buf - start" using sp(2) by simp
  show ?case
  proof (cases "rb_head r1 = rb_tail r1")
    case True
    then have "length (live r1) = 256"
      using live_length [OF sp(4)] by simp
    then have "n = 256 - length (held r)"
      using sp(9) [OF True] lb by simp
    then show ?thesis
      using True b less.prems(2) sp sp(9) [OF True] lb
      by (subst write_loop.simps) (simp add: ring_idx_def live_def)
  next
    case False
    note hd = sp(10) [OF False]
    have step: "write_loop buf start r = write_loop buf (start + n) r1"
      using False b less.prems(2) by (subst write_loop.simps) simp
    have ln: "length (held r1) = length (held r) + n" "length (held r1) < 256"
      using hd lb live_length [OF sp(4)] False by (auto simp: held_def)
    have cut: "drop start buf = take n ?b @ drop (start + n) buf"
      by (metis append_take_drop_id drop_drop add.commute)
    show ?thesis
    proof (cases "start + n < length buf")
      case True
      have "length buf - (start + n) < length buf - start"
        using sp(1) True by simp
      from less.hyps [OF this sp(4) True ln(2)] obtain r' where r':
        "write_loop buf (start + n) r1
          = Some (start + n + min (length buf - (start + n)) (256 - length (held r1)),
              256 - length (held r1) \<le> length buf - (start + n), r')"
        "ring_idx r'" "rb_write_end r' = rb_write_end r1" "rb_read_end r' = rb_read_end r1"
        "256 - length (held r1) \<le> length buf - (start + n) \<longrightarrow> rb_status r' = FULL \<and> rb_head r' = rb_tail r'
          \<and> live r' = held r1 @ take (256 - length (held r1)) (drop (start + n) buf)"
        "length buf - (start + n) < 256 - length (held r1) \<longrightarrow> rb_status r' = rb_status r1
          \<and> rb_head r' \<noteq> rb_tail r' \<and> held r' = held r1 @ drop (start + n) buf"
        by blast
      have split: "take (256 - length (held r)) ?b = take n ?b @ take (256 - length (held r1)) (drop (start + n) buf)"
        using ln sp(3) lb by (subst cut) (simp add: add.commute)
      have app: "held r1 @ drop (start + n) buf = held r @ drop start buf"
        "held r1 @ take (256 - length (held r1)) (drop (start + n) buf)
          = held r @ take (256 - length (held r)) ?b"
        unfolding hd split using cut by (simp_all only: append_assoc)
      have arith: "start + n + min (length buf - (start + n)) (256 - length (held r1))
          = start + min (length buf - start) (256 - length (held r))"
        "256 - length (held r1) \<le> length buf - (start + n) \<longleftrightarrow> 256 - length (held r) \<le> length buf - start"
        "length buf - (start + n) < 256 - length (held r1) \<longleftrightarrow> length buf - start < 256 - length (held r)"
        using ln True by linarith+
      show ?thesis
        unfolding step r'(1) arith using r'(2-) [unfolded arith] sp(5-8) app by simp
    next
      case fin: False
      then have e: "n = length buf - start" using lb by simp
      have "write_loop buf (start + n) r1 = Some (start + n, False, r1)"
        using fin by (subst write_loop.simps) simp
      then show ?thesis
        unfolding step using sp e hd ln False by (auto simp: min_def)
    qed
  qed
qed

lemma read_loop_0: "read_loop 0 [] r = Some ([], False, r)"
  by (subst read_loop.simps) simp

lemma write_loop_0: "write_loop [] 0 r = Some (0, False, r)"
  by (subst write_loop.simps) simp

text \<open>The loop over the user's buffers copies as the loop over one buffer of their total length does.\<close>

lemma read_user_loop_spec:
  assumes "ring_idx r" "rb_head r \<noteq> rb_tail r \<or> 0 < sum_list lens" "rb_status r \<noteq> EMPTY"
  shows "\<exists>r'. read_user_loop lens acc r = Some (acc @ take (sum_list lens) (live r), r')
    \<and> ring_idx r' \<and> rb_write_end r' = rb_write_end r \<and> rb_read_end r' = rb_read_end r
    \<and> (rb_status r' = NORMAL \<longleftrightarrow> rb_head r' \<noteq> rb_tail r')
    \<and> (if length (live r) \<le> sum_list lens then rb_status r' = EMPTY
       else rb_status r' = NORMAL \<and> live r' = drop (sum_list lens) (live r))"
  using assms
proof (induction lens arbitrary: acc r)
  case Nil
  then show ?case
    using live_length [of r] by (auto simp: ring_idx_def live_def)
next
  case (Cons len lens)
  show ?case
  proof (cases "len = 0")
    case True
    then have e: "read_user_loop (len # lens) acc r = read_user_loop lens acc r"
      "sum_list (len # lens) = sum_list lens"
      using read_loop_0 by simp_all
    show ?thesis
      unfolding e using Cons.prems(2) e(2) by (intro Cons.IH [OF Cons.prems(1) _ Cons.prems(3)]) simp
  next
    case False
    then obtain r1 where r1: "read_loop len [] r = Some (take len (live r), length (live r) \<le> len, r1)"
      "ring_idx r1" "rb_write_end r1 = rb_write_end r" "rb_read_end r1 = rb_read_end r"
      "length (live r) \<le> len \<longrightarrow> rb_status r1 = EMPTY \<and> rb_head r1 = rb_tail r1"
      "len < length (live r) \<longrightarrow> rb_status r1 = rb_status r \<and> rb_head r1 \<noteq> rb_tail r1
        \<and> live r1 = drop len (live r)"
      using read_loop_spec [OF Cons.prems(1), of "[]" len] by auto
    show ?thesis
    proof (cases "length (live r) \<le> len")
      case True
      then show ?thesis
        using r1 by simp
    next
      case more: False
      then have lv: "live r1 = drop len (live r)" and ne: "rb_head r1 \<noteq> rb_tail r1"
        and st: "rb_status r1 \<noteq> EMPTY"
        using r1(6) Cons.prems(3) by auto
      have tk: "acc @ take (len + sum_list lens) (live r)
          = (acc @ take len (live r)) @ take (sum_list lens) (live r1)"
        unfolding lv by (simp add: take_add)
      have le: "length (live r1) \<le> sum_list lens \<longleftrightarrow> length (live r) \<le> len + sum_list lens"
        unfolding lv by auto
      have dr: "drop (sum_list lens) (live r1) = drop (len + sum_list lens) (live r)"
        unfolding lv by (simp add: add.commute)
      note ih = Cons.IH [OF r1(2) _ st, of "acc @ take len (live r)", unfolded le dr]
      show ?thesis
        using ih ne more r1(1,3,4) by (simp add: tk cong: if_cong split del: if_split)
    qed
  qed
qed

lemma write_user_loop_spec:
  assumes "ring_idx r" "length (held r) < 256" "held r \<noteq> [] \<or> concat bufs \<noteq> []"
    "rb_head r \<noteq> rb_tail r \<or> rb_status r \<noteq> FULL"
  shows "\<exists>r'. write_user_loop bufs k r
      = Some (k + min (length (concat bufs)) (256 - length (held r)), r')
    \<and> ring_idx r' \<and> rb_write_end r' = rb_write_end r \<and> rb_read_end r' = rb_read_end r
    \<and> (rb_status r' = NORMAL \<longleftrightarrow> rb_head r' \<noteq> rb_tail r') \<and> rb_status r' \<noteq> EMPTY
    \<and> live r' = held r @ take (256 - length (held r)) (concat bufs)"
  using assms
proof (induction bufs arbitrary: k r)
  case Nil
  then have "rb_head r \<noteq> rb_tail r" by (auto simp: held_def)
  then show ?case
    using Nil by (auto simp: ring_idx_def live_def held_def)
next
  case (Cons buf bufs)
  show ?case
  proof (cases "buf = []")
    case True
    then show ?thesis
      using Cons write_loop_0 by simp
  next
    case False
    let ?f = "256 - length (held r)"
    obtain r1 where r1: "write_loop buf 0 r = Some (min (length buf) ?f, ?f \<le> length buf, r1)"
      "ring_idx r1" "rb_write_end r1 = rb_write_end r" "rb_read_end r1 = rb_read_end r"
      "?f \<le> length buf \<longrightarrow> rb_status r1 = FULL \<and> rb_head r1 = rb_tail r1
        \<and> live r1 = held r @ take ?f buf"
      "length buf < ?f \<longrightarrow> rb_status r1 = rb_status r \<and> rb_head r1 \<noteq> rb_tail r1
        \<and> held r1 = held r @ buf"
      using write_loop_spec [OF Cons.prems(1), of 0 buf] False Cons.prems(2) by auto
    show ?thesis
    proof (cases "?f \<le> length buf")
      case True
      then show ?thesis
        using r1 by (auto simp: min_def)
    next
      case more: False
      then have hd: "held r1 = held r @ buf" and ne: "rb_head r1 \<noteq> rb_tail r1"
        using r1(6) by auto
      then have "\<exists>r'. write_user_loop bufs (k + length buf) r1
          = Some (k + length buf + min (length (concat bufs)) (256 - length (held r1)), r')
        \<and> ring_idx r' \<and> rb_write_end r' = rb_write_end r1 \<and> rb_read_end r' = rb_read_end r1
        \<and> (rb_status r' = NORMAL \<longleftrightarrow> rb_head r' \<noteq> rb_tail r') \<and> rb_status r' \<noteq> EMPTY
        \<and> live r' = held r1 @ take (256 - length (held r1)) (concat bufs)"
        using more False r1(2) by (intro Cons.IH) auto
      moreover have "length buf + min (length (concat bufs)) (256 - length (held r1))
          = min (length (concat (buf # bufs))) ?f" "min (length buf) ?f = length buf"
        using more by (auto simp: hd)
      moreover have "held r1 @ take (256 - length (held r1)) (concat bufs)
          = held r @ take ?f (concat (buf # bufs))"
        using more by (simp add: hd)
      ultimately show ?thesis
        using r1(1,3,4) more by (auto simp: add.assoc)
    qed
  qed
qed

section \<open>Reads and writes of a pipe\<close>

lemma contents_held: "ring_inv r \<Longrightarrow> rb_status r \<noteq> FULL \<Longrightarrow> held r = ring_contents r"
  by (cases "rb_status r") (auto simp: ring_inv_def held_def ring_contents_def)

lemma contents_full: "ring_inv r \<Longrightarrow> rb_status r = FULL \<longleftrightarrow> length (ring_contents r) = 256"
  using live_length [of r] by (cases "rb_status r") (auto simp: ring_inv_def ring_contents_def)

lemma contents_empty: "ring_inv r \<Longrightarrow> rb_status r = EMPTY \<longleftrightarrow> ring_contents r = []"
  using live_length [of r] by (auto simp: ring_inv_def ring_contents_def)

lemma pipe_read_user_data:
  assumes inv: "ring_inv r" and ne: "rb_status r \<noteq> EMPTY" and len: "0 < sum_list lens"
  shows "\<exists>r'. pipe_read_user None lens r = Some (Ret (Done (take (sum_list lens) (ring_contents r)), r'))
    \<and> ring_inv r' \<and> ring_contents r' = drop (sum_list lens) (ring_contents r)"
proof -
  have i: "ring_idx r" and c: "ring_contents r = live r"
    using inv ne by (simp_all add: ring_inv_def ring_contents_def)
  from read_user_loop_spec [OF i _ ne, of lens "[]"] len obtain r' where r':
    "read_user_loop lens [] r = Some (take (sum_list lens) (live r), r')" "ring_idx r'"
    "rb_write_end r' = rb_write_end r" "rb_read_end r' = rb_read_end r"
    "rb_status r' = NORMAL \<longleftrightarrow> rb_head r' \<noteq> rb_tail r'"
    "if length (live r) \<le> sum_list lens then rb_status r' = EMPTY
     else rb_status r' = NORMAL \<and> live r' = drop (sum_list lens) (live r)" by auto
  then have "ring_inv r'"
    using inv by (simp add: ring_inv_def)
  moreover have "ring_contents r' = drop (sum_list lens) (live r)"
    using r'(6) by (auto simp: ring_contents_def split: if_splits)
  ultimately show ?thesis
    using r'(1) ne c by (simp add: pipe_read_user_def)
qed

lemma pipe_write_user_data:
  assumes inv: "ring_inv r" and nf: "rb_status r \<noteq> FULL" and ne: "concat bufs \<noteq> []"
  shows "\<exists>r'. pipe_write_user None bufs r
      = Some (Ret (Done (min (length (concat bufs)) (256 - length (ring_contents r))), r'))
    \<and> ring_inv r'
    \<and> ring_contents r' = ring_contents r @ take (256 - length (ring_contents r)) (concat bufs)"
proof -
  have i: "ring_idx r" and c: "held r = ring_contents r"
    using inv contents_held [OF inv nf] by (simp_all add: ring_inv_def)
  have l: "length (held r) < 256"
    using live_length [OF i] by (auto simp: held_def order_le_less)
  from write_user_loop_spec [OF i l, of bufs 0] ne nf obtain r' where r':
    "write_user_loop bufs 0 r = Some (min (length (concat bufs)) (256 - length (held r)), r')" "ring_idx r'"
    "rb_write_end r' = rb_write_end r" "rb_read_end r' = rb_read_end r"
    "rb_status r' = NORMAL \<longleftrightarrow> rb_head r' \<noteq> rb_tail r'" "rb_status r' \<noteq> EMPTY"
    "live r' = held r @ take (256 - length (held r)) (concat bufs)" by auto
  then have "ring_inv r'" "ring_contents r' = live r'"
    using inv by (simp_all add: ring_inv_def ring_contents_def)
  then show ?thesis
    using r'(1,7) nf c by (simp add: pipe_write_user_def)
qed

text \<open>A plain read or write is the one with a single buffer.\<close>

lemma pipe_read_single: "pipe_read offset len r = pipe_read_user offset [len] r"
  by (cases "read_loop len [] r")
    (auto simp: pipe_read_def pipe_read_user_def bind_outcome_Ret_iff split: if_splits)

lemma pipe_write_single: "pipe_write offset buf r = pipe_write_user offset [buf] r"
  by (cases "write_loop buf 0 r")
    (auto simp: pipe_write_def pipe_write_user_def split: if_splits)

text \<open>At the boundaries an attempt blocks, or reports the end of the stream once the peers are gone.\<close>

lemma pipe_write_user_full:
  "ring_inv r \<Longrightarrow> rb_status r = FULL \<Longrightarrow>
     pipe_write_user None bufs r = Some (Ret (if rb_read_end r = Some False then Done 0 else Blocked, r))"
  by (auto simp: pipe_write_user_def all_read_ends_closed_def ring_inv_def)

lemma pipe_read_user_empty:
  "ring_inv r \<Longrightarrow> rb_status r = EMPTY \<Longrightarrow>
     pipe_read_user None lens r = Some (Ret (if rb_write_end r = Some False then Done [] else Blocked, r))"
  by (auto simp: pipe_read_user_def all_write_ends_closed_def ring_inv_def)

text \<open>Attempts as FIFO operations: a blocked attempt moves nothing.\<close>

definition pipe_push :: "u8 list \<Rightarrow> pipe_ring_buffer \<Rightarrow> nat \<times> pipe_ring_buffer" where
  "pipe_push buf r = (case pipe_write None buf r of Some (Ret (Done n, r')) \<Rightarrow> (n, r') | _ \<Rightarrow> (0, r))"

definition pipe_pop :: "nat \<Rightarrow> pipe_ring_buffer \<Rightarrow> u8 list \<times> pipe_ring_buffer" where
  "pipe_pop len r = (case pipe_read None len r of Some (Ret (Done bs, r')) \<Rightarrow> (bs, r') | _ \<Rightarrow> ([], r))"

interpretation pipe: bounded_fifo pipe_push pipe_pop ring_inv ring_contents 256
proof (unfold_locales, goal_cases)
  case (1 r)
  then show ?case
    using live_length [of r] by (auto simp: ring_inv_def ring_contents_def)
next
  case (2 r buf n r')
  show ?case
  proof (cases "rb_status r = FULL")
    case True
    then have "n = 0" "r' = r"
      using 2(3) pipe_write_user_full [OF 2(1)]
      by (auto simp: pipe_push_def pipe_write_single split: if_splits)
    then show ?thesis
      using 2(1) True contents_full [of r] by simp
  next
    case False
    from pipe_write_user_data [OF 2(1) False, of "[buf]"] 2(2,3) show ?thesis
      by (auto simp: pipe_push_def pipe_write_single min_def)
  qed
next
  case (3 r len bs r')
  show ?case
  proof (cases "rb_status r = EMPTY")
    case True
    then have "bs = []" "r' = r"
      using 3(3) pipe_read_user_empty [OF 3(1)]
      by (auto simp: pipe_pop_def pipe_read_single split: if_splits)
    then show ?thesis
      using 3(1) True contents_empty [of r] by simp
  next
    case False
    from pipe_read_user_data [OF 3(1) False, of "[len]"] 3(2,3) show ?thesis
      by (auto simp: pipe_pop_def pipe_read_single)
  qed
qed

section \<open>Properties\<close>



text \<open>(C25) A read from a pipe that is not empty and a write to a pipe that is not full, of at least
  one byte, return after finitely many copying steps: the read with the next bytes in order, as many
  as asked for or all there are; the write with as many bytes stored as there was room for.\<close>

theorem pipe_transfer_terminates:
  assumes "ring_inv r" "0 < len" "buf \<noteq> []"
  shows "(rb_status r \<noteq> EMPTY \<longrightarrow> (\<exists>r'. pipe_read None len r = Some (Ret (Done (take len (ring_contents r)), r'))
      \<and> ring_inv r' \<and> ring_contents r' = drop len (ring_contents r)))
    \<and> (rb_status r \<noteq> FULL \<longrightarrow> (\<exists>r'. pipe_write None buf r
        = Some (Ret (Done (min (length buf) (256 - length (ring_contents r))), r'))
      \<and> ring_inv r' \<and> ring_contents r' = ring_contents r @ take (256 - length (ring_contents r)) buf))"
  using pipe_read_user_data [OF assms(1), of "[len]"] pipe_write_user_data [OF assms(1), of "[buf]"] assms(2,3)
  by (simp add: pipe_read_single pipe_write_single)

theorem pipe_transfer_terminates_witness:
  "\<exists>r'. pipe_write None [7, 8] make_pipe = Some (Ret (Done 2, r')) \<and> ring_contents r' = [7, 8]"
proof -
  have "rb_status make_pipe \<noteq> FULL"
    by (simp add: make_pipe_def ring_new_def)
  then show ?thesis
    using pipe_transfer_terminates [OF make_pipe_inv(1), of 1 "[7, 8]"]
    by (auto simp: make_pipe_inv(2) numeral_2_eq_2)
qed

text \<open>(C26) Reading into, or writing from, a user range that is split into several buffers transfers
  exactly the bytes, and reaches a ring with exactly the contents, that one contiguous buffer of the
  same total length would.\<close>

theorem pipe_user_equiv:
  assumes "ring_inv r" "0 < sum_list lens" "concat bufs \<noteq> []"
  shows "(\<exists>x r1 r2. pipe_read_user None lens r = Some (Ret (x, r1))
      \<and> pipe_read None (sum_list lens) r = Some (Ret (x, r2)) \<and> ring_contents r1 = ring_contents r2
      \<and> ring_inv r1 \<and> ring_inv r2)
    \<and> (\<exists>y r1 r2. pipe_write_user None bufs r = Some (Ret (y, r1))
      \<and> pipe_write None (concat bufs) r = Some (Ret (y, r2)) \<and> ring_contents r1 = ring_contents r2
      \<and> ring_inv r1 \<and> ring_inv r2)"
proof
  show "\<exists>x r1 r2. pipe_read_user None lens r = Some (Ret (x, r1))
      \<and> pipe_read None (sum_list lens) r = Some (Ret (x, r2)) \<and> ring_contents r1 = ring_contents r2
      \<and> ring_inv r1 \<and> ring_inv r2"
  proof (cases "rb_status r = EMPTY")
    case True
    then show ?thesis
      using pipe_read_user_empty [OF assms(1)] assms(1) by (simp add: pipe_read_single)
  next
    case False
    then show ?thesis
      using pipe_read_user_data [OF assms(1) False assms(2)]
        pipe_read_user_data [OF assms(1) False, of "[sum_list lens]"] assms(2)
      by (auto simp: pipe_read_single)
  qed
  show "\<exists>y r1 r2. pipe_write_user None bufs r = Some (Ret (y, r1))
      \<and> pipe_write None (concat bufs) r = Some (Ret (y, r2)) \<and> ring_contents r1 = ring_contents r2
      \<and> ring_inv r1 \<and> ring_inv r2"
  proof (cases "rb_status r = FULL")
    case True
    then show ?thesis
      using pipe_write_user_full [OF assms(1)] assms(1) by (simp add: pipe_write_single)
  next
    case False
    then show ?thesis
      using pipe_write_user_data [OF assms(1) False assms(3)]
        pipe_write_user_data [OF assms(1) False, of "[concat bufs]"] assms(3)
      by (auto simp: pipe_write_single)
  qed
qed

theorem pipe_user_equiv_witness:
  "\<exists>y r1 r2. pipe_write_user None [[1], [2, 3]] make_pipe = Some (Ret (y, r1))
     \<and> pipe_write None [1, 2, 3] make_pipe = Some (Ret (y, r2)) \<and> ring_contents r1 = ring_contents r2"
  using pipe_user_equiv [OF make_pipe_inv(1), of "[1]" "[[1], [2, 3]]"] by auto

text \<open>A zero-length read from a full pipe marks the ring \<open>NORMAL\<close> although head and tail
  coincide: the pipe then accepts a write although its 256 bytes are unread, and the write replaces
  the oldest of them. A zero-length write to an empty pipe likewise makes it readable, and a read
  then returns bytes nobody wrote.\<close>

theorem pipe_zero_length_corrupts:
  assumes "ring_inv r"
  shows "(rb_status r = FULL \<longrightarrow> (\<exists>r'. pipe_read_user None [] r = Some (Ret (Done [], r'))
      \<and> pipe_w_ready r' \<and> get_used_size r' = Panic
      \<and> (\<exists>r''. pipe_write None [b] r' = Some (Ret (Done 1, r'')) \<and> b = rb_arr r'' ! rb_head r)))
    \<and> (rb_status r = EMPTY \<longrightarrow> (\<exists>r'. pipe_write_user None [] r = Some (Ret (Done 0, r'))
      \<and> pipe_r_ready r' \<and> (\<exists>c r''. pipe_read None 1 r' = Some (Ret (Done [c], r'')))))"
proof (intro conjI impI)
  have idx: "length (rb_arr r) = 256" "rb_head r < 256" "rb_tail r < 256"
    using assms by (simp_all add: ring_inv_def ring_idx_def)
  let ?r = "r\<lparr>rb_status := NORMAL\<rparr>"
  have wr: "write_loop [b] 0 ?r = Some (1, False, snd (buffer_write [b] ?r)) \<or>
      write_loop [b] 0 ?r = Some (1, True, (snd (buffer_write [b] ?r))\<lparr>rb_status := FULL\<rparr>)"
    if "rb_head r = rb_tail r"
    using that idx by (subst write_loop.simps, subst write_loop.simps)
      (auto simp: buffer_write_def Let_def RING_DEFAULT_BUFFER_SIZE_def min_def)
  assume f: "rb_status r = FULL"
  then have e: "rb_head r = rb_tail r"
    using assms by (auto simp: ring_inv_def)
  have "rb_arr (snd (buffer_write [b] ?r)) ! rb_head r = b"
    using idx e by (simp add: buffer_write_def Let_def nth_append RING_DEFAULT_BUFFER_SIZE_def min_def)
  with wr [OF e] have "\<exists>r''. pipe_write None [b] ?r = Some (Ret (Done 1, r'')) \<and> b = rb_arr r'' ! rb_head r"
    by (auto simp: pipe_write_def)
  then show "\<exists>r'. pipe_read_user None [] r = Some (Ret (Done [], r'))
      \<and> pipe_w_ready r' \<and> get_used_size r' = Panic
      \<and> (\<exists>r''. pipe_write None [b] r' = Some (Ret (Done 1, r'')) \<and> b = rb_arr r'' ! rb_head r)"
    using f e by (auto simp: pipe_read_user_def pipe_w_ready_def get_used_size_def)
next
  let ?r = "r\<lparr>rb_status := NORMAL\<rparr>"
  assume f: "rb_status r = EMPTY"
  have i: "ring_idx ?r"
    using assms by (simp add: ring_inv_def ring_idx_def)
  obtain c where c: "take 1 (live ?r) = [c]"
    using live_length [OF i] by (cases "live ?r") auto
  have "\<exists>r''. pipe_read None 1 ?r = Some (Ret (Done [c], r''))"
    using read_loop_spec [OF i, of "[]" 1] c by (auto simp: pipe_read_def)
  then show "\<exists>r'. pipe_write_user None [] r = Some (Ret (Done 0, r'))
      \<and> pipe_r_ready r' \<and> (\<exists>c r''. pipe_read None 1 r' = Some (Ret (Done [c], r'')))"
    using f by (auto simp: pipe_write_user_def pipe_r_ready_def)
qed

theorem pipe_zero_length_corrupts_witness:
  "\<exists>r' c r''. pipe_write_user None [] make_pipe = Some (Ret (Done 0, r'))
     \<and> pipe_read None 1 r' = Some (Ret (Done [c], r''))"
  using pipe_zero_length_corrupts [OF make_pipe_inv(1)] by (auto simp: make_pipe_def ring_new_def)

end
