(* ===== verification/Timer.thy ===== *)
theory Timer
  imports Prelude
begin

text \<open>
  \<open>timer.rs\<close>: clock readings and the arithmetic and order of \<open>TimeSpec\<close> and \<open>TimeVal\<close>. All values
  are 64-bit words, so the products and sums wrap where the source's do. The reading of the time
  register and the clock frequency are the arguments \<open>tick\<close> and \<open>freq\<close>.
\<close>

section \<open>Clock readings\<close>

definition MSEC_PER_SEC :: usize where "MSEC_PER_SEC = 1000"
definition USEC_PER_SEC :: usize where "USEC_PER_SEC = 1000000"
definition USEC_PER_MSEC :: usize where "USEC_PER_MSEC = 1000"
definition NSEC_PER_SEC :: usize where "NSEC_PER_SEC = 1000000000"
definition NSEC_PER_MSEC :: usize where "NSEC_PER_MSEC = 1000000"
definition NSEC_PER_USEC :: usize where "NSEC_PER_USEC = 1000"

lemmas unit_defs = MSEC_PER_SEC_def USEC_PER_SEC_def USEC_PER_MSEC_def NSEC_PER_SEC_def
  NSEC_PER_MSEC_def NSEC_PER_USEC_def

definition get_time_sec :: "usize \<Rightarrow> usize \<Rightarrow> usize" where
  "get_time_sec freq tick = (if freq = 0 then 0 else tick div freq)"

definition get_time_ms :: "usize \<Rightarrow> usize \<Rightarrow> usize" where
  "get_time_ms freq tick =
     (if freq = 0 then 0
      else let divisor = freq div MSEC_PER_SEC
           in if divisor = 0 then tick * MSEC_PER_SEC div freq else tick div divisor)"

definition get_time_us :: "usize \<Rightarrow> usize \<Rightarrow> usize" where
  "get_time_us freq tick =
     (if freq = 0 then 0
      else let divisor = freq div USEC_PER_SEC
           in if divisor = 0 then tick * USEC_PER_SEC div freq else tick div divisor)"

definition get_time_ns :: "usize \<Rightarrow> usize \<Rightarrow> usize" where
  "get_time_ns freq tick = (if freq = 0 then 0 else tick * NSEC_PER_SEC div freq)"

section \<open>TimeSpec\<close>

datatype time_spec = TimeSpec (ts_sec: usize) (ts_nsec: usize)

definition ts_new :: time_spec where "ts_new = TimeSpec 0 0"

definition ts_from_tick :: "usize \<Rightarrow> usize \<Rightarrow> time_spec" where
  "ts_from_tick freq tick =
     (if freq = 0 then TimeSpec 0 0
      else TimeSpec (tick div freq) ((tick mod freq) * NSEC_PER_SEC div freq))"

definition ts_from_s :: "usize \<Rightarrow> time_spec" where "ts_from_s s = TimeSpec s 0"

definition ts_from_ms :: "usize \<Rightarrow> time_spec" where
  "ts_from_ms ms = TimeSpec (ms div MSEC_PER_SEC) ((ms mod MSEC_PER_SEC) * NSEC_PER_MSEC)"

definition ts_from_us :: "usize \<Rightarrow> time_spec" where
  "ts_from_us us = TimeSpec (us div USEC_PER_SEC) ((us mod USEC_PER_SEC) * NSEC_PER_USEC)"

definition ts_from_ns :: "usize \<Rightarrow> time_spec" where
  "ts_from_ns ns = TimeSpec (ns div NSEC_PER_SEC) (ns mod NSEC_PER_SEC)"

definition ts_to_ns :: "time_spec \<Rightarrow> usize" where
  "ts_to_ns t = ts_sec t * NSEC_PER_SEC + ts_nsec t"

definition ts_is_zero :: "time_spec \<Rightarrow> bool" where
  "ts_is_zero t \<longleftrightarrow> ts_sec t = 0 \<and> ts_nsec t = 0"

definition ts_add_assign :: "time_spec \<Rightarrow> time_spec \<Rightarrow> time_spec" where
  "ts_add_assign t rhs = TimeSpec (ts_sec t + ts_sec rhs) (ts_nsec t + ts_nsec rhs)"

definition ts_add :: "time_spec \<Rightarrow> time_spec \<Rightarrow> time_spec" where
  "ts_add t other =
     (let sec = ts_sec t + ts_sec other;
          nsec = ts_nsec t + ts_nsec other
      in TimeSpec (sec + nsec div NSEC_PER_SEC) (nsec mod NSEC_PER_SEC))"

definition ts_sub :: "time_spec \<Rightarrow> time_spec \<Rightarrow> time_spec" where
  "ts_sub t other =
     (let self_ns = ts_to_ns t; other_ns = ts_to_ns other
      in if self_ns \<le> other_ns then ts_new else ts_from_ns (self_ns - other_ns))"

datatype ordering = Less | Equal | Greater

definition cmp :: "'a::linorder \<Rightarrow> 'a \<Rightarrow> ordering" where
  "cmp a b = (if a < b then Less else if a = b then Equal else Greater)"

definition ts_cmp :: "time_spec \<Rightarrow> time_spec \<Rightarrow> ordering" where
  "ts_cmp t other =
     (case cmp (ts_sec t) (ts_sec other) of
        Less \<Rightarrow> Less
      | Equal \<Rightarrow> cmp (ts_nsec t) (ts_nsec other)
      | Greater \<Rightarrow> Greater)"

section \<open>TimeVal\<close>

datatype time_val = TimeVal (tv_sec: usize) (tv_usec: usize)

definition tv_new :: time_val where "tv_new = TimeVal 0 0"

definition tv_from_tick :: "usize \<Rightarrow> usize \<Rightarrow> time_val" where
  "tv_from_tick freq tick =
     (if freq = 0 then TimeVal 0 0
      else TimeVal (tick div freq) ((tick mod freq) * USEC_PER_SEC div freq))"

definition tv_to_tick :: "usize \<Rightarrow> time_val \<Rightarrow> usize" where
  "tv_to_tick freq t =
     (if freq = 0 then 0 else tv_sec t * freq + tv_usec t * freq div USEC_PER_SEC)"

definition tv_from_s :: "usize \<Rightarrow> time_val" where "tv_from_s s = TimeVal s 0"

definition tv_from_ms :: "usize \<Rightarrow> time_val" where
  "tv_from_ms ms = TimeVal (ms div MSEC_PER_SEC) ((ms mod MSEC_PER_SEC) * USEC_PER_MSEC)"

definition tv_from_us :: "usize \<Rightarrow> time_val" where
  "tv_from_us us = TimeVal (us div USEC_PER_SEC) (us mod USEC_PER_SEC)"

definition tv_to_us :: "time_val \<Rightarrow> usize" where
  "tv_to_us t = tv_sec t * USEC_PER_SEC + tv_usec t"

definition tv_is_zero :: "time_val \<Rightarrow> bool" where
  "tv_is_zero t \<longleftrightarrow> tv_sec t = 0 \<and> tv_usec t = 0"

definition tv_add :: "time_val \<Rightarrow> time_val \<Rightarrow> time_val" where
  "tv_add t other =
     (let sec = tv_sec t + tv_sec other;
          usec = tv_usec t + tv_usec other
      in TimeVal (sec + usec div USEC_PER_SEC) (usec mod USEC_PER_SEC))"

definition tv_sub :: "time_val \<Rightarrow> time_val \<Rightarrow> time_val" where
  "tv_sub t other =
     (let self_us = tv_to_us t; other_us = tv_to_us other
      in if self_us \<le> other_us then tv_new else tv_from_us (self_us - other_us))"

definition tv_cmp :: "time_val \<Rightarrow> time_val \<Rightarrow> ordering" where
  "tv_cmp t other =
     (case cmp (tv_sec t) (tv_sec other) of
        Less \<Rightarrow> Less
      | Equal \<Rightarrow> cmp (tv_usec t) (tv_usec other)
      | Greater \<Rightarrow> Greater)"

section \<open>The order of TimeSpec and TimeVal\<close>

text \<open>\<open>impl Ord\<close>, as instances of the library's class of linear orders.\<close>

instantiation time_spec :: linorder
begin

definition less_eq_time_spec :: "time_spec \<Rightarrow> time_spec \<Rightarrow> bool" where
  "less_eq_time_spec a b \<longleftrightarrow> ts_cmp a b \<noteq> Greater"

definition less_time_spec :: "time_spec \<Rightarrow> time_spec \<Rightarrow> bool" where
  "less_time_spec a b \<longleftrightarrow> ts_cmp a b = Less"

instance
  by intro_classes
    (auto simp: less_eq_time_spec_def less_time_spec_def ts_cmp_def cmp_def time_spec.expand
      split: if_splits ordering.splits)

end

instantiation time_val :: linorder
begin

definition less_eq_time_val :: "time_val \<Rightarrow> time_val \<Rightarrow> bool" where
  "less_eq_time_val a b \<longleftrightarrow> tv_cmp a b \<noteq> Greater"

definition less_time_val :: "time_val \<Rightarrow> time_val \<Rightarrow> bool" where
  "less_time_val a b \<longleftrightarrow> tv_cmp a b = Less"

instance
  by intro_classes
    (auto simp: less_eq_time_val_def less_time_val_def tv_cmp_def cmp_def time_val.expand
      split: if_splits ordering.splits)

end

section \<open>Properties\<close>

text \<open>A normalised time that fits: the fraction is below one second and the total below \<open>2 ^ 64\<close>.\<close>

definition ts_ok :: "time_spec \<Rightarrow> bool" where
  "ts_ok t \<longleftrightarrow> unat (ts_nsec t) < 10 ^ 9 \<and> unat (ts_sec t) * 10 ^ 9 + unat (ts_nsec t) < 2 ^ 64"

lemma unat_NSEC [simp]: "unat NSEC_PER_SEC = 10 ^ 9" "unat USEC_PER_SEC = 10 ^ 6"
  by (simp_all add: unit_defs)

lemma unat_to_ns:
  assumes "ts_ok t"
  shows "unat (ts_to_ns t) = unat (ts_sec t) * 10 ^ 9 + unat (ts_nsec t)"
  using assms by (simp add: ts_to_ns_def ts_ok_def unat_word_ariths)

lemma word_div_mult_mod: "(w :: usize) div k * k + w mod k = w"
  by (rule div_mult_mod_eq)

lemma ts_from_to_ns:
  assumes "ts_ok t"
  shows "ts_from_ns (ts_to_ns t) = t"
proof (rule time_spec.expand, intro conjI)
  have n: "unat (ts_nsec t) < 10 ^ 9" using assms by (simp add: ts_ok_def)
  show "ts_sec (ts_from_ns (ts_to_ns t)) = ts_sec t"
    unfolding ts_from_ns_def time_spec.sel word_unat_eq_iff unat_div unat_to_ns [OF assms] unat_NSEC
    using n by simp
  show "ts_nsec (ts_from_ns (ts_to_ns t)) = ts_nsec t"
    unfolding ts_from_ns_def time_spec.sel word_unat_eq_iff unat_mod unat_to_ns [OF assms] unat_NSEC
    using n by simp
qed

lemma ts_from_ns_ok: "ts_ok (ts_from_ns n)" and ts_to_from_ns: "ts_to_ns (ts_from_ns n) = n"
proof -
  have "unat (n div NSEC_PER_SEC) * 10 ^ 9 + unat (n mod NSEC_PER_SEC) = unat n"
    unfolding unat_div unat_mod unat_NSEC by (rule div_mult_mod_eq)
  moreover have "unat (n mod NSEC_PER_SEC) < 10 ^ 9"
    by (simp add: unat_mod)
  ultimately show "ts_ok (ts_from_ns n)"
    using unsigned_less [of n, where ?'a = nat] by (simp add: ts_ok_def ts_from_ns_def)
  show "ts_to_ns (ts_from_ns n) = n"
    by (simp add: ts_to_ns_def ts_from_ns_def word_div_mult_mod)
qed

lemma div_less_iff:
  assumes "(b :: nat) < k" "d < k"
  shows "a * k + b < c * k + d \<longleftrightarrow> a < c \<or> a = c \<and> b < d"
proof -
  have lt: "x * k + y < z * k + w" if "x < z" "y < k" for x y z w :: nat
    using that mult_le_mono1 [of "Suc x" z k] by simp
  show ?thesis
  proof (cases a c rule: linorder_cases)
    case less
    then show ?thesis using lt [of a c b d] assms by simp
  next
    case equal
    then show ?thesis by simp
  next
    case greater
    then show ?thesis using lt [of c a d b] assms by simp
  qed
qed

lemma ts_less_iff:
  assumes "ts_ok a" "ts_ok b"
  shows "a < b \<longleftrightarrow> ts_to_ns a < ts_to_ns b"
proof -
  have n: "unat (ts_nsec a) < 10 ^ 9" "unat (ts_nsec b) < 10 ^ 9"
    using assms by (auto simp: ts_ok_def)
  have "a < b \<longleftrightarrow> ts_sec a < ts_sec b \<or> ts_sec a = ts_sec b \<and> ts_nsec a < ts_nsec b"
    by (auto simp: less_time_spec_def ts_cmp_def cmp_def split: ordering.splits)
  then show ?thesis
    unfolding word_less_nat_alt unat_to_ns [OF assms(1)] unat_to_ns [OF assms(2)] div_less_iff [OF n]
    by (simp add: word_unat_eq_iff)
qed

lemma carry: "(x + y div k) * k + y mod k = x * k + (y :: usize)"
  using word_div_mult_mod [of y k] by (simp only: distrib_right add.assoc)

lemma ts_to_ns_add: "ts_to_ns (ts_add a b) = ts_to_ns a + ts_to_ns b"
  unfolding ts_to_ns_def ts_add_def Let_def time_spec.sel carry by (simp add: distrib_right)

lemma tv_to_us_add: "tv_to_us (tv_add a b) = tv_to_us a + tv_to_us b"
  unfolding tv_to_us_def tv_add_def Let_def time_val.sel carry by (simp add: distrib_right)

lemma ts_add_ok:
  assumes "ts_ok a" "ts_ok b" "unat (ts_to_ns a) + unat (ts_to_ns b) < 2 ^ 64"
  shows "ts_ok (ts_add a b)"
proof -
  let ?S = "unat (ts_sec a) + unat (ts_sec b)" and ?N = "unat (ts_nsec a) + unat (ts_nsec b)"
  have total: "?S * 10 ^ 9 + ?N < 2 ^ 64" and N: "?N < 2 * 10 ^ 9"
    using assms by (auto simp: unat_to_ns distrib_right ts_ok_def)
  have split: "(?S + ?N div 10 ^ 9) * 10 ^ 9 + ?N mod 10 ^ 9 = ?S * 10 ^ 9 + ?N"
    using div_mult_mod_eq [of ?N "10 ^ 9"] by (simp only: distrib_right add.assoc)
  have n: "unat (ts_nsec a + ts_nsec b) = ?N"
    using N by (simp add: unat_word_ariths)
  have "?S + ?N div 10 ^ 9 \<le> (?S + ?N div 10 ^ 9) * 10 ^ 9"
    by simp
  then have "?S + ?N div 10 ^ 9 < 2 ^ 64" "?S < 2 ^ 64"
    using split total by linarith+
  moreover from this(2) have "unat (ts_sec a + ts_sec b) = ?S"
    by (simp add: unat_word_ariths)
  moreover have "unat ((ts_nsec a + ts_nsec b) div NSEC_PER_SEC) = ?N div 10 ^ 9"
    by (simp only: unat_div n unat_NSEC)
  ultimately have s: "unat (ts_sec (ts_add a b)) = ?S + ?N div 10 ^ 9"
    using unat_word_ariths(1) [of "ts_sec a + ts_sec b" "(ts_nsec a + ts_nsec b) div NSEC_PER_SEC"]
    by (simp add: ts_add_def Let_def)
  have f: "unat (ts_nsec (ts_add a b)) = ?N mod 10 ^ 9"
    by (simp add: ts_add_def Let_def unat_mod n)
  show ?thesis
    unfolding ts_ok_def s f split using total by simp
qed

text \<open>Adding two times adds their nanoseconds (microseconds) modulo \<open>2 ^ 64\<close>, whatever the
  fractions were, and always yields a fraction below one second.\<close>

theorem time_add_homomorphic:
  "ts_to_ns (ts_add a b) = ts_to_ns a + ts_to_ns b \<and> unat (ts_nsec (ts_add a b)) < 10 ^ 9
   \<and> tv_to_us (tv_add c d) = tv_to_us c + tv_to_us d \<and> unat (tv_usec (tv_add c d)) < 10 ^ 6"
  unfolding ts_to_ns_add tv_to_us_add
  by (simp add: ts_add_def tv_add_def Let_def unat_mod)

text \<open>On normalised times the order of \<open>impl Ord\<close> is the order of the elapsed nanoseconds, and
  subtraction is the inverse of addition, cut off at zero: \<open>a - b\<close> is zero exactly when
  \<open>a \<le> b\<close>, and otherwise adding \<open>b\<close> back gives \<open>a\<close>.\<close>

theorem ts_order_sub:
  assumes "ts_ok a" "ts_ok b"
  shows "(a < b \<longleftrightarrow> ts_to_ns a < ts_to_ns b) \<and> (ts_is_zero (ts_sub a b) \<longleftrightarrow> a \<le> b)
    \<and> (b \<le> a \<longrightarrow> ts_add (ts_sub a b) b = a) \<and> ts_from_ns (ts_to_ns a) = a"
proof -
  have le: "a \<le> b \<longleftrightarrow> ts_to_ns a \<le> ts_to_ns b" and ge: "b \<le> a \<longleftrightarrow> ts_to_ns b \<le> ts_to_ns a"
    using ts_less_iff [OF assms] ts_less_iff [OF assms(2,1)] by (auto simp: not_less [symmetric])
  have new: "ts_new = ts_from_ns 0"
    by (simp add: ts_new_def ts_from_ns_def)
  have zero: "ts_is_zero (ts_from_ns n) \<longleftrightarrow> n = 0" for n
  proof -
    have "ts_is_zero t \<longleftrightarrow> t = ts_from_ns 0" for t
      by (cases t) (simp add: ts_is_zero_def ts_from_ns_def)
    then show ?thesis
      using ts_to_from_ns by metis
  qed
  have z: "ts_is_zero (ts_sub a b) \<longleftrightarrow> a \<le> b"
    unfolding le by (auto simp: ts_sub_def Let_def zero new)
  have inverse: "ts_add (ts_sub a b) b = a" if "b \<le> a"
  proof -
    have sb: "ts_sub a b = ts_from_ns (ts_to_ns a - ts_to_ns b)"
      using that unfolding ge by (auto simp: ts_sub_def Let_def new)
    have "unat (ts_to_ns a - ts_to_ns b) + unat (ts_to_ns b) < 2 ^ 64"
      using that unsigned_less [of "ts_to_ns a", where ?'a = nat]
      unfolding ge by (simp add: unat_sub word_le_nat_alt)
    then have "ts_ok (ts_add (ts_sub a b) b)"
      unfolding sb using ts_from_ns_ok assms(2) by (intro ts_add_ok) (simp_all add: ts_to_from_ns)
    moreover have "ts_to_ns (ts_add (ts_sub a b) b) = ts_to_ns a"
      by (simp add: ts_to_ns_add sb ts_to_from_ns)
    ultimately show ?thesis
      using ts_from_to_ns assms(1) by metis
  qed
  show ?thesis
    using ts_less_iff [OF assms] z inverse ts_from_to_ns [OF assms(1)] by blast
qed

theorem ts_order_sub_witness:
  "TimeSpec 1 500000000 < TimeSpec 2 0
   \<and> ts_add (ts_sub (TimeSpec 2 0) (TimeSpec 1 500000000)) (TimeSpec 1 500000000) = TimeSpec 2 0"
  using ts_order_sub [of "TimeSpec 1 500000000" "TimeSpec 2 0"]
    ts_order_sub [of "TimeSpec 2 0" "TimeSpec 1 500000000"]
  by (auto simp: ts_ok_def ts_to_ns_def unit_defs)


text \<open>\<open>+=\<close> on \<open>TimeSpec\<close>, unlike \<open>+\<close>, does not carry: two normalised operands can give a fraction
  above one second, and the result then compares as earlier than a time that is earlier than it.\<close>

theorem ts_add_assign_not_normalised:
  "ts_add_assign (TimeSpec 0 999999999) (TimeSpec 0 999999999) = TimeSpec 0 1999999998
   \<and> ts_add (TimeSpec 0 999999999) (TimeSpec 0 999999999) = TimeSpec 1 999999998
   \<and> ts_add_assign (TimeSpec 0 999999999) (TimeSpec 0 999999999) < TimeSpec 1 0
   \<and> ts_to_ns (TimeSpec 1 0)
       < ts_to_ns (ts_add_assign (TimeSpec 0 999999999) (TimeSpec 0 999999999))"
  by (simp add: ts_add_assign_def ts_add_def Let_def ts_to_ns_def unit_defs less_time_spec_def
      ts_cmp_def cmp_def)

end
