(* ===== verification/Process_State.thy ===== *)
theory Process_State
  imports Prelude
begin

text \<open>
  The process state machine of \<open>task/state_machine.rs\<close>: states, exit reasons, the atomic state cell
  and the validated transition.  \<open>try_transition\<close> is a load followed by a compare-exchange; besides the
  sequential function the two atomic accesses are steps of a relation, so that calls of any number of CPUs
  interleave.
\<close>

section \<open>States\<close>

datatype process_state = Created | Ready | Running | Blocked | Zombie | Exited | Stopped

definition state_as_u8 :: "process_state \<Rightarrow> u8" where
  "state_as_u8 s = (case s of Created \<Rightarrow> 0 | Ready \<Rightarrow> 1 | Running \<Rightarrow> 2 | Blocked \<Rightarrow> 3 | Zombie \<Rightarrow> 4
     | Exited \<Rightarrow> 5 | Stopped \<Rightarrow> 6)"

definition state_from_raw :: "u8 \<Rightarrow> process_state option" where
  "state_from_raw v =
     (if v = 0 then Some Created else if v = 1 then Some Ready else if v = 2 then Some Running
      else if v = 3 then Some Blocked else if v = 4 then Some Zombie else if v = 5 then Some Exited
      else if v = 6 then Some Stopped else None)"

definition is_runnable :: "process_state \<Rightarrow> bool" where
  "is_runnable s = (case s of Ready \<Rightarrow> True | Running \<Rightarrow> True | _ \<Rightarrow> False)"

definition is_terminated :: "process_state \<Rightarrow> bool" where
  "is_terminated s = (case s of Zombie \<Rightarrow> True | Exited \<Rightarrow> True | _ \<Rightarrow> False)"

definition can_schedule :: "process_state \<Rightarrow> bool" where
  "can_schedule s = (case s of Ready \<Rightarrow> True | _ \<Rightarrow> False)"

definition state_as_str :: "process_state \<Rightarrow> string" where
  "state_as_str s = (case s of Created \<Rightarrow> ''created'' | Ready \<Rightarrow> ''ready'' | Running \<Rightarrow> ''running''
     | Blocked \<Rightarrow> ''blocked'' | Zombie \<Rightarrow> ''zombie'' | Exited \<Rightarrow> ''exited'' | Stopped \<Rightarrow> ''stopped'')"

datatype block_reason = Io | Futex | WaitChild | Signal | Sleep | Synchronization | Network | Pipe | Other

definition reason_as_str :: "block_reason \<Rightarrow> string" where
  "reason_as_str r = (case r of Io \<Rightarrow> ''I/O'' | Futex \<Rightarrow> ''futex'' | WaitChild \<Rightarrow> ''wait_child''
     | Signal \<Rightarrow> ''signal'' | Sleep \<Rightarrow> ''sleep'' | Synchronization \<Rightarrow> ''sync'' | Network \<Rightarrow> ''network''
     | Pipe \<Rightarrow> ''pipe'' | Other \<Rightarrow> ''other'')"

datatype exit_reason = NormalExit i32 | SignalExit i32 | Abnormal

definition wait_status :: "exit_reason \<Rightarrow> i32" where
  "wait_status r = (case r of NormalExit code \<Rightarrow> push_bit 8 (code AND 0xff)
     | SignalExit sig \<Rightarrow> sig AND 0x7f | Abnormal \<Rightarrow> 0x80)"

definition is_normal :: "exit_reason \<Rightarrow> bool" where
  "is_normal r = (case r of NormalExit _ \<Rightarrow> True | _ \<Rightarrow> False)"

section \<open>The atomic cell and the validated transition\<close>

text \<open>\<open>AtomicProcessState\<close> is one byte; an undefined byte reads as \<open>Exited\<close>.\<close>

definition aps_new :: "process_state \<Rightarrow> u8" where "aps_new initial = state_as_u8 initial"

definition aps_load :: "u8 \<Rightarrow> process_state" where
  "aps_load c = (case state_from_raw c of Some s \<Rightarrow> s | None \<Rightarrow> Exited)"

definition aps_store :: "process_state \<Rightarrow> u8 \<Rightarrow> u8" where "aps_store new_state c = state_as_u8 new_state"

definition aps_compare_exchange ::
  "process_state \<Rightarrow> process_state \<Rightarrow> u8 \<Rightarrow> (process_state + process_state) \<times> u8" where
  "aps_compare_exchange expected new c =
     (if c = state_as_u8 expected then (Inr (aps_load c), state_as_u8 new) else (Inl (aps_load c), c))"

definition aps_default :: u8 where "aps_default = aps_new Created"

fun is_valid_transition :: "process_state \<Rightarrow> process_state \<Rightarrow> bool" where
  "is_valid_transition Created Ready = True"
| "is_valid_transition Ready Running = True"
| "is_valid_transition Ready Zombie = True"
| "is_valid_transition Running Ready = True"
| "is_valid_transition Running Blocked = True"
| "is_valid_transition Running Zombie = True"
| "is_valid_transition Running Stopped = True"
| "is_valid_transition Blocked Ready = True"
| "is_valid_transition Blocked Zombie = True"
| "is_valid_transition Zombie Exited = True"
| "is_valid_transition Stopped Ready = True"
| "is_valid_transition Stopped Zombie = True"
| "is_valid_transition _ _ = False"

datatype transition_error = TransitionError (te_from: process_state) (te_to: process_state)

definition try_transition ::
  "process_state \<Rightarrow> u8 \<Rightarrow> (transition_error + process_state) \<times> u8" where
  "try_transition new_state c =
     (let old = aps_load c in
      if \<not> is_valid_transition old new_state then (Inl (TransitionError old new_state), c)
      else case aps_compare_exchange old new_state c of
             (Inr prev, c') \<Rightarrow> (Inr prev, c')
           | (Inl actual, c') \<Rightarrow> (Inl (TransitionError actual new_state), c'))"

definition transition_error_fmt :: "transition_error \<Rightarrow> string" where
  "transition_error_fmt e = ''invalid process state transition: '' @ state_as_str (te_from e) @ '' -> ''
     @ state_as_str (te_to e)"

definition is_task_ready :: "process_state \<Rightarrow> bool" where "is_task_ready s = can_schedule s"
definition is_schedulable :: "process_state \<Rightarrow> bool" where "is_schedulable s = is_runnable s"
definition is_task_terminated :: "process_state \<Rightarrow> bool" where "is_task_terminated s = is_terminated s"

definition is_task_blocked :: "process_state \<Rightarrow> bool" where
  "is_task_blocked s = (case s of Blocked \<Rightarrow> True | Stopped \<Rightarrow> True | _ \<Rightarrow> False)"

section \<open>Interleaved transitions\<close>

text \<open>One cell shared by any number of callers: \<open>tw_pending\<close> holds the state a caller has loaded and the
  one it wants, between the two atomic accesses of \<open>try_transition\<close>; \<open>tw_log\<close> records the transitions whose
  compare-exchange succeeded, latest last.\<close>

record transition_world =
  tw_cell :: u8
  tw_pending :: "nat \<Rightarrow> (process_state \<times> process_state) option"
  tw_log :: "(process_state \<times> process_state) list"

inductive tw_step :: "transition_world \<Rightarrow> transition_world \<Rightarrow> bool" where
  Load: "\<lbrakk>tw_pending w t = None; is_valid_transition (aps_load (tw_cell w)) new\<rbrakk> \<Longrightarrow>
    tw_step w (w\<lparr>tw_pending := (tw_pending w)(t \<mapsto> (aps_load (tw_cell w), new))\<rparr>)"
| CasOk: "\<lbrakk>tw_pending w t = Some (old, new); aps_compare_exchange old new (tw_cell w) = (Inr prev, c)\<rbrakk> \<Longrightarrow>
    tw_step w (w\<lparr>tw_cell := c, tw_pending := (tw_pending w)(t := None), tw_log := tw_log w @ [(prev, new)]\<rparr>)"
| CasErr: "\<lbrakk>tw_pending w t = Some (old, new); aps_compare_exchange old new (tw_cell w) = (Inl actual, c)\<rbrakk> \<Longrightarrow>
    tw_step w (w\<lparr>tw_cell := c, tw_pending := (tw_pending w)(t := None)\<rparr>)"

inductive_cases tw_stepE: "tw_step w w'"

definition tw_init :: transition_world where
  "tw_init = \<lparr>tw_cell = aps_default, tw_pending = (\<lambda>_. None), tw_log = []\<rparr>"

text \<open>A log is a path of the state diagram from one state to another.\<close>

fun diagram_path :: "process_state \<Rightarrow> (process_state \<times> process_state) list \<Rightarrow> process_state \<Rightarrow> bool" where
  "diagram_path s [] s' \<longleftrightarrow> s = s'"
| "diagram_path s ((a, b) # es) s' \<longleftrightarrow> a = s \<and> is_valid_transition a b \<and> diagram_path b es s'"

section \<open>Lemmas\<close>

lemma state_from_raw_as_u8 [simp]: "state_from_raw (state_as_u8 s) = Some s"
  by (cases s) (simp_all add: state_from_raw_def state_as_u8_def)

lemma aps_load_as_u8 [simp]: "aps_load (state_as_u8 s) = s"
  by (simp add: aps_load_def)

lemma state_as_u8_inj [simp]: "state_as_u8 a = state_as_u8 b \<longleftrightarrow> a = b"
  by (metis aps_load_as_u8)

lemma diagram_path_append:
  "diagram_path s (xs @ ys) s' \<longleftrightarrow> (\<exists>m. diagram_path s xs m \<and> diagram_path m ys s')"
  by (induction s xs s' rule: diagram_path.induct) auto

lemma terminated_successors:
  "is_valid_transition a b \<Longrightarrow> a = Zombie \<and> b = Exited \<or> \<not> is_terminated a"
  by (induction a b rule: is_valid_transition.induct) (simp_all add: is_terminated_def)

lemma exited_path: "diagram_path Exited es s \<Longrightarrow> es = [] \<and> s = Exited"
  by (cases es) auto

lemma zombie_path: "diagram_path Zombie es s \<Longrightarrow> es = [] \<or> es = [(Zombie, Exited)]"
  by (cases es) (auto simp: is_terminated_def dest!: terminated_successors exited_path)

lemma path_terminates_once:
  "diagram_path s es s' \<Longrightarrow> length (filter (\<lambda>e. snd e = Zombie) es) \<le> 1
   \<and> length (filter (\<lambda>e. snd e = Exited) es) \<le> 1"
proof (induction s es s' rule: diagram_path.induct)
  case (2 s a b es s')
  show ?case
  proof (cases "is_terminated b")
    case True
    then have "b = Zombie \<or> b = Exited" by (cases b) (simp_all add: is_terminated_def)
    then show ?thesis using 2 by (auto dest!: zombie_path exited_path)
  next
    case False
    then have "b \<noteq> Zombie" "b \<noteq> Exited" by (auto simp: is_terminated_def)
    then show ?thesis using 2 by auto
  qed
qed simp

text \<open>The invariant of the interleaving: the cell holds the end of the logged path, and every pending pair
  is a transition of the diagram.\<close>

definition tw_inv :: "transition_world \<Rightarrow> bool" where
  "tw_inv w \<longleftrightarrow> (\<exists>s. tw_cell w = state_as_u8 s \<and> diagram_path Created (tw_log w) s)
     \<and> (\<forall>t old new. tw_pending w t = Some (old, new) \<longrightarrow> is_valid_transition old new)"

lemma tw_inv_step:
  assumes "tw_step w w'" "tw_inv w" shows "tw_inv w'"
  using assms
  by (cases rule: tw_stepE)
     (auto simp: tw_inv_def aps_compare_exchange_def diagram_path_append split: if_splits)

lemma tw_inv_reachable: "tw_step\<^sup>*\<^sup>* tw_init w \<Longrightarrow> tw_inv w"
  by (induction rule: rtranclp_induct)
     (simp_all add: tw_inv_step, simp add: tw_inv_def tw_init_def aps_default_def aps_new_def)

lemma try_transition_steps:
  assumes "tw_pending w t = None" "tw_cell w = state_as_u8 s" "is_valid_transition s new"
  shows "tw_step\<^sup>*\<^sup>* w (w\<lparr>tw_cell := state_as_u8 new, tw_log := tw_log w @ [(s, new)]\<rparr>)"
proof -
  let ?m = "w\<lparr>tw_pending := (tw_pending w)(t \<mapsto> (s, new))\<rparr>"
  have "tw_step w ?m" using Load [of w t new] assms by simp
  moreover have "tw_step ?m (?m\<lparr>tw_cell := state_as_u8 new, tw_pending := (tw_pending ?m)(t := None),
      tw_log := tw_log ?m @ [(s, new)]\<rparr>)"
    by (rule CasOk) (simp_all add: aps_compare_exchange_def assms)
  ultimately show ?thesis using assms(1) by (simp add: fun_upd_idem)
qed

section \<open>Properties\<close>


lemma race_demo:
  "tw_step\<^sup>*\<^sup>* tw_init (tw_init\<lparr>tw_cell := 2, tw_log := [(Created, Ready), (Ready, Running)]\<rparr>)"
proof -
  let ?w = "tw_init\<lparr>tw_cell := state_as_u8 Ready, tw_log := [(Created, Ready)]\<rparr>"
  have "tw_step\<^sup>*\<^sup>* tw_init ?w"
    using try_transition_steps [of tw_init 0 Created Ready]
    by (simp add: tw_init_def aps_default_def aps_new_def)
  also have "tw_step\<^sup>*\<^sup>* ?w (?w\<lparr>tw_cell := state_as_u8 Running, tw_log := tw_log ?w @ [(Ready, Running)]\<rparr>)"
    by (rule try_transition_steps [of _ 1]) (simp_all add: tw_init_def)
  finally show ?thesis by (simp add: state_as_u8_def)
qed


text \<open>\<open>try_transition\<close> run without interference succeeds exactly for the transitions of the diagram, then
  reports the previous state and leaves the new one in the cell; otherwise it reports both states and leaves
  the cell alone.  An undefined byte in the cell reads as \<open>Exited\<close> and admits no transition.\<close>

theorem try_transition_spec:
  "try_transition new c =
     (if is_valid_transition (aps_load c) new then (Inr (aps_load c), state_as_u8 new)
      else (Inl (TransitionError (aps_load c) new), c))"
proof (cases "state_from_raw c")
  case None
  then have "aps_load c = Exited" by (simp add: aps_load_def)
  then show ?thesis by (simp add: try_transition_def Let_def)
next
  case (Some s)
  then have "c = state_as_u8 s" by (auto simp: state_from_raw_def state_as_u8_def split: if_splits)
  then show ?thesis by (simp add: try_transition_def Let_def aps_compare_exchange_def)
qed

end
