(* ===== verification/Address.thy ===== *)
theory Address
  imports Prelude
begin

text \<open>
  The memory layout constants of \<open>hal/arch/riscv/config.rs\<close> and the address types of
  \<open>mm/address.rs\<close>. An address is a 64-bit word, so that the arithmetic on it wraps as it does in a
  release build; a page number is a \<open>nat\<close>, the value of the source's \<open>usize\<close>.
\<close>

section \<open>Layout constants\<close>

definition PAGE_SIZE :: nat where "PAGE_SIZE = 0x1000"
definition TASK_SIZE :: nat where "TASK_SIZE = 0xc0000000"
definition USER_STACK_BASE :: nat where "USER_STACK_BASE = TASK_SIZE - PAGE_SIZE"
definition USER_STACK_SIZE :: nat where "USER_STACK_SIZE = PAGE_SIZE * 0x40"
definition KERNEL_STACK_SIZE :: nat where "KERNEL_STACK_SIZE = PAGE_SIZE * 0x10"
definition TRAMPOLINE :: nat where "TRAMPOLINE = (2 ^ 64 - 1) - PAGE_SIZE + 1"
definition SIGNAL_TRAMPOLINE :: nat where "SIGNAL_TRAMPOLINE = TRAMPOLINE - PAGE_SIZE"
definition TRAP_CONTEXT_BASE :: nat where "TRAP_CONTEXT_BASE = SIGNAL_TRAMPOLINE - PAGE_SIZE"

lemmas layout_defs = PAGE_SIZE_def TASK_SIZE_def USER_STACK_BASE_def USER_STACK_SIZE_def
  KERNEL_STACK_SIZE_def TRAMPOLINE_def SIGNAL_TRAMPOLINE_def TRAP_CONTEXT_BASE_def

section \<open>Addresses and page numbers\<close>

text \<open>\<open>VirtAddr\<close> and \<open>PhysAddr\<close> have the same four methods over the wrapped \<open>usize\<close>.\<close>

type_synonym phys_addr = usize
type_synonym virt_addr = usize
type_synonym phys_page_num = nat
type_synonym virt_page_num = nat

definition addr_floor :: "usize \<Rightarrow> nat" where
  "addr_floor a = unat (a div of_nat PAGE_SIZE)"

definition addr_ceil :: "usize \<Rightarrow> nat" where
  "addr_ceil a = unat ((a - 1 + of_nat PAGE_SIZE) div of_nat PAGE_SIZE)"

definition page_offset :: "usize \<Rightarrow> usize" where
  "page_offset a = a AND (of_nat PAGE_SIZE - 1)"

definition aligned :: "usize \<Rightarrow> bool" where
  "aligned a \<longleftrightarrow> page_offset a = 0"

text \<open>\<open>From<VirtAddr> for VirtPageNum\<close> asserts alignment; the reverse shifts left by
  \<open>PAGE_SIZE_BITS = 12\<close>, losing the bits above 64.\<close>

definition page_of_addr :: "usize \<Rightarrow> nat outcome" where
  "page_of_addr a = (if page_offset a = 0 then Ret (addr_floor a) else Panic)"

definition addr_of_page :: "nat \<Rightarrow> usize" where
  "addr_of_page n = push_bit 12 (of_nat n)"

definition page_start_addr :: "nat \<Rightarrow> usize" where
  "page_start_addr n = push_bit 12 (of_nat n)"

definition page_offset_addr :: "nat \<Rightarrow> usize \<Rightarrow> usize" where
  "page_offset_addr n off = push_bit 12 (of_nat n) + off"

text \<open>\<open>VirtPageNum::indexes\<close>: nine bits per level, the last level in the last slot.\<close>

fun indexes :: "nat \<Rightarrow> virt_page_num \<Rightarrow> nat list" where
  "indexes 0 vpn = []"
| "indexes (Suc t) vpn = indexes t (drop_bit 9 vpn) @ [vpn AND 511]"

text \<open>\<open>SimpleRange\<close> and its iterator, which yields \<open>current\<close> and steps until it equals \<open>end\<close>.\<close>

record simple_range =
  range_l :: nat
  range_r :: nat

definition simple_range_new :: "nat \<Rightarrow> nat \<Rightarrow> simple_range outcome" where
  "simple_range_new start end = (if start \<le> end then Ret \<lparr>range_l = start, range_r = end\<rparr> else Panic)"

definition range_iter_next :: "nat \<times> nat \<Rightarrow> (nat \<times> (nat \<times> nat)) option" where
  "range_iter_next it =
     (case it of (current, end) \<Rightarrow>
        if current = end then None else Some (current, (current + 1, end)))"

section \<open>Lemmas\<close>

lemma unat_base_minus:
  assumes "A < 2 ^ 64" "unat k * B \<le> A"
  shows "unat (of_nat A - k * of_nat B :: usize) = A - unat k * B"
proof -
  have "(of_nat A - k * of_nat B :: usize) = of_nat (A - unat k * B)"
    using assms(2) by simp
  moreover have "A - unat k * B < 2 ^ 64"
    using assms(1) by linarith
  ultimately show ?thesis
    by (simp add: unsigned_of_nat take_bit_nat_eq_self)
qed


lemma addr_floor_nat: "addr_floor a = unat a div PAGE_SIZE"
  by (simp add: addr_floor_def layout_defs unat_div)

lemma page_offset_nat: "unat (page_offset a) = unat a mod PAGE_SIZE"
proof -
  have "page_offset a = a AND mask 12"
    by (simp add: page_offset_def layout_defs mask_eq_exp_minus_1)
  then have "unat (page_offset a) = take_bit 12 (unat a)"
    by (simp add: take_bit_eq_mask [symmetric] unsigned_take_bit_eq)
  then show ?thesis
    by (simp add: take_bit_eq_mod layout_defs)
qed

lemma addr_ceil_nat:
  assumes "unat a \<le> 2 ^ 64 - PAGE_SIZE"
  shows "addr_ceil a = (unat a + (PAGE_SIZE - 1)) div PAGE_SIZE"
proof -
  have "a - 1 + of_nat PAGE_SIZE = of_nat (unat a + (PAGE_SIZE - 1))"
    by (simp add: layout_defs)
  moreover have "unat a + (PAGE_SIZE - 1) < 2 ^ 64"
    using assms by (simp add: layout_defs)
  ultimately have "unat (a - 1 + of_nat PAGE_SIZE) = unat a + (PAGE_SIZE - 1)"
    by (simp only: unsigned_of_nat) (simp add: take_bit_nat_eq_self)
  then show ?thesis
    by (simp add: addr_ceil_def unat_div layout_defs)
qed

lemma unat_addr_of_page:
  assumes "n < 2 ^ 52"
  shows "unat (addr_of_page n) = n * PAGE_SIZE"
proof -
  have "n * 4096 < 2 ^ 64"
    using assms by simp
  moreover have "addr_of_page n = of_nat (n * 4096)"
    by (simp add: addr_of_page_def push_bit_eq_mult)
  ultimately show ?thesis
    by (simp only: unsigned_of_nat) (simp add: take_bit_nat_eq_self layout_defs)
qed

text \<open>A page number survives the conversion to an address and back.\<close>

lemma page_of_addr_of_page:
  assumes "n < 2 ^ 52"
  shows "page_of_addr (addr_of_page n) = Ret n"
proof -
  have "unat (page_offset (addr_of_page n)) = 0"
    by (simp add: page_offset_nat unat_addr_of_page [OF assms])
  moreover have "addr_floor (addr_of_page n) = n"
    by (simp add: addr_floor_nat unat_addr_of_page [OF assms] layout_defs)
  ultimately show ?thesis
    by (simp add: page_of_addr_def unsigned_eq_0_iff)
qed

text \<open>An address is its page's start plus its page offset.\<close>

lemma addr_split: "page_offset_addr (addr_floor a) (page_offset a) = a"
proof -
  have lt: "addr_floor a < 2 ^ 52"
    using unsigned_less [of a, where ?'a = nat] by (simp add: addr_floor_nat layout_defs)
  have "unat (addr_of_page (addr_floor a)) + unat (page_offset a) = unat a"
    using unat_addr_of_page [OF lt] by (simp add: page_offset_nat addr_floor_nat)
  then show ?thesis
    by (metis addr_of_page_def of_nat_add page_offset_addr_def of_nat_unat ucast_id)
qed

lemma length_indexes [simp]: "length (indexes t vpn) = t"
  by (induction t arbitrary: vpn) auto

lemma and_511: "(n :: nat) AND 511 = n mod 512"
proof -
  have "(n AND mask 9) = n mod 2 ^ 9"
    by (simp only: take_bit_eq_mask [symmetric] take_bit_eq_mod)
  then show ?thesis
    by (simp add: mask_eq_exp_minus_1)
qed

lemma indexes_bound: "i \<in> set (indexes t vpn) \<Longrightarrow> i < 512"
  by (induction t arbitrary: vpn) (auto simp: and_511)

lemma indexes_mod: "indexes t (v mod 512 ^ t) = indexes t v"
proof (induction t arbitrary: v)
  case (Suc t)
  have e: "v mod 512 ^ Suc t = 512 * (v div 512 mod 512 ^ t) + v mod 512"
    by (simp add: mod_mult2_eq)
  have "(v mod 512 ^ Suc t) div 512 = v div 512 mod 512 ^ t" "(v mod 512 ^ Suc t) mod 512 = v mod 512"
    unfolding e by simp_all
  then show ?case
    using Suc.IH [of "v div 512"] by (simp add: and_511 drop_bit_eq_div del: power_Suc)
qed simp

lemma indexes_inj:
  assumes "indexes t v = indexes t w" "v < 512 ^ t" "w < 512 ^ t"
  shows "v = w"
  using assms
proof (induction t arbitrary: v w)
  case 0
  then show ?case by simp
next
  case (Suc t)
  have "v div 512 = w div 512"
  proof (rule Suc.IH)
    show "indexes t (v div 512) = indexes t (w div 512)"
      using Suc.prems(1) by (simp add: drop_bit_eq_div)
    show "v div 512 < 512 ^ t" "w div 512 < 512 ^ t"
      using Suc.prems(2,3) by (simp_all add: less_mult_imp_div_less mult.commute)
  qed
  moreover have "v mod 512 = w mod 512"
    using Suc.prems(1) by (simp add: and_511)
  ultimately show ?case
    by (metis div_mult_mod_eq)
qed

text \<open>Iterating a range of \<open>n\<close> pages yields them in order and then stops.\<close>

fun iter_collect :: "nat \<Rightarrow> nat \<times> nat \<Rightarrow> nat list" where
  "iter_collect 0 it = []"
| "iter_collect (Suc fuel) it =
     (case range_iter_next it of None \<Rightarrow> [] | Some (v, it') \<Rightarrow> v # iter_collect fuel it')"

lemma iter_collect_range:
  assumes "l \<le> r" "r - l \<le> fuel"
  shows "iter_collect fuel (l, r) = [l..<r]"
  using assms
proof (induction fuel arbitrary: l)
  case 0
  then show ?case by simp
next
  case (Suc fuel)
  then show ?case
    by (cases "l = r") (auto simp: range_iter_next_def upt_conv_Cons)
qed

end
