(* ===== verification/Frame_Alloc.thy ===== *)
theory Frame_Alloc
  imports Id_Alloc Address
begin

text \<open>
  \<open>mm/frame_allocator.rs\<close>: the stack-based allocator of physical frames and the operations the rest
  of the kernel uses (\<open>frame_alloc\<close>, \<open>frames_alloc\<close>, \<open>frame_dealloc\<close>, \<open>frame_reserve\<close>), over a
  machine state of the allocator and physical memory, a frame being 512 double words. The build is
  the default one: \<open>oom_handler\<close> on, \<open>zero_init\<close> off. Whether \<open>MODE\<close> is \<open>debug\<close> at compile time
  is the argument \<open>dbg\<close> of \<open>dealloc\<close>.
\<close>

section \<open>State and operations\<close>

record stack_frame_allocator =
  sfa_current :: nat
  sfa_end :: nat
  sfa_recycled :: "nat list"

record machine =
  falloc :: stack_frame_allocator
  dwords :: "phys_page_num \<Rightarrow> nat \<Rightarrow> u64"

text \<open>\<open>FrameTracker::new\<close> zeroes the 512 double words of the frame; \<open>new_uninit\<close> does not.\<close>

definition frame_tracker_new :: "phys_page_num \<Rightarrow> machine \<Rightarrow> machine" where
  "frame_tracker_new ppn m =
     m\<lparr>dwords := (dwords m)(ppn := (\<lambda>i. if i < 512 then 0 else dwords m ppn i))\<rparr>"

definition sfa_new :: stack_frame_allocator where
  "sfa_new = \<lparr>sfa_current = 0, sfa_end = 0, sfa_recycled = []\<rparr>"

text \<open>With \<open>r < l\<close> the difference wraps to a huge number and \<open>reserve\<close> panics.\<close>

definition sfa_init :: "nat \<Rightarrow> nat \<Rightarrow> stack_frame_allocator \<Rightarrow> stack_frame_allocator outcome" where
  "sfa_init l r s = (if r < l then Panic else Ret (s\<lparr>sfa_current := l, sfa_end := r\<rparr>))"

definition sfa_unallocated_frames :: "stack_frame_allocator \<Rightarrow> nat" where
  "sfa_unallocated_frames s = sfa_end s - sfa_current s + length (sfa_recycled s)"

text \<open>The page number \<open>alloc\<close> and \<open>alloc_uninit\<close> choose, recycled frames first.\<close>

definition sfa_take :: "stack_frame_allocator \<Rightarrow> (nat \<times> stack_frame_allocator) option" where
  "sfa_take s =
     (if sfa_recycled s \<noteq> []
      then Some (last (sfa_recycled s), s\<lparr>sfa_recycled := butlast (sfa_recycled s)\<rparr>)
      else if sfa_current s = sfa_end s then None
      else Some (sfa_current s, s\<lparr>sfa_current := sfa_current s + 1\<rparr>))"

definition sfa_alloc :: "machine \<Rightarrow> phys_page_num option \<times> machine" where
  "sfa_alloc m =
     (case sfa_take (falloc m) of
        None \<Rightarrow> (None, m)
      | Some (ppn, s) \<Rightarrow> (Some ppn, frame_tracker_new ppn (m\<lparr>falloc := s\<rparr>)))"

definition sfa_alloc_uninit :: "machine \<Rightarrow> phys_page_num option \<times> machine" where
  "sfa_alloc_uninit m =
     (case sfa_take (falloc m) of
        None \<Rightarrow> (None, m)
      | Some (ppn, s) \<Rightarrow> (Some ppn, m\<lparr>falloc := s\<rparr>))"

definition sfa_dealloc :: "bool \<Rightarrow> nat \<Rightarrow> stack_frame_allocator \<Rightarrow> stack_frame_allocator outcome" where
  "sfa_dealloc dbg ppn s =
     (if (dbg \<and> ppn \<ge> sfa_current s) \<or> ppn \<in> set (sfa_recycled s) then Panic
      else Ret (s\<lparr>sfa_recycled := sfa_recycled s @ [ppn]\<rparr>))"

definition frame_dealloc :: "bool \<Rightarrow> nat \<Rightarrow> machine \<Rightarrow> machine outcome" where
  "frame_dealloc dbg ppn m =
     bind_outcome (sfa_dealloc dbg ppn (falloc m)) (\<lambda>s. Ret (m\<lparr>falloc := s\<rparr>))"

definition unallocated_frames :: "machine \<Rightarrow> nat" where
  "unallocated_frames m = sfa_unallocated_frames (falloc m)"

text \<open>
  \<open>oom_handler\<close> asks three reclaimers in turn: the directory tree's page caches, the current task's
  address space (skipped when its lock is taken, \<open>None\<close>), and every task's. Each returns how many
  pages it released and the new machine; the last one says whether the rest was found.
\<close>

definition oom_handler ::
  "(machine \<Rightarrow> nat \<times> machine) \<Rightarrow> (machine \<Rightarrow> (nat \<times> machine) option)
     \<Rightarrow> (nat \<Rightarrow> machine \<Rightarrow> bool \<times> machine) \<Rightarrow> nat \<Rightarrow> machine \<Rightarrow> bool \<times> machine" where
  "oom_handler dir_oom shallow_clean do_oom req m =
     (case dir_oom m of (released, m1) \<Rightarrow>
        if released \<ge> req then (True, m1)
        else
          (case (case shallow_clean m1 of
                   Some (r, m2) \<Rightarrow> (released + r, m2)
                 | None \<Rightarrow> (released, m1)) of (released', m3) \<Rightarrow>
             if released' \<ge> req then (True, m3) else do_oom (req - released') m3))"

definition frame_reserve ::
  "(nat \<Rightarrow> machine \<Rightarrow> bool \<times> machine) \<Rightarrow> nat \<Rightarrow> machine \<Rightarrow> machine outcome" where
  "frame_reserve oom num m =
     (let remain = sfa_unallocated_frames (falloc m)
      in if remain < num
         then (case oom (num - remain) m of (ok, m') \<Rightarrow> if ok then Ret m' else Panic)
         else Ret m)"

definition frame_alloc ::
  "(nat \<Rightarrow> machine \<Rightarrow> bool \<times> machine) \<Rightarrow> machine \<Rightarrow> (phys_page_num option \<times> machine) outcome" where
  "frame_alloc oom m =
     (case sfa_alloc m of
        (Some ppn, m') \<Rightarrow> Ret (Some ppn, m')
      | (None, m') \<Rightarrow>
          (case oom 1 m' of (ok, m'') \<Rightarrow> if ok then Ret (sfa_alloc m'') else Panic))"

definition frame_alloc_uninit ::
  "(nat \<Rightarrow> machine \<Rightarrow> bool \<times> machine) \<Rightarrow> machine \<Rightarrow> (phys_page_num option \<times> machine) outcome" where
  "frame_alloc_uninit oom m =
     (case sfa_alloc_uninit m of
        (Some ppn, m') \<Rightarrow> Ret (Some ppn, m')
      | (None, m') \<Rightarrow>
          (case oom 1 m' of (ok, m'') \<Rightarrow> if ok then Ret (sfa_alloc_uninit m'') else Panic))"

text \<open>
  \<open>frames_alloc\<close> collects \<open>num\<close> frames; when one request fails it returns \<open>None\<close> and the frames
  collected so far are dropped, which gives each back in the order of the vector.
\<close>

fun drop_frames :: "bool \<Rightarrow> nat list \<Rightarrow> machine \<Rightarrow> machine outcome" where
  "drop_frames dbg [] m = Ret m"
| "drop_frames dbg (f # fs) m = bind_outcome (frame_dealloc dbg f m) (drop_frames dbg fs)"

fun frames_alloc_loop ::
  "bool \<Rightarrow> (nat \<Rightarrow> machine \<Rightarrow> bool \<times> machine) \<Rightarrow> nat \<Rightarrow> nat list \<Rightarrow> machine
     \<Rightarrow> (nat list option \<times> machine) outcome" where
  "frames_alloc_loop dbg oom 0 frames m = Ret (Some frames, m)"
| "frames_alloc_loop dbg oom (Suc n) frames m =
     bind_outcome (frame_alloc oom m) (\<lambda>(r, m').
       case r of
         Some ppn \<Rightarrow> frames_alloc_loop dbg oom n (frames @ [ppn]) m'
       | None \<Rightarrow> bind_outcome (drop_frames dbg frames m') (\<lambda>m''. Ret (None, m'')))"

definition frames_alloc ::
  "bool \<Rightarrow> (nat \<Rightarrow> machine \<Rightarrow> bool \<times> machine) \<Rightarrow> nat \<Rightarrow> machine
     \<Rightarrow> (nat list option \<times> machine) outcome" where
  "frames_alloc dbg oom num m = frames_alloc_loop dbg oom num [] m"

text \<open>Boot: from the end of the kernel image to \<open>MEMORY_END\<close>.\<close>

definition MEMORY_END :: nat where "MEMORY_END = 0x80000000 + 0x30000000"

definition init_frame_allocator :: "phys_addr \<Rightarrow> machine \<Rightarrow> machine outcome" where
  "init_frame_allocator ekernel m =
     bind_outcome (sfa_init (addr_ceil ekernel) (addr_floor (of_nat MEMORY_END)) (falloc m))
       (\<lambda>s. Ret (m\<lparr>falloc := s\<rparr>))"

section \<open>Invariant and contract\<close>

text \<open>\<open>l\<close> is the first frame given to \<open>init\<close>, which the allocator does not keep.\<close>

definition sfa_invar :: "nat \<Rightarrow> stack_frame_allocator \<Rightarrow> bool" where
  "sfa_invar l s \<longleftrightarrow> l \<le> sfa_current s \<and> sfa_current s \<le> sfa_end s \<and> distinct (sfa_recycled s)
     \<and> set (sfa_recycled s) \<subseteq> {l..<sfa_current s}"

definition sfa_used :: "nat \<Rightarrow> stack_frame_allocator \<Rightarrow> nat set" where
  "sfa_used l s = {l..<sfa_current s} - set (sfa_recycled s)"

definition sfa_avail :: "stack_frame_allocator \<Rightarrow> nat set" where
  "sfa_avail s = set (sfa_recycled s) \<union> {sfa_current s..<sfa_end s}"

lemmas sfa_defs [alloc_defs] = sfa_take_def sfa_dealloc_def sfa_invar_def sfa_used_def
  sfa_avail_def

interpretation frames: id_allocator sfa_take "sfa_dealloc dbg" "sfa_invar l" "sfa_used l" sfa_avail
  for dbg l
proof (unfold_locales, goal_cases)
  case (1 s i s')
  show ?case
  proof (cases "sfa_recycled s" rule: rev_cases)
    case Nil
    with 1 show ?thesis by (auto simp: sfa_defs split: if_splits)
  next
    case (snoc ys y)
    with 1(2) have "i = y" "s' = s\<lparr>sfa_recycled := ys\<rparr>"
      by (auto simp: sfa_take_def)
    with 1(1) snoc show ?thesis by (auto simp: sfa_defs)
  qed
next
  case (2 s)
  then show ?case by (auto simp: sfa_defs split: if_splits)
next
  case (3 s)
  then show ?case by (auto simp: sfa_defs)
next
  case (4 s i)
  then show ?case by (auto simp: sfa_defs)
qed

lemma sfa_init_invar:
  assumes "sfa_init l r sfa_new = Ret s"
  shows "sfa_invar l s" "sfa_used l s = {}" "sfa_avail s = {l..<r}" "sfa_end s = r"
  using assms by (auto simp: sfa_init_def sfa_new_def sfa_defs split: if_splits)

lemma sfa_used_bound: "sfa_invar l s \<Longrightarrow> p \<in> sfa_used l s \<Longrightarrow> l \<le> p \<and> p < sfa_end s"
  by (auto simp: sfa_defs)

lemma finite_sfa_avail [simp]: "finite (sfa_avail s)"
  by (simp add: sfa_avail_def)

lemma sfa_unallocated_card:
  assumes "sfa_invar l s"
  shows "sfa_unallocated_frames s = card (sfa_avail s)"
proof -
  have "set (sfa_recycled s) \<inter> {sfa_current s..<sfa_end s} = {}"
    using assms by (auto simp: sfa_invar_def)
  then show ?thesis
    using assms
    by (simp add: sfa_avail_def sfa_unallocated_frames_def card_Un_disjoint distinct_card
        sfa_invar_def)
qed

section \<open>frame\_alloc\<close>

lemma sfa_alloc_Some:
  assumes "sfa_alloc m = (Some ppn, m')"
  shows "sfa_take (falloc m) = Some (ppn, falloc m')"
    and "\<forall>i<512. dwords m' ppn i = 0"
    and "p \<noteq> ppn \<Longrightarrow> dwords m' p = dwords m p"
  using assms by (auto simp: sfa_alloc_def frame_tracker_new_def split: option.splits prod.splits)

lemma sfa_alloc_None:
  "sfa_alloc m = (None, m') \<Longrightarrow> m' = m \<and> sfa_take (falloc m) = None"
  by (auto simp: sfa_alloc_def split: option.splits prod.splits)

text \<open>Whatever the reclaimers do, as long as they keep the allocator's invariant, a granted frame
  was free, is zeroed, and no other frame's memory changed in the last step.\<close>

definition oom_sound :: "nat \<Rightarrow> (nat \<Rightarrow> machine \<Rightarrow> bool \<times> machine) \<Rightarrow> bool" where
  "oom_sound l oom \<longleftrightarrow> (\<forall>n m. sfa_invar l (falloc m) \<longrightarrow>
     sfa_invar l (falloc (snd (oom n m))) \<and> sfa_used l (falloc (snd (oom n m))) \<subseteq> sfa_used l (falloc m))"

lemma frame_alloc_direct:
  assumes "sfa_invar l (falloc m)" "sfa_avail (falloc m) \<noteq> {}"
  shows "\<exists>ppn m'. frame_alloc oom m = Ret (Some ppn, m') \<and> ppn \<in> sfa_avail (falloc m)
    \<and> sfa_invar l (falloc m') \<and> sfa_used l (falloc m') = insert ppn (sfa_used l (falloc m))
    \<and> sfa_avail (falloc m') = sfa_avail (falloc m) - {ppn} \<and> sfa_end (falloc m') = sfa_end (falloc m)
    \<and> (\<forall>i<512. dwords m' ppn i = 0) \<and> (\<forall>p. p \<noteq> ppn \<longrightarrow> dwords m' p = dwords m p)"
proof -
  obtain ppn s where t: "sfa_take (falloc m) = Some (ppn, s)"
    using frames.alloc_succeeds [OF assms] by blast
  define m' where "m' = frame_tracker_new ppn (m\<lparr>falloc := s\<rparr>)"
  have a: "sfa_alloc m = (Some ppn, m')"
    by (simp add: sfa_alloc_def t m'_def)
  have s: "falloc m' = s"
    by (simp add: m'_def frame_tracker_new_def)
  from a have "frame_alloc oom m = Ret (Some ppn, m')"
    by (simp add: frame_alloc_def)
  moreover have "sfa_end s = sfa_end (falloc m)"
    using t by (auto simp: sfa_take_def split: if_splits)
  ultimately show ?thesis
    using frames.alloc_Some [OF assms(1) t] sfa_alloc_Some [OF a] s by blast
qed

lemma frame_alloc_granted:
  assumes "sfa_invar l (falloc m)" "oom_sound l oom" "frame_alloc oom m = Ret (Some ppn, m')"
  shows "sfa_invar l (falloc m') \<and> ppn \<in> sfa_used l (falloc m') \<and> ppn \<in> {l..<sfa_end (falloc m')}
    \<and> (\<forall>i<512. dwords m' ppn i = 0)"
proof -
  obtain m0 where m0: "sfa_invar l (falloc m0)" "sfa_alloc m0 = (Some ppn, m')"
  proof (cases "sfa_alloc m")
    case (Pair r m1)
    show ?thesis
    proof (cases r)
      case None
      then have "m1 = m" using Pair sfa_alloc_None by simp
      then have "sfa_alloc (snd (oom 1 m)) = (Some ppn, m')"
        using assms(3) Pair None by (auto simp: frame_alloc_def split: prod.splits if_splits)
      moreover have "sfa_invar l (falloc (snd (oom 1 m)))"
        using assms(1,2) by (simp add: oom_sound_def)
      ultimately show ?thesis by (rule that[rotated])
    next
      case (Some p)
      then show ?thesis
        using that [of m] assms(1,3) Pair by (simp add: frame_alloc_def)
    qed
  qed
  note t = sfa_alloc_Some(1) [OF m0(2)]
  from frames.alloc_Some [OF m0(1) t] sfa_alloc_Some(2) [OF m0(2)] show ?thesis
    using sfa_used_bound [of l "falloc m'" ppn] by auto
qed

section \<open>frames\_alloc\<close>

lemma frames_alloc_loop_spec:
  assumes "sfa_invar l (falloc m)" "n \<le> sfa_unallocated_frames (falloc m)"
  shows "\<exists>fs m'. frames_alloc_loop dbg oom n frames m = Ret (Some (frames @ fs), m')
    \<and> length fs = n \<and> distinct fs \<and> set fs \<subseteq> sfa_avail (falloc m) \<and> sfa_invar l (falloc m')
    \<and> sfa_used l (falloc m') = sfa_used l (falloc m) \<union> set fs
    \<and> (\<forall>f\<in>set fs. \<forall>i<512. dwords m' f i = 0) \<and> (\<forall>p. p \<notin> set fs \<longrightarrow> dwords m' p = dwords m p)"
  using assms
proof (induction n arbitrary: frames m)
  case 0
  then show ?case by simp
next
  case (Suc n)
  note card = sfa_unallocated_card [OF Suc.prems(1)]
  then have "sfa_avail (falloc m) \<noteq> {}"
    using Suc.prems(2) by auto
  from frame_alloc_direct [OF Suc.prems(1) this, of oom] obtain ppn m1 where
    a: "frame_alloc oom m = Ret (Some ppn, m1)" and p: "ppn \<in> sfa_avail (falloc m)"
    and inv: "sfa_invar l (falloc m1)"
    and us: "sfa_used l (falloc m1) = insert ppn (sfa_used l (falloc m))"
    and av: "sfa_avail (falloc m1) = sfa_avail (falloc m) - {ppn}"
    and z: "\<forall>i<512. dwords m1 ppn i = 0" and fr: "\<forall>p. p \<noteq> ppn \<longrightarrow> dwords m1 p = dwords m p"
    by blast
  have "n \<le> sfa_unallocated_frames (falloc m1)"
    using Suc.prems(2) card p av by (simp add: sfa_unallocated_card [OF inv])
  from Suc.IH [OF inv this, of "frames @ [ppn]"] obtain fs m' where
    l: "frames_alloc_loop dbg oom n (frames @ [ppn]) m1 = Ret (Some (frames @ ppn # fs), m')"
    and r: "length fs = n" "distinct fs" "set fs \<subseteq> sfa_avail (falloc m1)" "sfa_invar l (falloc m')"
    "sfa_used l (falloc m') = sfa_used l (falloc m1) \<union> set fs"
    "\<forall>f\<in>set fs. \<forall>i<512. dwords m' f i = 0" "\<forall>p. p \<notin> set fs \<longrightarrow> dwords m' p = dwords m1 p"
    by auto
  have "ppn \<notin> set fs"
    using r(3) av by auto
  then have "frames_alloc_loop dbg oom (Suc n) frames m = Ret (Some (frames @ ppn # fs), m')
      \<and> length (ppn # fs) = Suc n \<and> distinct (ppn # fs) \<and> set (ppn # fs) \<subseteq> sfa_avail (falloc m)
      \<and> sfa_invar l (falloc m') \<and> sfa_used l (falloc m') = sfa_used l (falloc m) \<union> set (ppn # fs)
      \<and> (\<forall>f\<in>set (ppn # fs). \<forall>i<512. dwords m' f i = 0)
      \<and> (\<forall>p. p \<notin> set (ppn # fs) \<longrightarrow> dwords m' p = dwords m p)"
    using a l r us av p z fr by auto
  then show ?case by blast
qed

section \<open>Properties\<close>

lemma id_history_sfa_end:
  "id_history sfa_take (sfa_dealloc dbg) es held s = Ret (held', s') \<Longrightarrow> sfa_end s' = sfa_end s"
proof (induction sfa_take "sfa_dealloc dbg" es held s rule: id_history.induct)
  case (2 es held s)
  then show ?case
    by (auto simp: sfa_take_def split: if_splits)
next
  case (3 k es held s)
  then show ?case
    by (auto simp: bind_outcome_Ret_iff sfa_dealloc_def split: if_splits)
qed simp



text \<open>(C20) When a frame is free, \<open>frame_alloc\<close> returns one without entering the out-of-memory path:
  a frame that no tracker held, with all its 512 double words zero; the memory of every other frame
  is unchanged and the count of free frames drops by one.\<close>

theorem frame_alloc_fresh_zeroed:
  assumes "sfa_invar l (falloc m)" "unallocated_frames m > 0"
  shows "\<exists>ppn m'. frame_alloc oom m = Ret (Some ppn, m') \<and> ppn \<notin> sfa_used l (falloc m)
    \<and> sfa_invar l (falloc m') \<and> sfa_used l (falloc m') = insert ppn (sfa_used l (falloc m))
    \<and> unallocated_frames m' = unallocated_frames m - 1
    \<and> (\<forall>i<512. dwords m' ppn i = 0) \<and> (\<forall>p. p \<noteq> ppn \<longrightarrow> dwords m' p = dwords m p)"
proof -
  have "sfa_avail (falloc m) \<noteq> {}"
    using assms sfa_unallocated_card [OF assms(1)] by (auto simp: unallocated_frames_def)
  from frame_alloc_direct [OF assms(1) this, of oom] show ?thesis
    using frames.used_avail [OF assms(1)] assms(1) sfa_unallocated_card
    by (fastforce simp: unallocated_frames_def)
qed

theorem frame_alloc_fresh_zeroed_witness:
  "\<exists>ppn m'. frame_alloc (\<lambda>_ m. (False, m)) \<lparr>falloc = \<lparr>sfa_current = 2, sfa_end = 4, sfa_recycled = []\<rparr>,
       dwords = \<lambda>_ _. 7\<rparr> = Ret (Some ppn, m') \<and> dwords m' ppn 3 = 0"
  using frame_alloc_fresh_zeroed [of 2 "\<lparr>falloc = \<lparr>sfa_current = 2, sfa_end = 4, sfa_recycled = []\<rparr>,
       dwords = \<lambda>_ _. 7\<rparr>" "\<lambda>_ m. (False, m)"]
  by (force simp: sfa_defs unallocated_frames_def sfa_unallocated_frames_def)

text \<open>\<open>frames_alloc\<close> with at least \<open>num\<close> frames free returns exactly \<open>num\<close> distinct, formerly
  free, zeroed frames and changes no other memory.\<close>

theorem frames_alloc_complete:
  assumes "sfa_invar l (falloc m)" "num \<le> unallocated_frames m"
  shows "\<exists>fs m'. frames_alloc dbg oom num m = Ret (Some fs, m') \<and> length fs = num \<and> distinct fs
    \<and> set fs \<inter> sfa_used l (falloc m) = {} \<and> sfa_invar l (falloc m')
    \<and> sfa_used l (falloc m') = sfa_used l (falloc m) \<union> set fs
    \<and> (\<forall>f\<in>set fs. \<forall>i<512. dwords m' f i = 0) \<and> (\<forall>p. p \<notin> set fs \<longrightarrow> dwords m' p = dwords m p)"
  using frames_alloc_loop_spec [OF assms(1), of num dbg oom "[]"] assms(2)
    frames.used_avail [OF assms(1)]
  by (auto simp: frames_alloc_def unallocated_frames_def)

theorem frames_alloc_complete_witness:
  "\<exists>fs m'. frames_alloc True (\<lambda>_ m. (False, m)) 2 \<lparr>falloc = \<lparr>sfa_current = 2, sfa_end = 4, sfa_recycled = []\<rparr>,
       dwords = \<lambda>_ _. 7\<rparr> = Ret (Some fs, m') \<and> length fs = 2 \<and> distinct fs"
  using frames_alloc_complete [of 2 "\<lparr>falloc = \<lparr>sfa_current = 2, sfa_end = 4, sfa_recycled = []\<rparr>,
       dwords = \<lambda>_ _. 7\<rparr>" 2 True "\<lambda>_ m. (False, m)"]
  by (force simp: sfa_defs unallocated_frames_def sfa_unallocated_frames_def)

end
