(* ===== verification/Sv39.thy ===== *)
theory Sv39
  imports Frame_Alloc "HOL-Library.Sublist"
begin

text \<open>
  \<open>hal/arch/riscv/sv39.rs\<close>: page-table entries at the bit level and the three-level page table in
  physical memory. A reference to an entry is its position (frame, index) in the memory of
  \<open>machine\<close>; the two TLB invalidations have no counterpart in the model.
\<close>

section \<open>Page-table entries\<close>

type_synonym pte_flags_t = u8
type_synonym map_permission = u8
type_synonym pte = u64

definition PTE_V :: pte_flags_t where "PTE_V = push_bit 0 1"
definition PTE_R :: pte_flags_t where "PTE_R = push_bit 1 1"
definition PTE_W :: pte_flags_t where "PTE_W = push_bit 2 1"
definition PTE_X :: pte_flags_t where "PTE_X = push_bit 3 1"
definition PTE_U :: pte_flags_t where "PTE_U = push_bit 4 1"
definition PTE_A :: pte_flags_t where "PTE_A = push_bit 6 1"
definition PTE_D :: pte_flags_t where "PTE_D = push_bit 7 1"

definition PPN_MASK :: u64 where "PPN_MASK = push_bit 10 (push_bit 44 1 - 1)"

definition pte_new :: "phys_page_num \<Rightarrow> pte_flags_t \<Rightarrow> pte" where
  "pte_new ppn flags = push_bit 10 (of_nat ppn) OR ucast flags"

definition pte_empty :: pte where "pte_empty = 0"

definition pte_ppn :: "pte \<Rightarrow> phys_page_num" where
  "pte_ppn bits = unat (drop_bit 10 (bits AND PPN_MASK))"

text \<open>Every 8-bit value is a combination of declared flags, so \<open>from_bits(..).unwrap()\<close> never fails.\<close>

definition pte_flags :: "pte \<Rightarrow> pte_flags_t" where
  "pte_flags bits = ucast bits"

definition pte_is_valid :: "pte \<Rightarrow> bool" where "pte_is_valid e \<longleftrightarrow> pte_flags e AND PTE_V \<noteq> 0"
definition pte_is_dirty :: "pte \<Rightarrow> bool" where "pte_is_dirty e \<longleftrightarrow> pte_flags e AND PTE_D \<noteq> 0"
definition pte_readable :: "pte \<Rightarrow> bool" where "pte_readable e \<longleftrightarrow> pte_flags e AND PTE_R \<noteq> 0"
definition pte_writable :: "pte \<Rightarrow> bool" where "pte_writable e \<longleftrightarrow> pte_flags e AND PTE_W \<noteq> 0"
definition pte_executable :: "pte \<Rightarrow> bool" where "pte_executable e \<longleftrightarrow> pte_flags e AND PTE_X \<noteq> 0"

definition pte_clear_access :: "pte \<Rightarrow> pte" where "pte_clear_access e = e AND NOT (ucast PTE_A)"
definition pte_clear_dirty :: "pte \<Rightarrow> pte" where "pte_clear_dirty e = e AND NOT (ucast PTE_D)"
definition pte_revoke_read :: "pte \<Rightarrow> pte" where "pte_revoke_read e = e AND NOT (ucast PTE_R)"
definition pte_revoke_write :: "pte \<Rightarrow> pte" where "pte_revoke_write e = e AND NOT (ucast PTE_W)"
definition pte_revoke_execute :: "pte \<Rightarrow> pte" where "pte_revoke_execute e = e AND NOT (ucast PTE_X)"

definition pte_set_permission :: "map_permission \<Rightarrow> pte \<Rightarrow> pte" where
  "pte_set_permission flags e = (e AND 0xffffffffffffffe1) OR ucast flags"

definition pte_set_ppn :: "phys_page_num \<Rightarrow> pte \<Rightarrow> pte" where
  "pte_set_ppn ppn e = (e AND NOT PPN_MASK) OR (push_bit 10 (of_nat ppn) AND PPN_MASK)"

lemmas flag_defs = PTE_V_def PTE_R_def PTE_W_def PTE_X_def PTE_U_def PTE_A_def PTE_D_def

text \<open>Entries bit by bit.\<close>

lemma flags_and_bit: "b < 8 \<Longrightarrow> pte_flags e AND push_bit b 1 \<noteq> 0 \<longleftrightarrow> bit e b"
  unfolding pte_flags_def using and_push_bit_eq_0 [where 'a = 8, of b "ucast e"] by (simp add: bit_simps)

lemma pte_bits:
  "pte_is_valid e \<longleftrightarrow> bit e 0" "pte_readable e \<longleftrightarrow> bit e 1" "pte_writable e \<longleftrightarrow> bit e 2"
  "pte_executable e \<longleftrightarrow> bit e 3" "pte_is_dirty e \<longleftrightarrow> bit e 7"
  unfolding pte_is_valid_def pte_readable_def pte_writable_def pte_executable_def pte_is_dirty_def
    flag_defs
  by (simp_all only: flags_and_bit)

lemma bit_PPN_MASK: "bit PPN_MASK i \<longleftrightarrow> 10 \<le> i \<and> i < 54"
proof -
  have "PPN_MASK = push_bit 10 (mask 44)"
    by (simp add: PPN_MASK_def mask_eq_exp_minus_1)
  then show ?thesis
    unfolding \<open>PPN_MASK = _\<close> by (auto simp: bit_simps)
qed

lemma ppn_eq_iff: "pte_ppn e = pte_ppn e' \<longleftrightarrow> (\<forall>i. 10 \<le> i \<and> i < 54 \<longrightarrow> (bit e i \<longleftrightarrow> bit e' i))"
proof -
  have b: "bit (drop_bit 10 (w AND PPN_MASK)) n \<longleftrightarrow> n < 44 \<and> bit w (10 + n)" for w n
    by (auto simp: bit_simps bit_PPN_MASK)
  have "pte_ppn e = pte_ppn e' \<longleftrightarrow> drop_bit 10 (e AND PPN_MASK) = drop_bit 10 (e' AND PPN_MASK)"
    unfolding pte_ppn_def word_unat_eq_iff ..
  also have "\<dots> \<longleftrightarrow> (\<forall>n. n < 44 \<longrightarrow> (bit e (10 + n) \<longleftrightarrow> bit e' (10 + n)))"
  proof -
    have "n < 64 \<and> n < 44 \<longleftrightarrow> n < 44" for n :: nat by auto
    then have "(\<forall>n<64. (n < 44 \<and> P n) = (n < 44 \<and> Q n)) \<longleftrightarrow> (\<forall>n<44. P n = Q n)" for P Q :: "nat \<Rightarrow> bool"
      by metis
    then show ?thesis unfolding bit_eq_iff b by simp
  qed
  also have "\<dots> \<longleftrightarrow> (\<forall>i. 10 \<le> i \<and> i < 54 \<longrightarrow> (bit e i \<longleftrightarrow> bit e' i))"
  proof safe
    fix i :: nat
    assume *: "\<forall>n<44. bit e (10 + n) = bit e' (10 + n)" and i: "10 \<le> i" "i < 54"
    then have "i - 10 < 44" "10 + (i - 10) = i" by simp_all
    then show "bit e i \<Longrightarrow> bit e' i" "bit e' i \<Longrightarrow> bit e i"
      using * by metis+
  qed auto
  finally show ?thesis .
qed

lemma bit_pte_new:
  "bit (pte_new ppn flags) i \<longleftrightarrow> i < 64 \<and> (10 \<le> i \<and> bit ppn (i - 10) \<or> bit flags i)"
  using bit_imp_le_length [of flags i] by (auto simp: pte_new_def bit_simps)

lemma bit_nat_bound:
  assumes "(x :: nat) < 2 ^ k" "bit x n"
  shows "n < k"
proof (rule ccontr)
  assume "\<not> n < k"
  then have "x < 2 ^ n"
    using assms(1) by (meson less_le_trans one_le_numeral power_increasing not_less)
  then show False
    using assms(2) by (simp add: bit_iff_odd)
qed

lemma pte_ppn_new:
  assumes "ppn < 2 ^ 44"
  shows "pte_ppn (pte_new ppn flags) = ppn"
proof -
  note hi = bit_nat_bound [OF assms]
  have "drop_bit 10 (pte_new ppn flags AND PPN_MASK) = (of_nat ppn :: u64)"
  proof (rule bit_word_eqI)
    fix n assume "n < LENGTH(64)"
    then show "bit (drop_bit 10 (pte_new ppn flags AND PPN_MASK)) n \<longleftrightarrow> bit (of_nat ppn :: u64) n"
      using hi [of n] bit_imp_le_length [of flags "10 + n"]
      by (auto simp: bit_simps bit_pte_new bit_PPN_MASK)
  qed
  moreover have "unat (of_nat ppn :: u64) = ppn"
    using assms by (simp add: unsigned_of_nat take_bit_nat_eq_self)
  ultimately show ?thesis by (simp add: pte_ppn_def)
qed

text \<open>Changing permissions or the frame touches only its own bits.\<close>

lemma bit_revoke:
  "bit (pte_clear_access e) i \<longleftrightarrow> bit e i \<and> i \<noteq> 6" "bit (pte_clear_dirty e) i \<longleftrightarrow> bit e i \<and> i \<noteq> 7"
  "bit (pte_revoke_read e) i \<longleftrightarrow> bit e i \<and> i \<noteq> 1" "bit (pte_revoke_write e) i \<longleftrightarrow> bit e i \<and> i \<noteq> 2"
  "bit (pte_revoke_execute e) i \<longleftrightarrow> bit e i \<and> i \<noteq> 3"
proof -
  have clr: "bit (e AND NOT (ucast (push_bit b 1 :: u8))) i \<longleftrightarrow> bit e i \<and> i \<noteq> b"
    if "b < 8" for b and e :: u64
  proof -
    have "ucast (push_bit b 1 :: u8) = (push_bit b 1 :: u64)"
      using that by (intro bit_word_eqI) (auto simp: bit_simps)
    then show ?thesis
      using that by (simp only:) (rule bit_and_not_push_bit, simp)
  qed
  show "bit (pte_clear_access e) i \<longleftrightarrow> bit e i \<and> i \<noteq> 6" "bit (pte_clear_dirty e) i \<longleftrightarrow> bit e i \<and> i \<noteq> 7"
    "bit (pte_revoke_read e) i \<longleftrightarrow> bit e i \<and> i \<noteq> 1" "bit (pte_revoke_write e) i \<longleftrightarrow> bit e i \<and> i \<noteq> 2"
    "bit (pte_revoke_execute e) i \<longleftrightarrow> bit e i \<and> i \<noteq> 3"
    unfolding pte_clear_access_def pte_clear_dirty_def pte_revoke_read_def pte_revoke_write_def
      pte_revoke_execute_def flag_defs
    by (rule clr, simp)+
qed

lemma bit_set_permission:
  "bit (pte_set_permission flags e) i \<longleftrightarrow> bit e i \<and> i \<notin> {1..4} \<or> bit flags i"
proof -
  have m: "(0xffffffffffffffe1 :: u64) = NOT (mask 5) OR 1"
    by (simp add: mask_eq_exp_minus_1)
  show ?thesis
    using bit_imp_le_length [of e i] bit_imp_le_length [of flags i]
    unfolding pte_set_permission_def m by (auto simp: bit_simps not_less)
qed

lemma bit_set_ppn:
  "bit (pte_set_ppn ppn e) i \<longleftrightarrow> (if 10 \<le> i \<and> i < 54 then bit ppn (i - 10) else bit e i)"
  using bit_imp_le_length [of e i] by (auto simp: pte_set_ppn_def bit_simps bit_PPN_MASK)

section \<open>The page table\<close>

record sv39_page_table =
  root_ppn :: phys_page_num
  pt_frames :: "phys_page_num list"

definition mem_write :: "phys_page_num \<Rightarrow> nat \<Rightarrow> u64 \<Rightarrow> machine \<Rightarrow> machine" where
  "mem_write p i v m = m\<lparr>dwords := (dwords m)(p := (dwords m p)(i := v))\<rparr>"

text \<open>The loop of \<open>find_pte\<close> and \<open>find_pte_refmut\<close> over the indexes; the last one is returned.\<close>

fun find_pte_loop :: "machine \<Rightarrow> phys_page_num \<Rightarrow> nat list \<Rightarrow> (phys_page_num \<times> nat) option" where
  "find_pte_loop m ppn [] = None"
| "find_pte_loop m ppn (i # idxs) =
     (if \<not> pte_is_valid (dwords m ppn i) then None
      else if idxs = [] then Some (ppn, i)
      else find_pte_loop m (pte_ppn (dwords m ppn i)) idxs)"

definition find_pte :: "sv39_page_table \<Rightarrow> machine \<Rightarrow> virt_page_num \<Rightarrow> (phys_page_num \<times> nat) option" where
  "find_pte pt m vpn = find_pte_loop m (root_ppn pt) (indexes 3 vpn)"

text \<open>The loop of \<open>find_pte_create\<close>.\<close>

fun find_pte_create_loop ::
  "(nat \<Rightarrow> machine \<Rightarrow> bool \<times> machine) \<Rightarrow> phys_page_num \<Rightarrow> nat list \<Rightarrow> phys_page_num list \<Rightarrow> machine
     \<Rightarrow> ((phys_page_num \<times> nat) option \<times> phys_page_num list \<times> machine) outcome" where
  "find_pte_create_loop oom ppn [] frames m = Ret (None, frames, m)"
| "find_pte_create_loop oom ppn (i # idxs) frames m =
     (if idxs = [] then Ret (Some (ppn, i), frames, m)
      else if \<not> pte_is_valid (dwords m ppn i)
      then bind_outcome (frame_alloc oom m) (\<lambda>(r, m1).
             case r of
               None \<Rightarrow> Panic
             | Some frame \<Rightarrow>
                 let m2 = mem_write ppn i (pte_new frame PTE_V) m1
                 in find_pte_create_loop oom (pte_ppn (dwords m2 ppn i)) idxs (frames @ [frame]) m2)
      else find_pte_create_loop oom (pte_ppn (dwords m ppn i)) idxs frames m)"

definition find_pte_create ::
  "(nat \<Rightarrow> machine \<Rightarrow> bool \<times> machine) \<Rightarrow> sv39_page_table \<Rightarrow> machine \<Rightarrow> virt_page_num
     \<Rightarrow> ((phys_page_num \<times> nat) option \<times> sv39_page_table \<times> machine) outcome" where
  "find_pte_create oom pt m vpn =
     bind_outcome (find_pte_create_loop oom (root_ppn pt) (indexes 3 vpn) (pt_frames pt) m)
       (\<lambda>(r, frames, m'). Ret (r, pt\<lparr>pt_frames := frames\<rparr>, m'))"

definition pt_new ::
  "(nat \<Rightarrow> machine \<Rightarrow> bool \<times> machine) \<Rightarrow> machine \<Rightarrow> (sv39_page_table \<times> machine) outcome" where
  "pt_new oom m =
     bind_outcome (frame_alloc oom m) (\<lambda>(r, m').
       case r of
         None \<Rightarrow> Panic
       | Some frame \<Rightarrow> Ret (\<lparr>root_ppn = frame, pt_frames = [frame]\<rparr>, m'))"

definition pt_from_token :: "usize \<Rightarrow> sv39_page_table" where
  "pt_from_token satp = \<lparr>root_ppn = unat (satp AND (push_bit 44 1 - 1)), pt_frames = []\<rparr>"

definition pt_token :: "sv39_page_table \<Rightarrow> usize" where
  "pt_token pt = push_bit 60 8 OR of_nat (root_ppn pt)"

definition pt_is_mapped :: "sv39_page_table \<Rightarrow> machine \<Rightarrow> virt_page_num \<Rightarrow> bool" where
  "pt_is_mapped pt m vpn =
     (case find_pte pt m vpn of
        Some (p, i) \<Rightarrow> if pte_is_valid (dwords m p i) then True else False
      | None \<Rightarrow> False)"

definition pt_map ::
  "(nat \<Rightarrow> machine \<Rightarrow> bool \<times> machine) \<Rightarrow> virt_page_num \<Rightarrow> phys_page_num \<Rightarrow> map_permission
     \<Rightarrow> sv39_page_table \<times> machine \<Rightarrow> (sv39_page_table \<times> machine) outcome" where
  "pt_map oom vpn ppn flags = (\<lambda>(pt, m).
     bind_outcome (find_pte_create oom pt m vpn) (\<lambda>(r, pt', m').
       case r of
         None \<Rightarrow> Panic
       | Some (p, i) \<Rightarrow>
           if pte_is_valid (dwords m' p i) then Panic
           else Ret (pt', mem_write p i (pte_new ppn (flags OR PTE_V OR PTE_A OR PTE_D)) m')))"

definition pt_unmap ::
  "virt_page_num \<Rightarrow> sv39_page_table \<times> machine \<Rightarrow> (sv39_page_table \<times> machine) outcome" where
  "pt_unmap vpn = (\<lambda>(pt, m).
     case find_pte pt m vpn of
       None \<Rightarrow> Panic
     | Some (p, i) \<Rightarrow>
         if \<not> pte_is_valid (dwords m p i) then Panic else Ret (pt, mem_write p i pte_empty m))"

definition pt_translate :: "sv39_page_table \<times> machine \<Rightarrow> virt_page_num \<Rightarrow> phys_page_num option" where
  "pt_translate = (\<lambda>(pt, m) vpn. map_option (\<lambda>(p, i). pte_ppn (dwords m p i)) (find_pte pt m vpn))"

definition pt_translate_va :: "sv39_page_table \<times> machine \<Rightarrow> virt_addr \<Rightarrow> phys_addr option" where
  "pt_translate_va = (\<lambda>(pt, m) va.
     map_option (\<lambda>(p, i). addr_of_page (pte_ppn (dwords m p i)) + page_offset va)
       (find_pte pt m (addr_floor va)))"

text \<open>The updates of one entry (\<open>Err(())\<close> is \<open>Inl ()\<close>), and \<open>block_and_ret_mut\<close>.\<close>

definition pt_update ::
  "(pte \<Rightarrow> pte) \<Rightarrow> virt_page_num \<Rightarrow> sv39_page_table \<times> machine
     \<Rightarrow> (unit + unit) \<times> (sv39_page_table \<times> machine)" where
  "pt_update g vpn = (\<lambda>(pt, m).
     case find_pte pt m vpn of
       Some (p, i) \<Rightarrow> (Inr (), (pt, mem_write p i (g (dwords m p i)) m))
     | None \<Rightarrow> (Inl (), (pt, m)))"

definition pt_revoke_read where "pt_revoke_read = pt_update pte_revoke_read"
definition pt_revoke_write where "pt_revoke_write = pt_update pte_revoke_write"
definition pt_revoke_execute where "pt_revoke_execute = pt_update pte_revoke_execute"
definition pt_set_ppn where "pt_set_ppn vpn ppn = pt_update (pte_set_ppn ppn) vpn"
definition pt_set_pte_flags where "pt_set_pte_flags vpn flags = pt_update (pte_set_permission flags) vpn"
definition pt_clear_access_bit where "pt_clear_access_bit = pt_update pte_clear_access"
definition pt_clear_dirty_bit where "pt_clear_dirty_bit = pt_update pte_clear_dirty"

definition pt_block_and_ret_mut ::
  "virt_page_num \<Rightarrow> sv39_page_table \<times> machine \<Rightarrow> phys_page_num option \<times> (sv39_page_table \<times> machine)" where
  "pt_block_and_ret_mut vpn = (\<lambda>(pt, m).
     case find_pte pt m vpn of
       Some (p, i) \<Rightarrow>
         let m' = mem_write p i (pte_revoke_write (dwords m p i)) m
         in (Some (pte_ppn (dwords m' p i)), (pt, m'))
     | None \<Rightarrow> (None, (pt, m)))"

definition pt_query ::
  "(pte \<Rightarrow> bool) \<Rightarrow> sv39_page_table \<times> machine \<Rightarrow> virt_page_num \<Rightarrow> bool option" where
  "pt_query q = (\<lambda>(pt, m) vpn. map_option (\<lambda>(p, i). q (dwords m p i)) (find_pte pt m vpn))"

definition pt_is_valid where "pt_is_valid = pt_query pte_is_valid"
definition pt_is_dirty where "pt_is_dirty = pt_query pte_is_dirty"
definition pt_readable where "pt_readable = pt_query pte_readable"
definition pt_writable where "pt_writable = pt_query pte_writable"
definition pt_executable where "pt_executable = pt_query pte_executable"

end
