(* ===== verification/Page_Table.thy ===== *)
theory Page_Table
  imports Sv39
begin

text \<open>
  What the \<open>PageTable\<close> trait of \<open>mm/page_table.rs\<close> promises its clients, as a locale, and the proof
  that the three-level table of \<open>Sv39\<close> keeps the promise: as seen through \<open>find_pte\<close> it is a map from
  virtual pages to entries, and mapping, unmapping and permission changes update that map at one page.
\<close>

section \<open>The tree of tables\<close>

text \<open>The table reached from \<open>p\<close> along a path of indexes.\<close>

fun node :: "machine \<Rightarrow> phys_page_num \<Rightarrow> nat list \<Rightarrow> phys_page_num option" where
  "node m p [] = Some p"
| "node m p (i # is) =
     (if pte_is_valid (dwords m p i) then node m (pte_ppn (dwords m p i)) is else None)"

definition entry :: "machine \<Rightarrow> phys_page_num \<Rightarrow> nat \<Rightarrow> pte option" where
  "entry m t i = (if pte_is_valid (dwords m t i) then Some (dwords m t i) else None)"

lemma node_snoc: "node m p (q @ [i]) = Option.bind (node m p q) (\<lambda>t. map_option pte_ppn (entry m t i))"
  by (induction q arbitrary: p) (auto simp: entry_def)

lemma find_pte_loop_node:
  "find_pte_loop m p (q @ [i]) =
     Option.bind (node m p q) (\<lambda>t. map_option (\<lambda>_. (t, i)) (entry m t i))"
  by (induction q arbitrary: p) (auto simp: entry_def)

text \<open>What a page table maps, by the list of its three indexes.\<close>

definition pte_view :: "machine \<Rightarrow> phys_page_num \<Rightarrow> nat list \<Rightarrow> pte option" where
  "pte_view m root js = Option.bind (node m root (butlast js)) (\<lambda>t. entry m t (last js))"

abbreviation path :: "nat list \<Rightarrow> bool" where
  "path q \<equiv> (\<forall>i\<in>set q. i < 512)"

text \<open>The tables form a tree inside the frames \<open>F\<close>: no table is reached along two paths.\<close>

definition tree :: "machine \<Rightarrow> phys_page_num \<Rightarrow> phys_page_num set \<Rightarrow> bool" where
  "tree m root F \<longleftrightarrow>
     (\<forall>q t. path q \<longrightarrow> length q \<le> 2 \<longrightarrow> node m root q = Some t \<longrightarrow> t \<in> F)
     \<and> (\<forall>q r t. path q \<longrightarrow> path r \<longrightarrow> length q \<le> 2 \<longrightarrow> length r \<le> 2 \<longrightarrow>
          node m root q = Some t \<longrightarrow> node m root r = Some t \<longrightarrow> q = r)"

lemma treeD:
  assumes "tree m root F" "path q" "length q \<le> 2" "node m root q = Some t"
  shows "t \<in> F" and "path r \<Longrightarrow> length r \<le> 2 \<Longrightarrow> node m root r = Some t \<Longrightarrow> q = r"
  using assms unfolding tree_def by blast+

lemma entry_mem_write:
  "entry (mem_write p i v m) t j = (if t = p \<and> j = i then (if pte_is_valid v then Some v else None) else entry m t j)"
  by (simp add: entry_def mem_write_def)

lemma falloc_mem_write [simp]: "falloc (mem_write p i v m) = falloc m"
  by (simp add: mem_write_def)

lemma dwords_mem_write: "dwords (mem_write p i v m) q = (if q = p then (dwords m p)(i := v) else dwords m q)"
  by (simp add: mem_write_def)

text \<open>Writing an entry of a leaf table changes the view at that entry only.\<close>

lemma node_leaf_write:
  assumes "tree m root F" "path q" "length q = 2" "node m root q = Some t"
    and "path r" "length r \<le> 2"
  shows "node (mem_write t i v m) root r = node m root r"
  using assms(5,6)
proof (induction r rule: rev_induct)
  case Nil
  then show ?case by simp
next
  case (snoc j r)
  have "node m root r \<noteq> Some t"
    using treeD(2) [OF assms(1,2) _ assms(4), of r] assms(3) snoc.prems by auto
  then show ?case
    using snoc by (cases "node m root r") (auto simp: node_snoc entry_mem_write)
qed

lemma leaf_write:
  assumes "tree m root F" "path q" "length q = 2" "node m root q = Some t"
  shows "tree (mem_write t i v m) root F"
    and "path js \<Longrightarrow> length js = 3 \<Longrightarrow> pte_view (mem_write t i v m) root js =
      (if js = q @ [i] then (if pte_is_valid v then Some v else None) else pte_view m root js)"
proof -
  note n = node_leaf_write [OF assms]
  show "tree (mem_write t i v m) root F"
    using assms(1) n unfolding tree_def by metis
  assume js: "path js" "length js = 3"
  then obtain r j where r: "js = r @ [j]" "path r" "length r = 2"
    by (cases js rule: rev_cases) auto
  show "pte_view (mem_write t i v m) root js =
      (if js = q @ [i] then (if pte_is_valid v then Some v else None) else pte_view m root js)"
  proof (cases "node m root r")
    case None
    then show ?thesis
      using assms(4) n r by (auto simp: pte_view_def)
  next
    case (Some t')
    have "t' = t \<longleftrightarrow> r = q"
      using treeD(2) [OF assms(1,2) _ assms(4), of r] Some assms(3,4) r by auto
    then show ?thesis
      using Some n r by (auto simp: pte_view_def entry_mem_write)
  qed
qed

text \<open>Linking a fresh, empty table below \<open>t\<close>.\<close>

lemma node_link:
  assumes tr: "tree m root F" and q: "path q" "length q < 2" "node m root q = Some t" and i: "i < 512"
    and inv: "\<not> pte_is_valid (dwords m t i)"
    and f: "f \<notin> F" "f < 2 ^ 44"
    and m1: "\<forall>j<512. dwords m1 f j = 0" "\<forall>p. p \<noteq> f \<longrightarrow> dwords m1 p = dwords m p"
    and r: "path r" "length r \<le> 2"
  shows "node (mem_write t i (pte_new f PTE_V) m1) root r =
    (if r = q @ [i] then Some f else if prefix (q @ [i]) r then None else node m root r)"
  using r
proof (induction r rule: rev_induct)
  case Nil
  then show ?case by simp
next
  case (snoc j r)
  let ?m = "mem_write t i (pte_new f PTE_V) m1"
  have t: "t \<noteq> f"
    using treeD(1) [OF tr q(1) _ q(3)] q(2) f(1) by auto
  have v: "pte_is_valid (pte_new f PTE_V)" "\<not> pte_is_valid (0 :: pte)"
    by (simp_all add: pte_bits bit_pte_new PTE_V_def)
  have e: "entry ?m u k = (if u = t \<and> k = i then Some (pte_new f PTE_V) else if u = f then None
      else entry m u k)" if "k < 512" for u k
    using that v t m1 by (auto simp: entry_def dwords_mem_write)
  have j: "j < 512" and r: "path r" "length r < 2"
    using snoc.prems by auto
  have ih: "node ?m root r =
      (if r = q @ [i] then Some f else if prefix (q @ [i]) r then None else node m root r)"
    using snoc by simp
  consider (new) "r = q" "j = i" | (below) "prefix (q @ [i]) r"
    | (other) "r @ [j] \<noteq> q @ [i]" "\<not> prefix (q @ [i]) r" by blast
  then show ?case
  proof cases
    case new
    then have "node ?m root r = Some t"
      using ih q(3) by (simp add: prefix_order.not_eq_order_implies_strict)
    then show ?thesis
      using new e [of i t] i f(2) by (simp add: node_snoc pte_ppn_new)
  next
    case below
    then show ?thesis
      using ih e [OF j, of f] t by (auto simp: node_snoc)
  next
    case other
    have "node ?m root r = node m root r"
      using ih other by (auto simp: prefix_def)
    moreover have "entry ?m u j = entry m u j" if "node m root r = Some u" for u
    proof -
      have "u \<noteq> f"
        using treeD(1) [OF tr r(1) _ that] r(2) f(1) by auto
      moreover have "\<not> (u = t \<and> j = i)"
        using treeD(2) [OF tr q(1) _ q(3) r(1)] q(2) r(2) that other(1) by auto
      ultimately show ?thesis using e [OF j] by auto
    qed
    moreover have "\<not> prefix (q @ [i]) (r @ [j])"
      using other by (simp only: prefix_snoc) blast
    ultimately show ?thesis
      using other(1) by (cases "node m root r") (auto simp: node_snoc)
  qed
qed

lemma link:
  assumes tr: "tree m root F" and q: "path q" "length q < 2" "node m root q = Some t" and i: "i < 512"
    and inv: "\<not> pte_is_valid (dwords m t i)"
    and f: "f \<notin> F" "f < 2 ^ 44"
    and m1: "\<forall>j<512. dwords m1 f j = 0" "\<forall>p. p \<noteq> f \<longrightarrow> dwords m1 p = dwords m p"
  defines "m2 \<equiv> mem_write t i (pte_new f PTE_V) m1"
  shows "tree m2 root (insert f F)" and "node m2 root (q @ [i]) = Some f"
    and "path js \<Longrightarrow> length js = 3 \<Longrightarrow> pte_view m2 root js = pte_view m root js"
proof -
  have n: "node m2 root r =
      (if r = q @ [i] then Some f else if prefix (q @ [i]) r then None else node m root r)"
    if "path r" "length r \<le> 2" for r
    unfolding m2_def by (rule node_link [OF tr q i inv f m1 that])
  show "node m2 root (q @ [i]) = Some f"
    using n [of "q @ [i]"] q i by simp
  have old: "node m root (q @ [i]) = None"
    using q(3) inv by (simp add: node_snoc entry_def)
  show "tree m2 root (insert f F)"
    unfolding tree_def
  proof (intro conjI allI impI)
    fix r u assume r: "path r" "length r \<le> 2" "node m2 root r = Some u"
    then show "u \<in> insert f F"
      using n [OF r(1,2)] treeD(1) [OF tr r(1,2)] by (auto split: if_splits)
  next
    fix a b u
    assume *: "path a" "path b" "length a \<le> 2" "length b \<le> 2" "node m2 root a = Some u"
      "node m2 root b = Some u"
    have new: "x = q @ [i]" if "path x" "length x \<le> 2" "node m2 root x = Some f" for x
      using n [OF that(1,2)] treeD(1) [OF tr that(1,2)] that(3) f(1) by (auto split: if_splits)
    show "a = b"
    proof (cases "u = f")
      case True
      then show ?thesis
        using new * by metis
    next
      case False
      then have "node m root x = Some u" if "path x" "length x \<le> 2" "node m2 root x = Some u" for x
        using n [OF that(1,2)] that(3) by (auto split: if_splits)
      then have "node m root a = Some u" "node m root b = Some u"
        using * by blast+
      then show ?thesis
        using treeD(2) [OF tr *(1,3) _ *(2,4)] by blast
    qed
  qed
  assume js: "path js" "length js = 3"
  then obtain r j where r: "js = r @ [j]" "path r" "length r = 2" "j < 512"
    by (cases js rule: rev_cases) auto
  have e: "entry m2 u j = (if u = t \<and> j = i then Some (pte_new f PTE_V) else if u = f then None
      else entry m u j)" for u
  proof -
    have "pte_is_valid (pte_new f PTE_V)" "\<not> pte_is_valid (0 :: pte)" "t \<noteq> f"
      using treeD(1) [OF tr q(1) _ q(3)] q(2) f(1)
      by (auto simp: pte_bits bit_pte_new PTE_V_def)
    then show ?thesis
      using r(4) m1 by (auto simp: m2_def entry_def dwords_mem_write)
  qed
  have below: "node m root r = None" if "prefix (q @ [i]) r"
  proof -
    have app: "node m p (a @ b) = Option.bind (node m p a) (\<lambda>u. node m u b)" for p a b
      by (induction a arbitrary: p) auto
    from that obtain b where "r = (q @ [i]) @ b"
      by (auto simp: prefix_def)
    then show ?thesis
      using app [of root "q @ [i]" b] old by simp
  qed
  show "pte_view m2 root js = pte_view m root js"
  proof (cases "prefix (q @ [i]) r")
    case True
    then have "node m2 root r = None \<or> node m2 root r = Some f"
      using n [OF r(2)] r(3) by simp
    moreover have "f \<noteq> t"
      using treeD(1) [OF tr q(1) _ q(3)] q(2) f(1) by auto
    ultimately show ?thesis
      using below [OF True] e by (auto simp: pte_view_def r(1))
  next
    case False
    then have nr: "node m2 root r = node m root r"
      using n [OF r(2)] r(3) by (auto simp: prefix_def)
    show ?thesis
    proof (cases "node m root r")
      case (Some u)
      have "u \<noteq> f" "u \<noteq> t"
        using treeD(1) [OF tr r(2) _ Some] treeD(2) [OF tr q(1) _ q(3) r(2)] r(3) q(2) f(1) Some
        by auto
      then show ?thesis
        using nr Some e by (simp add: pte_view_def r(1))
    qed (simp add: pte_view_def r(1) nr)
  qed
qed

section \<open>The invariant of a page table\<close>

text \<open>The table frames are distinct frames that the allocator has handed out and that hold a tree.\<close>

definition pt_ok :: "nat \<Rightarrow> phys_page_num \<Rightarrow> phys_page_num list \<Rightarrow> machine \<Rightarrow> bool" where
  "pt_ok l root frames m \<longleftrightarrow> sfa_invar l (falloc m) \<and> sfa_end (falloc m) \<le> 2 ^ 44
     \<and> distinct frames \<and> set frames \<subseteq> sfa_used l (falloc m) \<and> tree m root (set frames)"

text \<open>Growing a page table: only frames of the table change, the frames of other owners stay theirs,
  and the view is the same.\<close>

definition pt_extends :: "nat \<Rightarrow> phys_page_num \<Rightarrow> nat \<Rightarrow> phys_page_num list \<Rightarrow> machine
    \<Rightarrow> phys_page_num list \<Rightarrow> machine \<Rightarrow> bool" where
  "pt_extends l root n frames m frames' m' \<longleftrightarrow> pt_ok l root frames' m' \<and> set frames \<subseteq> set frames'
     \<and> sfa_used l (falloc m') - set frames' = sfa_used l (falloc m) - set frames
     \<and> unallocated_frames m \<le> unallocated_frames m' + n
     \<and> (\<forall>p. p \<notin> set frames' \<longrightarrow> dwords m' p = dwords m p)
     \<and> (\<forall>js. path js \<longrightarrow> length js = 3 \<longrightarrow> pte_view m' root js = pte_view m root js)"

lemma pt_extends_refl: "pt_ok l root frames m \<Longrightarrow> pt_extends l root n frames m frames m"
  by (simp add: pt_extends_def)

lemma pt_extends_trans:
  "pt_extends l root a f0 m0 f1 m1 \<Longrightarrow> pt_extends l root b f1 m1 f2 m2 \<Longrightarrow>
     pt_extends l root (a + b) f0 m0 f2 m2"
  unfolding pt_extends_def by auto

lemma link_frame:
  assumes ok: "pt_ok l root frames m" and q: "path q" "length q < 2" "node m root q = Some t"
    and i: "i < 512" and inv: "\<not> pte_is_valid (dwords m t i)" and free: "0 < unallocated_frames m"
  obtains f m1 where "frame_alloc oom m = Ret (Some f, m1)"
    "pt_extends l root 1 frames m (frames @ [f]) (mem_write t i (pte_new f PTE_V) m1)"
    "node (mem_write t i (pte_new f PTE_V) m1) root (q @ [i]) = Some f"
    "pte_ppn (pte_new f PTE_V) = f"
proof -
  have I: "sfa_invar l (falloc m)" and tr: "tree m root (set frames)"
    using ok by (simp_all add: pt_ok_def)
  have "sfa_avail (falloc m) \<noteq> {}"
    using free sfa_unallocated_card [OF I] by (auto simp: unallocated_frames_def)
  from frame_alloc_direct [OF I this, of oom] obtain f m1 where
    a: "frame_alloc oom m = Ret (Some f, m1)" "f \<in> sfa_avail (falloc m)" "sfa_invar l (falloc m1)"
    and u: "sfa_used l (falloc m1) = insert f (sfa_used l (falloc m))"
    and av: "sfa_avail (falloc m1) = sfa_avail (falloc m) - {f}"
    and en: "sfa_end (falloc m1) = sfa_end (falloc m)"
    and z: "\<forall>j<512. dwords m1 f j = 0" and fr: "\<forall>p. p \<noteq> f \<longrightarrow> dwords m1 p = dwords m p"
    by blast
  have fresh: "f \<notin> sfa_used l (falloc m)"
    using a(2) frames.used_avail [OF I] by auto
  then have nF: "f \<notin> set frames"
    using ok by (auto simp: pt_ok_def)
  have f44: "f < 2 ^ 44"
    using sfa_used_bound [OF a(3), of f] u en ok by (simp add: pt_ok_def)
  note lk = link [OF tr q i inv nF f44 z fr]
  have t: "t \<in> set frames"
    using treeD(1) [OF tr q(1) _ q(3)] q(2) by simp
  let ?m2 = "mem_write t i (pte_new f PTE_V) m1"
  have cnt: "unallocated_frames m \<le> unallocated_frames ?m2 + 1"
    using a(2) av by (simp add: unallocated_frames_def sfa_unallocated_card [OF I]
        sfa_unallocated_card [OF a(3)])
  have ok2: "pt_ok l root (frames @ [f]) ?m2"
    using ok lk(1) nF a(3) u en by (auto simp: pt_ok_def)
  have "pt_extends l root 1 frames m (frames @ [f]) ?m2"
    using ok2 cnt lk(3) t fr u fresh by (auto simp: pt_extends_def dwords_mem_write)
  then show ?thesis
    using that a(1) lk(2) pte_ppn_new [OF f44] by blast
qed

lemma find_pte_create_loop_spec:
  assumes "pt_ok l root frames m" "path (q @ idxs)" "length (q @ idxs) = 3" "idxs \<noteq> []"
    "node m root q = Some p" "length idxs - 1 \<le> unallocated_frames m"
  shows "\<exists>t frames' m'. find_pte_create_loop oom p idxs frames m = Ret (Some (t, last idxs), frames', m')
    \<and> node m' root (butlast (q @ idxs)) = Some t
    \<and> pt_extends l root (length idxs - 1) frames m frames' m'"
  using assms
proof (induction idxs arbitrary: q p frames m)
  case Nil
  then show ?case by simp
next
  case (Cons i idxs)
  show ?case
  proof (cases "idxs = []")
    case True
    then show ?thesis
      using Cons.prems pt_extends_refl by (auto simp: butlast_append)
  next
    case False
    then have q: "path q" "length q < 2" "i < 512" "path ((q @ [i]) @ idxs)" "length ((q @ [i]) @ idxs) = 3"
      using Cons.prems(2,3) by (cases idxs; auto)+
    note rest = Cons.IH [OF _ q(4,5) False]
    show ?thesis
    proof (cases "pte_is_valid (dwords m p i)")
      case True
      then have "node m root (q @ [i]) = Some (pte_ppn (dwords m p i))"
        using Cons.prems(5) by (simp add: node_snoc entry_def)
      from rest [OF Cons.prems(1) this] Cons.prems(6) show ?thesis
        using True False by (force simp: pt_extends_def)
    next
      case inv: False
      have "0 < unallocated_frames m"
        using Cons.prems(6) False by (cases idxs) auto
      from link_frame [OF Cons.prems(1) q(1,2) Cons.prems(5) q(3) inv this, of oom]
      obtain f m1 where a: "frame_alloc oom m = Ret (Some f, m1)"
        and ext: "pt_extends l root 1 frames m (frames @ [f]) (mem_write p i (pte_new f PTE_V) m1)"
        and n: "node (mem_write p i (pte_new f PTE_V) m1) root (q @ [i]) = Some f"
        and f: "pte_ppn (pte_new f PTE_V) = f" by metis
      let ?m2 = "mem_write p i (pte_new f PTE_V) m1"
      have ok2: "pt_ok l root (frames @ [f]) ?m2"
        and room: "length idxs - 1 \<le> unallocated_frames ?m2"
        using ext Cons.prems(6) False by (auto simp: pt_extends_def)
      from rest [OF ok2 n room] obtain t frames' m' where
        r: "find_pte_create_loop oom f idxs (frames @ [f]) ?m2 = Ret (Some (t, last idxs), frames', m')"
        "node m' root (butlast ((q @ [i]) @ idxs)) = Some t"
        "pt_extends l root (length idxs - 1) (frames @ [f]) ?m2 frames' m'" by blast
      have "pt_extends l root (1 + (length idxs - 1)) frames m frames' m'"
        using pt_extends_trans [OF ext r(3)] .
      moreover have "1 + (length idxs - 1) = length (i # idxs) - 1"
        using False by (cases idxs) auto
      moreover have "find_pte_create_loop oom p (i # idxs) frames m
          = Ret (Some (t, last (i # idxs)), frames', m')"
        using a r(1) False inv f by (simp add: dwords_mem_write)
      ultimately show ?thesis
        using r(2) by auto
    qed
  qed
qed

section \<open>The interface\<close>

text \<open>
  \<open>key\<close> is what of a virtual page number the table distinguishes (its three 9-bit indexes), \<open>view\<close> the
  entries by key, and \<open>room n\<close> says that \<open>n\<close> pages can be mapped without entering the out-of-memory
  path. \<open>MapArea\<close> maps and unmaps its pages one by one; \<open>map_all\<close> and \<open>unmap_all\<close> are its loops.
\<close>

fun map_all ::
  "(virt_page_num \<Rightarrow> phys_page_num \<Rightarrow> map_permission \<Rightarrow> 's \<Rightarrow> 's outcome) \<Rightarrow> map_permission
     \<Rightarrow> (virt_page_num \<times> phys_page_num) list \<Rightarrow> 's \<Rightarrow> 's outcome" where
  "map_all mp fl [] s = Ret s"
| "map_all mp fl ((v, p) # ps) s = bind_outcome (mp v p fl s) (map_all mp fl ps)"

fun unmap_all :: "(virt_page_num \<Rightarrow> 's \<Rightarrow> 's outcome) \<Rightarrow> virt_page_num list \<Rightarrow> 's \<Rightarrow> 's outcome" where
  "unmap_all ump [] s = Ret s"
| "unmap_all ump (v # vs) s = bind_outcome (ump v s) (unmap_all ump vs)"

locale page_table =
  fixes mp :: "virt_page_num \<Rightarrow> phys_page_num \<Rightarrow> map_permission \<Rightarrow> 's \<Rightarrow> 's outcome"
    and ump :: "virt_page_num \<Rightarrow> 's \<Rightarrow> 's outcome"
    and translate :: "'s \<Rightarrow> virt_page_num \<Rightarrow> phys_page_num option"
    and invar :: "'s \<Rightarrow> bool"
    and view :: "'s \<Rightarrow> 'k \<Rightarrow> pte option"
    and key :: "virt_page_num \<Rightarrow> 'k"
    and new_entry :: "phys_page_num \<Rightarrow> map_permission \<Rightarrow> pte"
    and room :: "nat \<Rightarrow> 's \<Rightarrow> bool"
  assumes map_ok: "invar s \<Longrightarrow> view s (key v) = None \<Longrightarrow> room (Suc n) s \<Longrightarrow>
      \<exists>s'. mp v p fl s = Ret s' \<and> invar s' \<and> room n s' \<and> view s' = (view s)(key v \<mapsto> new_entry p fl)"
    and map_busy: "invar s \<Longrightarrow> view s (key v) = Some e \<Longrightarrow> mp v p fl s = Panic"
    and unmap_ok: "invar s \<Longrightarrow> view s (key v) = Some e \<Longrightarrow>
      \<exists>s'. ump v s = Ret s' \<and> invar s' \<and> view s' = (view s)(key v := None)"
    and unmap_absent: "invar s \<Longrightarrow> view s (key v) = None \<Longrightarrow> ump v s = Panic"
    and translate_view: "invar s \<Longrightarrow> translate s v = map_option pte_ppn (view s (key v))"
begin

lemma map_all_ok:
  assumes "invar s" "room (length ps) s" "distinct (map (key \<circ> fst) ps)"
    "\<forall>(v, p)\<in>set ps. view s (key v) = None"
  shows "\<exists>s'. map_all mp fl ps s = Ret s' \<and> invar s'
    \<and> view s' = view s ++ map_of (rev (map (\<lambda>(v, p). (key v, new_entry p fl)) ps))"
  using assms
proof (induction ps arbitrary: s)
  case Nil
  then show ?case by simp
next
  case (Cons vp ps)
  obtain v p where vp: "vp = (v, p)" by (cases vp)
  then obtain s1 where s1: "mp v p fl s = Ret s1" "invar s1" "room (length ps) s1"
    "view s1 = (view s)(key v \<mapsto> new_entry p fl)"
    using map_ok [OF Cons.prems(1), of v "length ps" p fl] Cons.prems(2,4) by auto
  have "\<forall>(w, x)\<in>set ps. view s1 (key w) = None"
    using Cons.prems(3,4) vp s1(4) by (force simp: comp_def)
  from Cons.IH [OF s1(2,3) _ this] obtain s' where s': "map_all mp fl ps s1 = Ret s'" "invar s'"
    "view s' = view s1 ++ map_of (rev (map (\<lambda>(v, p). (key v, new_entry p fl)) ps))"
    using Cons.prems(3) by auto
  then show ?case
    using s1(1) by (intro exI [of _ s']) (simp add: vp s'(3) s1(4) del: fun_upd_apply)
qed

lemma unmap_all_ok:
  assumes "invar s" "distinct (map key vs)" "\<forall>v\<in>set vs. view s (key v) \<noteq> None"
  shows "\<exists>s'. unmap_all ump vs s = Ret s' \<and> invar s' \<and> view s' = (view s) |` (- key ` set vs)"
  using assms
proof (induction vs arbitrary: s)
  case Nil
  then show ?case by simp
next
  case (Cons v vs)
  then obtain s1 where s1: "ump v s = Ret s1" "invar s1" "view s1 = (view s)(key v := None)"
    using unmap_ok [OF Cons.prems(1), of v] by auto
  have "\<forall>w\<in>set vs. view s1 (key w) \<noteq> None"
    using Cons.prems(2,3) s1(3) by (force simp: image_iff)
  then show ?case
    using Cons.IH [OF s1(2)] Cons.prems(2) s1(1,3)
    by (auto simp: restrict_map_def fun_eq_iff)
qed

text \<open>Mapping a set of absent pages and unmapping them again restores the view.\<close>

lemma map_unmap_all:
  assumes "invar s" "room (length ps) s" "distinct (map (key \<circ> fst) ps)"
    "\<forall>(v, p)\<in>set ps. view s (key v) = None"
  shows "\<exists>s1 s2. map_all mp fl ps s = Ret s1 \<and> unmap_all ump (map fst ps) s1 = Ret s2 \<and> invar s2
    \<and> view s2 = view s"
proof -
  let ?L = "map (\<lambda>(v, p). (key v, new_entry p fl)) ps"
  obtain s1 where s1: "map_all mp fl ps s = Ret s1" "invar s1" "view s1 = view s ++ map_of (rev ?L)"
    using map_all_ok [OF assms] by blast
  have dom: "dom (map_of (rev ?L)) = key ` set (map fst ps)"
    by (force simp: dom_map_of_conv_image_fst)
  have "\<forall>v\<in>set (map fst ps). view s1 (key v) \<noteq> None"
  proof
    fix v assume "v \<in> set (map fst ps)"
    then have "key v \<in> dom (map_of (rev ?L))"
      unfolding dom by (rule imageI)
    then show "view s1 (key v) \<noteq> None"
      unfolding s1(3) map_add_None domIff by blast
  qed
  from unmap_all_ok [OF s1(2) _ this] obtain s2 where s2: "unmap_all ump (map fst ps) s1 = Ret s2"
    "invar s2" "view s2 = view s1 |` (- key ` set (map fst ps))"
    using assms(3) by auto
  have "view s2 k = view s k" for k
  proof (cases "k \<in> key ` set (map fst ps)")
    case True
    then show ?thesis
      using assms(4) s2(3) by auto
  next
    case False
    then have "map_of (rev ?L) k = None"
      using dom by (metis domIff)
    then show ?thesis
      using False s2(3) s1(3) by (simp add: map_add_def)
  qed
  then show ?thesis
    using s1(1) s2 by blast
qed

end

section \<open>Sv39 provides it\<close>

definition pt_invar :: "nat \<Rightarrow> sv39_page_table \<times> machine \<Rightarrow> bool" where
  "pt_invar l = (\<lambda>(pt, m). pt_ok l (root_ppn pt) (pt_frames pt) m)"

definition pt_view :: "sv39_page_table \<times> machine \<Rightarrow> nat list \<Rightarrow> pte option" where
  "pt_view = (\<lambda>(pt, m) js. if path js \<and> length js = 3 then pte_view m (root_ppn pt) js else None)"

definition pt_key :: "virt_page_num \<Rightarrow> nat list" where
  "pt_key vpn = indexes 3 vpn"

definition pt_new_entry :: "phys_page_num \<Rightarrow> map_permission \<Rightarrow> pte" where
  "pt_new_entry ppn flags = pte_new ppn (flags OR PTE_V OR PTE_A OR PTE_D)"

definition pt_room :: "nat \<Rightarrow> sv39_page_table \<times> machine \<Rightarrow> bool" where
  "pt_room n = (\<lambda>(pt, m). 2 * n \<le> unallocated_frames m)"

lemma pt_key_split:
  obtains q i where "pt_key v = q @ [i]" "path q" "length q = 2" "i < 512" "path (pt_key v)"
proof -
  have p: "path (pt_key v)" and l: "length (pt_key v) = 3"
    using indexes_bound by (auto simp: pt_key_def)
  obtain q i where k: "pt_key v = q @ [i]"
    using l by (cases "pt_key v" rule: rev_cases) auto
  then have "length (q @ [i]) = 3" "path (q @ [i])"
    using p l by metis+
  with p k show thesis by (intro that) auto
qed

lemma pt_key_inj:
  "pt_key v = pt_key w \<Longrightarrow> v < 2 ^ 27 \<Longrightarrow> w < 2 ^ 27 \<Longrightarrow> v = w"
  using indexes_inj [of 3 v w] by (simp add: pt_key_def)

text \<open>\<open>find_pte\<close> finds exactly the entries of the view.\<close>

lemma find_pte_view:
  assumes "pt_key v = q @ [i]" "path (pt_key v)"
  shows "pt_view (pt, m) (pt_key v) = None \<Longrightarrow> find_pte pt m v = None"
    and "pt_view (pt, m) (pt_key v) = Some e \<Longrightarrow> \<exists>t. find_pte pt m v = Some (t, i)
      \<and> node m (root_ppn pt) q = Some t \<and> dwords m t i = e \<and> pte_is_valid e"
proof -
  have len: "length (pt_key v) = 3"
    by (simp add: pt_key_def)
  have idx: "indexes 3 v = q @ [i]"
    using assms(1) by (simp add: pt_key_def)
  have view: "pt_view (pt, m) (pt_key v) = Option.bind (node m (root_ppn pt) q) (\<lambda>t. entry m t i)"
    using assms len by (simp add: pt_view_def pte_view_def)
  note f = find_pte_def find_pte_loop_node idx
  show "pt_view (pt, m) (pt_key v) = None \<Longrightarrow> find_pte pt m v = None"
    unfolding view f by (auto simp: bind_eq_None_conv)
  show "pt_view (pt, m) (pt_key v) = Some e \<Longrightarrow> \<exists>t. find_pte pt m v = Some (t, i)
      \<and> node m (root_ppn pt) q = Some t \<and> dwords m t i = e \<and> pte_is_valid e"
    unfolding view f by (auto simp: bind_eq_Some_conv entry_def split: if_splits)
qed

text \<open>Writing an entry that \<open>find_pte\<close> or \<open>find_pte_create\<close> returned.\<close>

lemma pt_write_slot:
  assumes inv: "pt_invar l (pt, m)" and k: "pt_key v = q @ [i]" "path q" "length q = 2" "i < 512"
    and n: "node m (root_ppn pt) q = Some t"
  shows "pt_invar l (pt, mem_write t i e m)"
    and "pt_view (pt, mem_write t i e m) = (pt_view (pt, m))(pt_key v := if pte_is_valid e then Some e else None)"
    and "t \<in> set (pt_frames pt)"
proof -
  have ok: "pt_ok l (root_ppn pt) (pt_frames pt) m"
    using inv by (simp add: pt_invar_def)
  then have tr: "tree m (root_ppn pt) (set (pt_frames pt))"
    by (simp add: pt_ok_def)
  note w = leaf_write [OF tr k(2,3) n, where i = i and v = e]
  show "pt_invar l (pt, mem_write t i e m)"
    using ok w(1) by (simp add: pt_invar_def pt_ok_def)
  show "pt_view (pt, mem_write t i e m) = (pt_view (pt, m))(pt_key v := if pte_is_valid e then Some e else None)"
    using w(2) k by (auto simp: pt_view_def fun_eq_iff)
  show "t \<in> set (pt_frames pt)"
    using treeD(1) [OF tr k(2) _ n] k(3) by simp
qed

lemma pt_map_ok:
  assumes inv: "pt_invar l (pt, m)" and new: "pt_view (pt, m) (pt_key v) = None"
    and room: "2 \<le> unallocated_frames m"
  shows "\<exists>pt' m'. pt_map oom v p fl (pt, m) = Ret (pt', m') \<and> pt_invar l (pt', m')
    \<and> pt_view (pt', m') = (pt_view (pt, m))(pt_key v \<mapsto> pt_new_entry p fl)
    \<and> unallocated_frames m \<le> unallocated_frames m' + 2
    \<and> sfa_used l (falloc m') - set (pt_frames pt') = sfa_used l (falloc m) - set (pt_frames pt)
    \<and> (\<forall>x. x \<notin> set (pt_frames pt') \<longrightarrow> dwords m' x = dwords m x)"
proof -
  obtain q i where k: "pt_key v = q @ [i]" "path q" "length q = 2" "i < 512" "path (pt_key v)"
    by (rule pt_key_split)
  then have idx: "indexes 3 v = q @ [i]"
    by (simp add: pt_key_def)
  have ok: "pt_ok l (root_ppn pt) (pt_frames pt) m"
    using inv by (simp add: pt_invar_def)
  obtain t frames' m1 where c: "find_pte_create_loop oom (root_ppn pt) (q @ [i]) (pt_frames pt) m
      = Ret (Some (t, i), frames', m1)"
    and n: "node m1 (root_ppn pt) q = Some t"
    and ext: "pt_extends l (root_ppn pt) 2 (pt_frames pt) m frames' m1"
    using find_pte_create_loop_spec [OF ok, of "[]" "q @ [i]" "root_ppn pt" oom] k room
    by (auto simp: butlast_append)
  let ?pt = "pt\<lparr>pt_frames := frames'\<rparr>" and ?e = "pt_new_entry p fl"
  have inv1: "pt_invar l (?pt, m1)"
    using ext by (simp add: pt_invar_def pt_extends_def)
  have v1: "pt_view (?pt, m1) = pt_view (pt, m)"
    using ext by (auto simp: pt_view_def pt_extends_def fun_eq_iff)
  have nv: "\<not> pte_is_valid (dwords m1 t i)"
  proof
    assume "pte_is_valid (dwords m1 t i)"
    then have "pt_view (?pt, m1) (pt_key v) \<noteq> None"
      using n k by (simp add: pt_view_def pte_view_def entry_def)
    then show False using v1 new by simp
  qed
  have ve: "pte_is_valid ?e"
    by (simp add: pte_bits pt_new_entry_def bit_pte_new PTE_V_def bit_simps)
  note w = pt_write_slot(1,2) [OF inv1 k(1-4), where t = t and e = ?e]
    pt_write_slot(3) [OF inv1 k(1-4), where t = t]
  have "pt_map oom v p fl (pt, m) = Ret (?pt, mem_write t i ?e m1)"
    using c nv by (simp add: pt_map_def find_pte_create_def idx pt_new_entry_def)
  moreover have "pt_view (?pt, mem_write t i ?e m1) = (pt_view (pt, m))(pt_key v \<mapsto> ?e)"
    using w(2) n v1 ve by simp
  moreover have "unallocated_frames m \<le> unallocated_frames (mem_write t i ?e m1) + 2"
    using ext by (simp add: pt_extends_def unallocated_frames_def)
  ultimately show ?thesis
    using w(1,3) n ext by (auto simp: pt_extends_def dwords_mem_write)
qed

lemma find_pte_create_loop_existing:
  assumes "idxs \<noteq> []" "node m p (butlast idxs) = Some t"
  shows "find_pte_create_loop oom p idxs frames m = Ret (Some (t, last idxs), frames, m)"
  using assms
  by (induction idxs arbitrary: p) (auto split: if_splits)

lemma pt_map_busy:
  assumes "pt_view (pt, m) (pt_key v) = Some e"
  shows "pt_map oom v p fl (pt, m) = Panic"
proof -
  obtain q i where k: "pt_key v = q @ [i]" "path (pt_key v)"
    by (rule pt_key_split)
  obtain t where t: "node m (root_ppn pt) q = Some t" "dwords m t i = e" "pte_is_valid e"
    using find_pte_view(2) [OF k assms] by blast
  have "find_pte_create_loop oom (root_ppn pt) (q @ [i]) (pt_frames pt) m
      = Ret (Some (t, i), pt_frames pt, m)"
    using find_pte_create_loop_existing [of "q @ [i]" m "root_ppn pt" t oom "pt_frames pt"] t by simp
  then show ?thesis
    using k(1) t by (simp add: pt_map_def find_pte_create_def pt_key_def)
qed

text \<open>Every operation that rewrites one existing entry.\<close>

lemma pt_slot:
  assumes "pt_invar l (pt, m)" "pt_view (pt, m) (pt_key v) = Some e"
  obtains t i where "find_pte pt m v = Some (t, i)" "dwords m t i = e" "pte_is_valid e"
    "\<And>e'. pt_invar l (pt, mem_write t i e' m)"
    "\<And>e'. pt_view (pt, mem_write t i e' m) = (pt_view (pt, m))(pt_key v := if pte_is_valid e' then Some e' else None)"
proof -
  obtain q i where k: "pt_key v = q @ [i]" "path q" "length q = 2" "i < 512" "path (pt_key v)"
    by (rule pt_key_split)
  obtain t where "find_pte pt m v = Some (t, i)" "node m (root_ppn pt) q = Some t" "dwords m t i = e"
    "pte_is_valid e"
    using find_pte_view(2) [OF k(1,5) assms(2)] by blast
  then show ?thesis
    using that pt_write_slot(1,2) [OF assms(1) k(1-4)] by blast
qed

lemma pt_unmap_ok:
  assumes "pt_invar l s" "pt_view s (pt_key v) = Some e"
  shows "\<exists>s'. pt_unmap v s = Ret s' \<and> pt_invar l s' \<and> pt_view s' = (pt_view s)(pt_key v := None)"
proof -
  obtain pt m where s: "s = (pt, m)" by (cases s)
  show ?thesis
    by (rule pt_slot [OF assms [unfolded s]])
      (simp add: s pt_unmap_def pte_empty_def pte_bits)
qed

lemma pt_unmap_absent:
  assumes "pt_view s (pt_key v) = None"
  shows "pt_unmap v s = Panic"
proof -
  obtain pt m where s: "s = (pt, m)" by (cases s)
  obtain q i where "pt_key v = q @ [i]" "path (pt_key v)"
    by (rule pt_key_split)
  then show ?thesis
    using find_pte_view(1) assms by (simp add: s pt_unmap_def)
qed

lemma pt_query_view: "pt_query f s v = map_option f (pt_view s (pt_key v))"
  and pt_translate_view: "pt_translate s v = map_option pte_ppn (pt_view s (pt_key v))"
proof -
  obtain pt m where s: "s = (pt, m)" by (cases s)
  obtain q i where k: "pt_key v = q @ [i]" "path (pt_key v)"
    by (rule pt_key_split)
  show "pt_query f s v = map_option f (pt_view s (pt_key v))"
    "pt_translate s v = map_option pte_ppn (pt_view s (pt_key v))"
    using find_pte_view [OF k, of pt m]
    by (cases "pt_view (pt, m) (pt_key v)"; force simp: s pt_query_def pt_translate_def)+
qed

lemma pt_update_view:
  assumes "pt_invar l s"
  shows "case pt_view s (pt_key v) of
      None \<Rightarrow> pt_update g v s = (Inl (), s)
    | Some e \<Rightarrow> \<exists>s'. pt_update g v s = (Inr (), s') \<and> pt_invar l s'
        \<and> pt_view s' = (pt_view s)(pt_key v := if pte_is_valid (g e) then Some (g e) else None)"
proof -
  obtain pt m where s: "s = (pt, m)" by (cases s)
  show ?thesis
  proof (cases "pt_view s (pt_key v)")
    case None
    obtain q i where "pt_key v = q @ [i]" "path (pt_key v)"
      by (rule pt_key_split)
    then show ?thesis
      using find_pte_view(1) None by (simp add: s pt_update_def)
  next
    case (Some e)
    show ?thesis
      by (rule pt_slot [OF assms [unfolded s] Some [unfolded s]])
        (simp add: s Some [unfolded s] pt_update_def)
  qed
qed

interpretation sv39: page_table "pt_map oom" pt_unmap pt_translate "pt_invar l" pt_view pt_key
  pt_new_entry pt_room for oom l
proof (unfold_locales, goal_cases)
  case (1 s v n p fl)
  obtain pt m where s: "s = (pt, m)" by (cases s)
  have "2 \<le> unallocated_frames m"
    using 1(3) by (simp add: s pt_room_def)
  from pt_map_ok [OF 1(1,2) [unfolded s] this, of oom p fl] show ?case
    using 1(3) by (fastforce simp: s pt_room_def)
next
  case (2 s v e p fl)
  then show ?case by (cases s) (simp add: pt_map_busy)
next
  case (3 s v e)
  then show ?case by (rule pt_unmap_ok)
next
  case (4 s v)
  then show ?case by (simp add: pt_unmap_absent)
next
  case (5 s v)
  then show ?case by (simp add: pt_translate_view)
qed

text \<open>A new page table maps nothing.\<close>

lemma pt_new_ok:
  assumes "sfa_invar l (falloc m)" "sfa_end (falloc m) \<le> 2 ^ 44" "0 < unallocated_frames m"
  shows "\<exists>pt m'. pt_new oom m = Ret (pt, m') \<and> pt_invar l (pt, m') \<and> pt_view (pt, m') = Map.empty
    \<and> unallocated_frames m' = unallocated_frames m - 1"
proof -
  have "sfa_avail (falloc m) \<noteq> {}"
    using assms(3) sfa_unallocated_card [OF assms(1)] by (auto simp: unallocated_frames_def)
  from frame_alloc_direct [OF assms(1) this, of oom] obtain f m' where
    a: "frame_alloc oom m = Ret (Some f, m')" "sfa_invar l (falloc m')" "f \<in> sfa_avail (falloc m)"
    and u: "sfa_used l (falloc m') = insert f (sfa_used l (falloc m))"
    and av: "sfa_avail (falloc m') = sfa_avail (falloc m) - {f}"
    and en: "sfa_end (falloc m') = sfa_end (falloc m)" and z: "\<forall>j<512. dwords m' f j = 0"
    by blast
  let ?pt = "\<lparr>root_ppn = f, pt_frames = [f]\<rparr>"
  have z': "\<not> pte_is_valid (dwords m' f j)" if "j < 512" for j
    using z that by (simp add: pte_bits)
  have n: "node m' f q = (if q = [] then Some f else None)" if "path q" for q
    using that z' by (cases q) auto
  have "tree m' f {f}"
    unfolding tree_def using n by (metis insertI1 option.distinct(1) option.inject)
  then have inv: "pt_invar l (?pt, m')"
    using a(2) u en assms(2) by (simp add: pt_invar_def pt_ok_def)
  have "pt_view (?pt, m') js = None" for js
  proof (cases "path js \<and> length js = 3")
    case True
    then have "length (butlast js) = 2" "path (butlast js)"
      by (auto dest: in_set_butlastD)
    then have "butlast js \<noteq> []" "path (butlast js)"
      by force+
    then have "node m' f (butlast js) = None"
      using n [of "butlast js"] by simp
    then show ?thesis by (simp add: pt_view_def pte_view_def)
  qed (auto simp: pt_view_def)
  moreover have "unallocated_frames m' = unallocated_frames m - 1"
    using a av by (simp add: unallocated_frames_def sfa_unallocated_card [OF a(2)]
        sfa_unallocated_card [OF assms(1)])
  ultimately show ?thesis
    using a(1) inv by (auto simp: pt_new_def)
qed

section \<open>Properties\<close>

text \<open>A boot-time machine with a new page table, for the examples.\<close>

definition demo_machine :: machine where
  "demo_machine = \<lparr>falloc = \<lparr>sfa_current = 0x80300, sfa_end = 0x80400, sfa_recycled = []\<rparr>,
     dwords = \<lambda>_ _. 0\<rparr>"

definition no_oom :: "nat \<Rightarrow> machine \<Rightarrow> bool \<times> machine" where
  "no_oom n m = (False, m)"

lemma demo_pt:
  obtains pt m where "pt_new no_oom demo_machine = Ret (pt, m)" "pt_invar 0x80300 (pt, m)"
    "pt_view (pt, m) = Map.empty" "unallocated_frames m = 0xff"
proof -
  have "sfa_invar 0x80300 (falloc demo_machine)" "sfa_end (falloc demo_machine) \<le> 2 ^ 44"
    "unallocated_frames demo_machine = 0x100"
    by (simp_all add: demo_machine_def sfa_defs unallocated_frames_def sfa_unallocated_frames_def)
  then show ?thesis
    using pt_new_ok [of "0x80300" demo_machine no_oom] that by fastforce
qed

text \<open>(C1) Mapping a page that is not mapped, with two frames free for intermediate tables, succeeds;
  the page then translates to the given frame with exactly the given permissions (plus valid,
  accessed, dirty), every other page translates as before, no memory outside the page table's own
  frames changes, and no frame of another owner is taken.\<close>

theorem pt_map_refines:
  assumes "pt_invar l (pt, m)" "pt_view (pt, m) (pt_key v) = None" "2 \<le> unallocated_frames m"
    "p < 2 ^ 44"
  shows "\<exists>pt' m'. pt_map oom v p fl (pt, m) = Ret (pt', m') \<and> pt_invar l (pt', m')
    \<and> pt_view (pt', m') = (pt_view (pt, m))(pt_key v \<mapsto> pt_new_entry p fl)
    \<and> pt_translate (pt', m') v = Some p
    \<and> (\<forall>w. pt_key w \<noteq> pt_key v \<longrightarrow> pt_translate (pt', m') w = pt_translate (pt, m) w)
    \<and> sfa_used l (falloc m') - set (pt_frames pt') = sfa_used l (falloc m) - set (pt_frames pt)
    \<and> (\<forall>x. x \<notin> set (pt_frames pt') \<longrightarrow> dwords m' x = dwords m x)"
proof -
  have "pte_ppn (pt_new_entry p fl) = p"
    unfolding pt_new_entry_def by (rule pte_ppn_new [OF assms(4)])
  with pt_map_ok [OF assms(1-3), of oom p fl] show ?thesis
    by (fastforce simp: pt_translate_view)
qed

theorem pt_map_refines_witness:
  "\<exists>pt m s'. pt_new no_oom demo_machine = Ret (pt, m)
     \<and> pt_map no_oom 0x60000 0x80310 (PTE_R OR PTE_W) (pt, m) = Ret s'
     \<and> pt_translate s' 0x60000 = Some 0x80310"
proof -
  obtain pt m where d: "pt_new no_oom demo_machine = Ret (pt, m)" "pt_invar 0x80300 (pt, m)"
    "pt_view (pt, m) = Map.empty" "unallocated_frames m = 0xff"
    by (rule demo_pt)
  then show ?thesis
    using pt_map_refines [of "0x80300" pt m "0x60000" "0x80310" no_oom "PTE_R OR PTE_W"] by fastforce
qed

text \<open>Two virtual pages below \<open>2 ^ 27\<close> (the 39-bit address space) never share an entry; pages
  whose numbers differ by a multiple of \<open>2 ^ 27\<close> always do.\<close>

theorem pt_key_iff: "pt_key v = pt_key w \<longleftrightarrow> v mod 2 ^ 27 = w mod 2 ^ 27"
proof -
  have m: "pt_key (x mod 2 ^ 27) = pt_key x" for x
    using indexes_mod [of 3 x] by (simp add: pt_key_def)
  show ?thesis
    using pt_key_inj [of "v mod 2 ^ 27" "w mod 2 ^ 27"] m by (metis mod_less_divisor zero_less_numeral zero_less_power)
qed

text \<open>With two frames free, \<open>map\<close> panics exactly when the page is already mapped, and \<open>unmap\<close>
  panics exactly when it is not.\<close>

theorem pt_map_unmap_panic_iff:
  assumes "pt_invar l (pt, m)" "2 \<le> unallocated_frames m"
  shows "(pt_map oom v p fl (pt, m) = Panic \<longleftrightarrow> pt_is_mapped pt m v)
    \<and> (pt_unmap v (pt, m) = Panic \<longleftrightarrow> \<not> pt_is_mapped pt m v)"
proof -
  obtain q i where k: "pt_key v = q @ [i]" "path (pt_key v)"
    by (rule pt_key_split)
  show ?thesis
  proof (cases "pt_view (pt, m) (pt_key v)")
    case None
    then show ?thesis
      using pt_map_ok [OF assms(1) None assms(2), of oom p fl] pt_unmap_absent [of "(pt, m)" v]
        find_pte_view(1) [OF k] by (auto simp: pt_is_mapped_def)
  next
    case (Some e)
    then show ?thesis
      using pt_map_busy [OF Some, of oom p fl] pt_unmap_ok [OF assms(1) Some]
        find_pte_view(2) [OF k Some] by (auto simp: pt_is_mapped_def)
  qed
qed

theorem pt_map_unmap_panic_iff_witness:
  "\<exists>pt m. pt_new no_oom demo_machine = Ret (pt, m) \<and> pt_unmap 7 (pt, m) = Panic
     \<and> pt_map no_oom 7 1 PTE_R (pt, m) \<noteq> Panic"
proof -
  obtain pt m where d: "pt_new no_oom demo_machine = Ret (pt, m)" "pt_invar 0x80300 (pt, m)"
    "pt_view (pt, m) = Map.empty" "unallocated_frames m = 0xff"
    by (rule demo_pt)
  obtain q i where "pt_key 7 = q @ [i]" "path (pt_key 7)"
    by (rule pt_key_split)
  then have "\<not> pt_is_mapped pt m 7"
    using find_pte_view(1) [of 7] d(3) by (simp add: pt_is_mapped_def)
  then show ?thesis
    using pt_map_unmap_panic_iff [of "0x80300" pt m no_oom 7 1 PTE_R] d by auto
qed

text \<open>(C17) Mapping any list of distinct absent pages, with two free frames for each, and unmapping
  them again succeeds and restores the translation of every page.\<close>

theorem pt_map_unmap_range:
  assumes "pt_invar l s" "2 * length ps \<le> unallocated_frames (snd s)"
    "distinct (map (pt_key \<circ> fst) ps)" "\<forall>(v, p)\<in>set ps. pt_translate s v = None"
  shows "\<exists>s1 s2. map_all (pt_map oom) fl ps s = Ret s1 \<and> unmap_all pt_unmap (map fst ps) s1 = Ret s2
    \<and> pt_invar l s2 \<and> (\<forall>w. pt_translate s2 w = pt_translate s w)"
proof -
  have "\<forall>(v, p)\<in>set ps. pt_view s (pt_key v) = None"
    using assms(4) by (auto simp: pt_translate_view)
  moreover have "pt_room (length ps) s"
    using assms(2) by (cases s) (simp add: pt_room_def)
  ultimately show ?thesis
    using sv39.map_unmap_all [OF assms(1) _ assms(3), of oom fl] by (auto simp: pt_translate_view)
qed

theorem pt_map_unmap_range_witness:
  "\<exists>s s1 s2. pt_new no_oom demo_machine = Ret s \<and>
     map_all (pt_map no_oom) PTE_R [(1, 0x80390), (2, 0x80391), (0x40000, 0x80392)] s = Ret s1
     \<and> unmap_all pt_unmap [1, 2, 0x40000] s1 = Ret s2 \<and> pt_translate s2 2 = None"
proof -
  obtain pt m where d: "pt_new no_oom demo_machine = Ret (pt, m)" "pt_invar 0x80300 (pt, m)"
    "pt_view (pt, m) = Map.empty" "unallocated_frames m = 0xff"
    by (rule demo_pt)
  let ?ps = "[(1, 0x80390), (2, 0x80391), (0x40000, 0x80392)] :: (nat \<times> nat) list"
  have "distinct (map (pt_key \<circ> fst) ?ps)"
    by (simp add: pt_key_def numeral_3_eq_3)
  then show ?thesis
    using pt_map_unmap_range [of "0x80300" "(pt, m)" ?ps no_oom PTE_R] d
    by (fastforce simp: pt_translate_view)
qed

text \<open>Changing the permissions of a mapped page sets exactly read, write, execute and user to the
  given ones: the frame it translates to, and the entry of every other page, stay; an unmapped page
  is reported as an error and nothing changes.\<close>

theorem pt_set_pte_flags_correct:
  assumes "pt_invar l s" "flags AND NOT (PTE_R OR PTE_W OR PTE_X OR PTE_U) = 0"
  shows "case pt_view s (pt_key v) of
      None \<Rightarrow> pt_set_pte_flags v flags s = (Inl (), s)
    | Some e \<Rightarrow> \<exists>s'. pt_set_pte_flags v flags s = (Inr (), s') \<and> pt_invar l s'
        \<and> pt_readable s' v = Some (bit flags 1) \<and> pt_writable s' v = Some (bit flags 2)
        \<and> pt_executable s' v = Some (bit flags 3) \<and> pt_is_dirty s' v = pt_is_dirty s v
        \<and> pt_translate s' v = pt_translate s v
        \<and> (\<forall>k. k \<noteq> pt_key v \<longrightarrow> pt_view s' k = pt_view s k)"
proof (cases "pt_view s (pt_key v)")
  case None
  then show ?thesis
    using pt_update_view [OF assms(1), where v = v and g = "pte_set_permission flags"]
    by (simp add: pt_set_pte_flags_def)
next
  case (Some e)
  let ?e = "pte_set_permission flags e"
  have fl: "\<not> bit flags i" if "i \<notin> {1..4}" for i
  proof
    assume b: "bit flags i"
    have p: "bit (push_bit k 1 :: u8) i \<longleftrightarrow> i = k" if "k < 8" for k
      using that by (intro bit_push_bit_1) simp
    have "\<not> bit (PTE_R OR PTE_W OR PTE_X OR PTE_U) i"
      unfolding flag_defs bit_or_iff using that by (subst p, simp)+ auto
    then have "bit (flags AND NOT (PTE_R OR PTE_W OR PTE_X OR PTE_U)) i"
      using b bit_imp_le_length [OF b] by (simp add: bit_and_iff bit_not_iff bit_or_iff)
    then show False unfolding assms(2) by simp
  qed
  have v: "pte_is_valid e"
    using Some by (cases s) (auto simp: pt_view_def pte_view_def entry_def bind_eq_Some_conv split: if_splits)
  have ev: "pte_is_valid ?e"
    using v fl [of 0] by (simp add: pte_bits bit_set_permission)
  have q: "pte_readable ?e = bit flags 1" "pte_writable ?e = bit flags 2"
    "pte_executable ?e = bit flags 3" "pte_is_dirty ?e = pte_is_dirty e"
    using fl [of 7] by (simp_all add: pte_bits bit_set_permission)
  have p: "pte_ppn ?e = pte_ppn e"
    unfolding ppn_eq_iff using fl by (auto simp: bit_set_permission)
  show ?thesis
    using pt_update_view [OF assms(1), where v = v and g = "pte_set_permission flags"] Some ev q p
    by (auto simp: pt_set_pte_flags_def pt_readable_def pt_writable_def pt_executable_def
        pt_is_dirty_def pt_query_view pt_translate_view)
qed

theorem pt_set_pte_flags_correct_witness:
  "\<exists>pt m. pt_new no_oom demo_machine = Ret (pt, m)
     \<and> pt_set_pte_flags 5 PTE_R (pt, m) = (Inl (), (pt, m))"
proof -
  obtain pt m where d: "pt_new no_oom demo_machine = Ret (pt, m)" "pt_invar 0x80300 (pt, m)"
    "pt_view (pt, m) = Map.empty" "unallocated_frames m = 0xff"
    by (rule demo_pt)
  then show ?thesis
    using pt_set_pte_flags_correct [of "0x80300" "(pt, m)" PTE_R 5] by (simp add: flag_defs)
qed

text \<open>Revoking the write permission (copy-on-write) makes a mapped page non-writable and keeps
  its frame and its other permissions; \<open>block_and_ret_mut\<close> also returns that frame.\<close>

theorem pt_revoke_write_correct:
  assumes "pt_invar l s" "pt_view s (pt_key v) = Some e"
  shows "\<exists>s'. pt_revoke_write v s = (Inr (), s')
    \<and> pt_block_and_ret_mut v s = (pt_translate s v, s') \<and> pt_invar l s'
    \<and> pt_writable s' v = Some False \<and> pt_readable s' v = pt_readable s v
    \<and> pt_executable s' v = pt_executable s v \<and> pt_translate s' v = pt_translate s v
    \<and> (\<forall>k. k \<noteq> pt_key v \<longrightarrow> pt_view s' k = pt_view s k)"
proof -
  obtain pt m where s: "s = (pt, m)" by (cases s)
  let ?e = "pte_revoke_write e"
  have q: "pte_writable ?e = False" "pte_readable ?e = pte_readable e"
    "pte_executable ?e = pte_executable e" "pte_is_valid ?e = pte_is_valid e"
    by (simp_all add: pte_bits bit_revoke)
  have p: "pte_ppn ?e = pte_ppn e"
    unfolding ppn_eq_iff by (auto simp: bit_revoke)
  show ?thesis
    by (rule pt_slot [OF assms [unfolded s]])
      (simp add: s pt_revoke_write_def pt_update_def pt_block_and_ret_mut_def assms(2) [unfolded s]
        pt_writable_def pt_readable_def pt_executable_def pt_query_view pt_translate_view q p
        dwords_mem_write)
qed

theorem pt_revoke_write_correct_witness:
  "\<exists>pt m s1 s2. pt_new no_oom demo_machine = Ret (pt, m)
     \<and> pt_map no_oom 5 0x80399 (PTE_R OR PTE_W) (pt, m) = Ret s1
     \<and> pt_revoke_write 5 s1 = (Inr (), s2) \<and> pt_writable s2 5 = Some False"
proof -
  obtain pt m where d: "pt_new no_oom demo_machine = Ret (pt, m)" "pt_invar 0x80300 (pt, m)"
    "pt_view (pt, m) = Map.empty" "unallocated_frames m = 0xff"
    by (rule demo_pt)
  then obtain s1 where s1: "pt_map no_oom 5 0x80399 (PTE_R OR PTE_W) (pt, m) = Ret s1"
    "pt_invar 0x80300 s1" "pt_view s1 (pt_key 5) \<noteq> None"
    using pt_map_ok [of "0x80300" pt m 5 no_oom "0x80399" "PTE_R OR PTE_W"] by fastforce
  then show ?thesis
    using pt_revoke_write_correct [of "0x80300" s1 5] d(1) by blast
qed

text \<open>The \<open>satp\<close> token of a page table whose root lies below \<open>2 ^ 44\<close> identifies it: a table
  rebuilt from the token translates every page and every address the same way, and a translated
  address keeps its offset in the page.\<close>

theorem pt_token_roundtrip:
  assumes "root_ppn pt < 2 ^ 44"
  shows "root_ppn (pt_from_token (pt_token pt)) = root_ppn pt
    \<and> pt_translate (pt_from_token (pt_token pt), m) v = pt_translate (pt, m) v
    \<and> pt_translate_va (pt_from_token (pt_token pt), m) a = pt_translate_va (pt, m) a"
proof -
  have m: "push_bit 44 1 - 1 = (mask 44 :: usize)"
    by (simp add: mask_eq_exp_minus_1)
  have "pt_token pt AND mask 44 = of_nat (root_ppn pt)"
  proof (rule bit_word_eqI)
    fix n assume "n < LENGTH(64)"
    have t: "pt_token pt = push_bit 63 1 OR of_nat (root_ppn pt)"
      by (simp add: pt_token_def)
    have "bit (push_bit 63 1 :: usize) n \<longleftrightarrow> n = 63"
      by (intro bit_push_bit_1) simp
    moreover have "n < 44" if "bit (root_ppn pt) n"
      using bit_nat_bound [OF assms that] .
    ultimately show "bit (pt_token pt AND mask 44) n \<longleftrightarrow> bit (of_nat (root_ppn pt) :: usize) n"
      using \<open>n < LENGTH(64)\<close>
      unfolding t bit_and_iff bit_or_iff bit_mask_iff by (auto simp: bit_of_nat_iff)
  qed
  then have "root_ppn (pt_from_token (pt_token pt)) = root_ppn pt"
    unfolding pt_from_token_def m using assms
    by (simp add: unsigned_of_nat take_bit_nat_eq_self)
  then show ?thesis
    by (simp add: pt_translate_def pt_translate_va_def find_pte_def)
qed

theorem pt_token_roundtrip_witness:
  "root_ppn (pt_from_token (pt_token \<lparr>root_ppn = 0x80300, pt_frames = []\<rparr>)) = 0x80300"
  using pt_token_roundtrip [of "\<lparr>root_ppn = 0x80300, pt_frames = []\<rparr>"] by simp

end
