(* ===== verification/User_Buffer.thy ===== *)
theory User_Buffer
  imports Address
begin

text \<open>
  \<open>UserBuffer\<close> of \<open>mm/page_table.rs\<close>: a byte range of user memory as a list of slices.  Physical memory is a
  function from addresses to bytes; a slice \<open>&'static mut [u8]\<close> is its address and length, so that two slices may
  alias.  The lemmas show that reads, writes, indexing and iteration act on the concatenation of the slices.
\<close>

section \<open>Memory and slices\<close>

type_synonym memory = "usize \<Rightarrow> u8"
type_synonym slice = "usize \<times> nat"

definition mem_read :: "usize \<Rightarrow> nat \<Rightarrow> memory \<Rightarrow> u8 list" where
  "mem_read a n m = map (\<lambda>i. m (a + of_nat i)) [0..<n]"

fun mem_store :: "usize \<Rightarrow> u8 list \<Rightarrow> memory \<Rightarrow> memory" where
  "mem_store a [] m = m"
| "mem_store a (b # bs) m = mem_store (a + 1) bs (m(a := b))"

text \<open>\<open>dst[start..start + src.len()].copy_from_slice(src)\<close> on a kernel buffer, and the subslice
  \<open>buffer[lo..hi]\<close>; both panic when the range is not inside.\<close>

definition copy_at :: "nat \<Rightarrow> u8 list \<Rightarrow> u8 list \<Rightarrow> u8 list outcome" where
  "copy_at start src dst =
     (if start + length src \<le> length dst then Ret (take start dst @ src @ drop (start + length src) dst) else Panic)"

definition subslice :: "slice \<Rightarrow> nat \<Rightarrow> nat \<Rightarrow> slice outcome" where
  "subslice = (\<lambda>(a, n) lo hi. if lo \<le> hi \<and> hi \<le> n then Ret (a + of_nat lo, hi - lo) else Panic)"

definition sublist :: "'a list \<Rightarrow> nat \<Rightarrow> nat \<Rightarrow> 'a list outcome" where
  "sublist xs lo hi = (if lo \<le> hi \<and> hi \<le> length xs then Ret (take (hi - lo) (drop lo xs)) else Panic)"

text \<open>\<open>slice.copy_from_slice(src)\<close> into memory panics on different lengths.\<close>

definition slice_store :: "slice \<Rightarrow> u8 list \<Rightarrow> memory \<Rightarrow> memory outcome" where
  "slice_store sl src m = (if length src = snd sl then Ret (mem_store (fst sl) src m) else Panic)"

section \<open>UserBuffer\<close>

record user_buffer =
  ub_buffers :: "slice list"
  ub_len :: nat

definition ub_new :: "slice list \<Rightarrow> user_buffer" where
  "ub_new bufs = \<lparr>ub_buffers = bufs, ub_len = sum_list (map snd bufs)\<rparr>"

primrec ub_read_loop :: "memory \<Rightarrow> nat \<Rightarrow> slice list \<Rightarrow> nat \<Rightarrow> u8 list \<Rightarrow> (nat \<times> u8 list) outcome" where
  "ub_read_loop m len [] start dst = Ret (len, dst)"
| "ub_read_loop m len (b # bs) start dst =
     (let end = start + snd b in
      if end > length dst then
        bind_outcome (subslice b 0 (length dst - start)) (\<lambda>s.
        bind_outcome (copy_at start (mem_read (fst s) (snd s) m) dst) (\<lambda>dst. Ret (length dst, dst)))
      else
        bind_outcome (copy_at start (mem_read (fst b) (snd b) m) dst) (\<lambda>dst. ub_read_loop m len bs end dst))"

definition ub_read :: "memory \<Rightarrow> user_buffer \<Rightarrow> u8 list \<Rightarrow> (nat \<times> u8 list) outcome" where
  "ub_read m ub dst = ub_read_loop m (ub_len ub) (ub_buffers ub) 0 dst"

primrec ub_write_loop :: "u8 list \<Rightarrow> nat \<Rightarrow> slice list \<Rightarrow> nat \<Rightarrow> memory \<Rightarrow> (nat \<times> memory) outcome" where
  "ub_write_loop src len [] start m = Ret (len, m)"
| "ub_write_loop src len (b # bs) start m =
     (let end = start + snd b in
      if end > length src then
        bind_outcome (subslice b 0 (length src - start)) (\<lambda>s.
        bind_outcome (sublist src start (length src)) (\<lambda>x.
        bind_outcome (slice_store s x m) (\<lambda>m. Ret (length src, m))))
      else
        bind_outcome (sublist src start end) (\<lambda>x.
        bind_outcome (slice_store b x m) (\<lambda>m. ub_write_loop src len bs end m)))"

definition ub_write :: "user_buffer \<Rightarrow> u8 list \<Rightarrow> memory \<Rightarrow> (nat \<times> memory) outcome" where
  "ub_write ub src m = ub_write_loop src (ub_len ub) (ub_buffers ub) 0 m"

primrec ub_read_at_loop :: "memory \<Rightarrow> nat \<Rightarrow> slice list \<Rightarrow> nat \<Rightarrow> nat \<Rightarrow> u8 list \<Rightarrow> (nat \<times> u8 list) outcome" where
  "ub_read_at_loop m offset [] dst_start read_bytes dst = Ret (read_bytes, dst)"
| "ub_read_at_loop m offset (b # bs) dst_start read_bytes dst =
     (let dst_end = dst_start + snd b;
          copy_dst_start = max dst_start offset;
          copy_dst_end = min dst_end (length dst + offset) in
      if copy_dst_start \<ge> copy_dst_end then ub_read_at_loop m offset bs dst_end read_bytes dst
      else
        bind_outcome (subslice b (copy_dst_start - dst_start) (copy_dst_end - dst_start)) (\<lambda>s.
        bind_outcome (copy_at (copy_dst_start - offset) (mem_read (fst s) (snd s) m) dst) (\<lambda>dst.
          ub_read_at_loop m offset bs dst_end (read_bytes + (copy_dst_end - copy_dst_start)) dst)))"

definition ub_read_at :: "memory \<Rightarrow> user_buffer \<Rightarrow> nat \<Rightarrow> u8 list \<Rightarrow> (nat \<times> u8 list) outcome" where
  "ub_read_at m ub offset dst =
     (if offset \<ge> ub_len ub then Ret (0, dst) else ub_read_at_loop m offset (ub_buffers ub) 0 0 dst)"

primrec ub_write_at_loop :: "u8 list \<Rightarrow> nat \<Rightarrow> slice list \<Rightarrow> nat \<Rightarrow> nat \<Rightarrow> memory \<Rightarrow> (nat \<times> memory) outcome" where
  "ub_write_at_loop src offset [] dst_start write_bytes m = Ret (write_bytes, m)"
| "ub_write_at_loop src offset (b # bs) dst_start write_bytes m =
     (let dst_end = dst_start + snd b;
          copy_dst_start = max dst_start offset;
          copy_dst_end = min dst_end (length src + offset) in
      if copy_dst_start \<ge> copy_dst_end then ub_write_at_loop src offset bs dst_end write_bytes m
      else
        bind_outcome (subslice b (copy_dst_start - dst_start) (copy_dst_end - dst_start)) (\<lambda>s.
        bind_outcome (sublist src (copy_dst_start - offset) (copy_dst_end - offset)) (\<lambda>x.
        bind_outcome (slice_store s x m) (\<lambda>m.
          ub_write_at_loop src offset bs dst_end (write_bytes + (copy_dst_end - copy_dst_start)) m))))"

definition ub_write_at :: "user_buffer \<Rightarrow> nat \<Rightarrow> u8 list \<Rightarrow> memory \<Rightarrow> (nat \<times> memory) outcome" where
  "ub_write_at ub offset src m =
     (if offset \<ge> ub_len ub then Ret (0, m) else ub_write_at_loop src offset (ub_buffers ub) 0 0 m)"

definition ub_clear :: "user_buffer \<Rightarrow> memory \<Rightarrow> memory" where
  "ub_clear ub m = fold (\<lambda>(a, n). mem_store a (replicate n 0)) (ub_buffers ub) m"

text \<open>\<open>index\<close> and \<open>index_mut\<close> return the place of a byte; falling off the end is \<open>unreachable!()\<close>.\<close>

fun ub_index_loop :: "slice list \<Rightarrow> nat \<Rightarrow> usize outcome" where
  "ub_index_loop [] left = Panic"
| "ub_index_loop ((a, n) # bs) left = (if left < n then Ret (a + of_nat left) else ub_index_loop bs (left - n))"

definition ub_index :: "user_buffer \<Rightarrow> nat \<Rightarrow> usize outcome" where
  "ub_index ub index = (if index < ub_len ub then ub_index_loop (ub_buffers ub) index else Panic)"

record user_buffer_iterator =
  it_buffers :: "slice list"
  it_current_buffer :: nat
  it_current_idx :: nat

definition ub_into_iter :: "user_buffer \<Rightarrow> user_buffer_iterator" where
  "ub_into_iter ub = \<lparr>it_buffers = ub_buffers ub, it_current_buffer = 0, it_current_idx = 0\<rparr>"

definition ub_iter_next :: "user_buffer_iterator \<Rightarrow> (usize option \<times> user_buffer_iterator) outcome" where
  "ub_iter_next it =
     (if it_current_buffer it \<ge> length (it_buffers it) then Ret (None, it)
      else
        let b = it_buffers it ! it_current_buffer it in
        if it_current_idx it < snd b then
          Ret (Some (fst b + of_nat (it_current_idx it)),
            if it_current_idx it + 1 = snd b
            then it\<lparr>it_current_idx := 0, it_current_buffer := it_current_buffer it + 1\<rparr>
            else it\<lparr>it_current_idx := it_current_idx it + 1\<rparr>)
        else Panic)"

section \<open>Lemmas on buffers\<close>

text \<open>A slice covers a span of addresses, and a list of slices the concatenation of the spans: a read maps the
  memory over it, and a write stores byte after byte along it, whether or not slices alias.\<close>

definition span :: "usize \<Rightarrow> nat \<Rightarrow> usize list" where
  "span a n = map (\<lambda>i. a + of_nat i) [0..<n]"

definition addrs :: "slice list \<Rightarrow> usize list" where
  "addrs bufs = concat (map (\<lambda>b. span (fst b) (snd b)) bufs)"

definition store_all :: "usize list \<Rightarrow> u8 list \<Rightarrow> memory \<Rightarrow> memory" where
  "store_all xs bs m = fold (\<lambda>(a, b) m. m(a := b)) (zip xs bs) m"

text \<open>Writing \<open>xs\<close> over \<open>ys\<close> from position \<open>k\<close>, cut off at the end of \<open>ys\<close>.\<close>

definition overlay :: "nat \<Rightarrow> 'a list \<Rightarrow> 'a list \<Rightarrow> 'a list" where
  "overlay k xs ys = take k ys @ take (length ys - k) xs @ drop (k + length xs) ys"

lemma length_span [simp]: "length (span a n) = n"
  by (simp add: span_def)

lemma nth_span [simp]: "i < n \<Longrightarrow> span a n ! i = a + of_nat i"
  by (simp add: span_def)

lemma span_0 [simp]: "span a 0 = []"
  by (simp add: span_def)

lemma span_add: "span a (n + k) = span a n @ span (a + of_nat n) k"
  by (rule nth_equalityI) (auto simp: nth_append)

lemma take_span [simp]: "take k (span a n) = span a (min k n)"
  by (rule nth_equalityI) auto

lemma drop_span [simp]: "drop k (span a n) = span (a + of_nat k) (n - k)"
  by (rule nth_equalityI) (auto simp: algebra_simps)

lemma mem_read_span: "mem_read a n m = map m (span a n)"
  by (simp add: mem_read_def span_def)

lemma addrs_simps [simp]: "addrs [] = []" "addrs (b # bs) = span (fst b) (snd b) @ addrs bs"
  "addrs (as @ bs) = addrs as @ addrs bs"
  by (simp_all add: addrs_def)

lemma length_addrs: "length (addrs bufs) = sum_list (map snd bufs)"
  by (induction bufs) simp_all

lemma store_all_Nil [simp]: "store_all [] bs m = m" "store_all xs [] m = m"
  by (simp_all add: store_all_def)

lemma store_all_take: "length xs \<le> n \<Longrightarrow> store_all xs (take n bs) m = store_all xs bs m"
proof -
  assume "length xs \<le> n"
  then have "zip xs (take n bs) = zip xs bs" by (intro nth_equalityI) auto
  then show ?thesis by (simp add: store_all_def)
qed

lemma store_all_min: "store_all (take (length bs) xs) bs m = store_all xs bs m"
proof -
  have "zip (take (length bs) xs) bs = zip xs bs" by (intro nth_equalityI) auto
  then show ?thesis by (simp add: store_all_def)
qed

lemma store_all_append:
  "store_all (xs @ ys) bs m = store_all ys (drop (length xs) bs) (store_all xs bs m)"
proof -
  have "store_all (xs @ ys) bs m = store_all ys (drop (length xs) bs) (store_all xs (take (length xs) bs) m)"
    by (simp add: store_all_def zip_append1)
  then show ?thesis by (simp add: store_all_take)
qed

lemma mem_store_span: "mem_store a bs m = store_all (span a (length bs)) bs m"
proof (induction bs arbitrary: a m)
  case (Cons b bs)
  have "span a (Suc (length bs)) = a # span (a + 1) (length bs)"
    using span_add [of a 1 "length bs"] by (simp add: span_def)
  then show ?case using Cons by (simp add: store_all_def)
qed simp

lemma length_overlay [simp]: "length (overlay k xs ys) = length ys"
  by (auto simp: overlay_def)

lemma nth_overlay:
  "j < length ys \<Longrightarrow> overlay k xs ys ! j = (if k \<le> j \<and> j < k + length xs then xs ! (j - k) else ys ! j)"
  by (auto simp: overlay_def nth_append min_def not_less)

lemma overlay_Nil [simp]: "overlay k [] ys = ys"
  by (rule nth_equalityI) (auto simp: nth_overlay)

lemma overlay_overlay: "overlay (k + length a) b (overlay k a ys) = overlay k (a @ b) ys"
  by (rule nth_equalityI) (auto simp: nth_overlay nth_append)

lemma overlay_take: "overlay k (take (length ys - k) xs) ys = overlay k xs ys"
  by (rule nth_equalityI) (auto simp: nth_overlay)

lemma copy_at_overlay: "start + length xs \<le> length dst \<Longrightarrow> copy_at start xs dst = Ret (overlay start xs dst)"
  by (auto simp: copy_at_def overlay_def)

lemma ub_read_loop_spec:
  "start \<le> length dst \<Longrightarrow> ub_read_loop m len bufs start dst =
     Ret (if start + sum_list (map snd bufs) \<le> length dst then len else length dst, overlay start (map m (addrs bufs)) dst)"
proof (induction bufs arbitrary: start dst)
  case (Cons b bs)
  obtain a n where b: "b = (a, n)" by (rule prod.exhaust)
  show ?case
  proof (cases "start + n \<le> length dst")
    case True
    then show ?thesis
      using Cons.IH [of "start + n" "overlay start (map m (span a n)) dst"] overlay_overlay [of start "map m (span a n)" _ dst]
      by (simp add: b mem_read_span copy_at_overlay Let_def ac_simps)
  next
    case False
    have "overlay start (map m (span a (length dst - start))) dst = overlay start (map m (span a n @ addrs bs)) dst"
      using False Cons.prems by (intro nth_equalityI) (auto simp: nth_overlay nth_append)
    then show ?thesis
      using False Cons.prems by (simp add: b mem_read_span copy_at_overlay subslice_def Let_def)
  qed
qed simp

lemma ub_write_loop_spec:
  "start \<le> length src \<Longrightarrow> ub_write_loop src len bufs start m =
     Ret (if start + sum_list (map snd bufs) \<le> length src then len else length src, store_all (addrs bufs) (drop start src) m)"
proof (induction bufs arbitrary: start m)
  case (Cons b bs)
  obtain a n where b: "b = (a, n)" by (rule prod.exhaust)
  show ?case
  proof (cases "start + n \<le> length src")
    case True
    then show ?thesis
      by (simp add: b sublist_def slice_store_def mem_store_span Cons.IH store_all_append store_all_take Let_def ac_simps)
  next
    case False
    then have "store_all (span a (length src - start)) (drop start src) m = store_all (span a n) (drop start src) m"
      using span_add [of a "length src - start" "n - (length src - start)"] by (simp add: store_all_append)
    then show ?thesis
      using False Cons.prems
      by (simp add: b sublist_def subslice_def slice_store_def mem_store_span store_all_append Let_def)
  qed
qed simp

text \<open>\<open>read_at\<close> and \<open>write_at\<close> intersect each buffer with the wanted interval; together the pieces are one copy.\<close>

lemma ub_read_at_loop_spec:
  "ub_read_at_loop m offset bufs d n dst =
     Ret (n + (min (d + sum_list (map snd bufs)) (length dst + offset) - max d offset),
          overlay (d - offset) (map m (drop (offset - d) (addrs bufs))) dst)"
proof (induction bufs arbitrary: d n dst)
  case (Cons b bs)
  obtain a k where b: "b = (a, k)" by (rule prod.exhaust)
  define lo hi where lo: "lo = max d offset" and hi: "hi = min (d + k) (length dst + offset)"
  let ?xs = "map m (drop (offset - (d + k)) (addrs bs))"
  let ?all = "overlay (d - offset) (map m (drop (offset - d) (span a k @ addrs bs))) dst"
  show ?case
  proof (cases "lo \<ge> hi")
    case True
    then have "overlay (d + k - offset) ?xs dst = ?all"
      by (intro nth_equalityI) (auto simp: lo hi nth_overlay nth_append length_addrs max_def min_def split: if_splits)
    then show ?thesis
      using True by (simp add: b Let_def Cons.IH lo hi)
  next
    case False
    let ?dst = "overlay (lo - offset) (map m (span (a + of_nat (lo - d)) (hi - lo))) dst"
    have "overlay (d + k - offset) ?xs ?dst = ?all"
      using False by (intro nth_equalityI)
        (auto simp: lo hi nth_overlay nth_append length_addrs max_def min_def add.commute split: if_splits)
    moreover have "n + (hi - lo) + (min (d + k + sum_list (map snd bs)) (length dst + offset) - max (d + k) offset)
        = n + (min (d + (k + sum_list (map snd bs))) (length dst + offset) - lo)"
      using False unfolding lo hi by (auto simp: min_def max_def split: if_splits)
    moreover have "subslice (a, k) (lo - d) (hi - d) = Ret (a + of_nat (lo - d), hi - lo)"
      using False by (auto simp: subslice_def lo hi)
    moreover have "copy_at (lo - offset) (map m (span (a + of_nat (lo - d)) (hi - lo))) dst = Ret ?dst"
      using False by (intro copy_at_overlay) (auto simp: lo hi)
    ultimately show ?thesis
      using False by (simp add: b Let_def Cons.IH mem_read_span lo [symmetric] hi [symmetric] del: of_nat_diff)
  qed
qed simp

lemma ub_write_at_loop_spec:
  "ub_write_at_loop src offset bufs d n m =
     Ret (n + (min (d + sum_list (map snd bufs)) (length src + offset) - max d offset),
          store_all (drop (offset - d) (addrs bufs)) (drop (d - offset) src) m)"
proof (induction bufs arbitrary: d n m)
  case (Cons b bs)
  obtain a k where b: "b = (a, k)" by (rule prod.exhaust)
  define lo hi where lo: "lo = max d offset" and hi: "hi = min (d + k) (length src + offset)"
  let ?here = "store_all (span (a + of_nat (offset - d)) (k - (offset - d))) (drop (d - offset) src) m"
  have cut: "store_all (drop (offset - d) (span a k @ addrs bs)) (drop (d - offset) src) m
      = store_all (drop (offset - (d + k)) (addrs bs)) (drop (d + k - offset) src) ?here"
  proof (cases "offset \<le> d + k")
    case True
    then have "k + (d - offset) - (offset - d) = d + k - offset" by linarith
    then show ?thesis using True by (simp add: store_all_append ac_simps)
  qed (auto simp: store_all_append)
  show ?case
  proof (cases "lo \<ge> hi")
    case True
    then have "?here = m"
      by (cases "k \<le> offset - d") (auto simp: lo hi)
    then show ?thesis
      using True cut by (simp add: b Let_def Cons.IH lo hi)
  next
    case False
    then have eqs: "lo - d = offset - d" "lo - offset = d - offset"
      "hi - lo = min (length (drop (d - offset) src)) (k - (offset - d))" by (auto simp: lo hi min_def max_def split: if_splits)
    have "store_all (span (a + of_nat (lo - d)) (hi - lo)) (take (hi - lo) (drop (lo - offset) src)) m = ?here"
      using store_all_min [of "drop (d - offset) src" "span (a + of_nat (offset - d)) (k - (offset - d))" m]
      by (simp only: eqs store_all_take length_span take_span order_refl)
    moreover have "n + (hi - lo) + (min (d + k + sum_list (map snd bs)) (length src + offset) - max (d + k) offset)
        = n + (min (d + (k + sum_list (map snd bs))) (length src + offset) - lo)"
      using False unfolding lo hi by (auto simp: min_def max_def split: if_splits)
    moreover have "subslice (a, k) (lo - d) (hi - d) = Ret (a + of_nat (lo - d), hi - lo)"
      "sublist src (lo - offset) (hi - offset) = Ret (take (hi - lo) (drop (lo - offset) src))"
      "length (take (hi - lo) (drop (lo - offset) src)) = hi - lo"
      using False by (auto simp: subslice_def sublist_def lo hi)
    ultimately show ?thesis
      using False cut
      by (simp add: b Let_def Cons.IH slice_store_def mem_store_span lo [symmetric] hi [symmetric]
          del: of_nat_diff length_take)
  qed
qed simp

lemma ub_index_loop_spec:
  "ub_index_loop bufs i = (if i < sum_list (map snd bufs) then Ret (addrs bufs ! i) else Panic)"
  by (induction bufs i rule: ub_index_loop.induct) (auto simp: nth_append)

text \<open>What an iterator has still to yield.\<close>

definition it_rest :: "user_buffer_iterator \<Rightarrow> usize list" where
  "it_rest it = drop (it_current_idx it) (addrs (drop (it_current_buffer it) (it_buffers it)))"

definition it_ok :: "user_buffer_iterator \<Rightarrow> bool" where
  "it_ok it \<longleftrightarrow> (\<forall>b \<in> set (it_buffers it). 0 < snd b) \<and>
     (it_current_buffer it < length (it_buffers it) \<longrightarrow> it_current_idx it < snd (it_buffers it ! it_current_buffer it))"

lemma ub_iter_next_spec:
  assumes "it_ok it"
  shows "\<exists>it'. ub_iter_next it = Ret (case it_rest it of [] \<Rightarrow> None | x # _ \<Rightarrow> Some x, it')
    \<and> it_ok it' \<and> it_rest it' = tl (it_rest it)"
proof (cases "it_current_buffer it < length (it_buffers it)")
  case False
  then show ?thesis using assms by (simp add: ub_iter_next_def it_rest_def)
next
  case True
  let ?b = "it_buffers it ! it_current_buffer it"
  have idx: "it_current_idx it < snd ?b" using assms True by (simp add: it_ok_def)
  have d: "drop (it_current_buffer it) (it_buffers it) = ?b # drop (Suc (it_current_buffer it)) (it_buffers it)"
    using True by (simp add: Cons_nth_drop_Suc)
  have sp: "span x n = x # span (x + 1) (n - 1)" if "0 < n" for x n
    using that span_add [of x 1 "n - 1"] by (simp add: span_def)
  have rest: "it_rest it = (fst ?b + of_nat (it_current_idx it))
      # span (fst ?b + of_nat (it_current_idx it) + 1) (snd ?b - it_current_idx it - 1)
      @ addrs (drop (Suc (it_current_buffer it)) (it_buffers it))"
    using idx sp [of "snd ?b - it_current_idx it" "fst ?b + of_nat (it_current_idx it)"] by (simp add: it_rest_def d)
  show ?thesis
  proof (cases "it_current_idx it + 1 = snd ?b")
    case e: True
    then show ?thesis using assms idx True rest
      by (auto simp: ub_iter_next_def it_ok_def Let_def it_rest_def)
  next
    case e: False
    then show ?thesis using assms idx True rest
      by (auto simp: ub_iter_next_def it_ok_def Let_def it_rest_def d algebra_simps)
  qed
qed

text \<open>Stores along different addresses.\<close>

lemma store_all_other: "x \<notin> set xs \<Longrightarrow> store_all xs bs m x = m x"
proof (induction xs arbitrary: bs m)
  case (Cons a xs)
  then show ?case by (cases bs) (auto simp: store_all_def)
qed simp

lemma store_all_nth:
  "distinct xs \<Longrightarrow> i < length xs \<Longrightarrow> length bs = length xs \<Longrightarrow> store_all xs bs m (xs ! i) = bs ! i"
proof (induction xs arbitrary: bs m i)
  case (Cons a xs)
  then obtain b bs' where bs: "bs = b # bs'" by (cases bs) auto
  have c: "store_all (a # xs) bs m = store_all xs bs' (m(a := b))" by (simp add: bs store_all_def)
  show ?case
  proof (cases i)
    case 0
    then show ?thesis using Cons.prems(1) unfolding c by (simp add: store_all_other bs)
  next
    case (Suc j)
    then show ?thesis using Cons unfolding c by (simp add: bs)
  qed
qed simp

section \<open>Properties\<close>

text \<open>(C22) A buffer of slices that do not overlap is one array: what \<open>write_at\<close> puts at an offset \<open>read_at\<close> gives back
  from there, both transfer every byte of a request that lies inside, and no other byte of memory changes.\<close>

theorem user_buffer_write_read:
  assumes "distinct (addrs bufs)" "offset + length src \<le> ub_len (ub_new bufs)" "length dst = length src"
  shows "\<exists>m'. ub_write_at (ub_new bufs) offset src m = Ret (length src, m')
    \<and> ub_read_at m' (ub_new bufs) offset dst = Ret (length src, src)
    \<and> (\<forall>x. x \<notin> set (take (length src) (drop offset (addrs bufs))) \<longrightarrow> m' x = m x)"
proof (cases "offset \<ge> ub_len (ub_new bufs)")
  case True
  then have "length src = 0" using assms(2) by linarith
  then have "src = []" "dst = []" using assms(3) by simp_all
  then show ?thesis using True by (simp add: ub_write_at_def ub_read_at_def)
next
  case False
  let ?xs = "drop offset (addrs bufs)"
  let ?m = "store_all ?xs src m"
  have l: "length src \<le> length ?xs" "offset + length src \<le> sum_list (map snd bufs)"
    using assms(2) by (auto simp: ub_new_def length_addrs)
  have m: "?m = store_all (take (length src) ?xs) src m" by (simp add: store_all_min)
  have "?m (?xs ! i) = src ! i" if "i < length src" for i
    using store_all_nth [of "take (length src) ?xs" i src m] assms(1) that l(1) unfolding m by simp
  then have "overlay 0 (map ?m ?xs) dst = src"
    using assms(3) l(1) by (intro nth_equalityI) (auto simp: nth_overlay)
  then show ?thesis
    using False l(2) assms(3) m store_all_other
    by (simp add: ub_write_at_def ub_read_at_def ub_new_def ub_write_at_loop_spec ub_read_at_loop_spec)
qed

theorem user_buffer_write_read_witness:
  "\<exists>m'. ub_write_at (ub_new [(0x80310ffe, 2), (0x80350000, 3)]) 1 [7, 8, 9] (\<lambda>_. 0) = Ret (3, m')
     \<and> ub_read_at m' (ub_new [(0x80310ffe, 2), (0x80350000, 3)]) 1 [0, 0, 0] = Ret (3, [7, 8, 9])"
  using user_buffer_write_read [of "[(0x80310ffe, 2), (0x80350000, 3)]" 1 "[7, 8, 9]" "[0, 0, 0]" "\<lambda>_. 0"]
  by (auto simp: span_def upt_rec ub_new_def)

text \<open>The items an iterator yields in a number of steps.\<close>

primrec ub_iter_run :: "nat \<Rightarrow> user_buffer_iterator \<Rightarrow> usize list outcome" where
  "ub_iter_run 0 it = Ret []"
| "ub_iter_run (Suc n) it = bind_outcome (ub_iter_next it) (\<lambda>(x, it).
     case x of None \<Rightarrow> Ret [] | Some a \<Rightarrow> bind_outcome (ub_iter_run n it) (\<lambda>xs. Ret (a # xs)))"

lemma ub_iter_run_spec: "it_ok it \<Longrightarrow> length (it_rest it) \<le> n \<Longrightarrow> ub_iter_run n it = Ret (it_rest it)"
proof (induction n arbitrary: it)
  case (Suc n)
  from ub_iter_next_spec [OF Suc.prems(1)] obtain it' where
    n: "ub_iter_next it = Ret (case it_rest it of [] \<Rightarrow> None | x # _ \<Rightarrow> Some x, it')" "it_ok it'" "it_rest it' = tl (it_rest it)"
    by blast
  then show ?case using Suc.IH [OF n(2)] Suc.prems(2) by (cases "it_rest it") auto
qed simp

text \<open>Iterating over a buffer of non-empty slices visits exactly the places that indexing returns, in order of the
  index, and then ends; an index outside of the buffer panics.\<close>

theorem user_buffer_iter_index:
  assumes "\<forall>b \<in> set bufs. 0 < snd b"
  shows "\<exists>xs. ub_iter_run (Suc (ub_len (ub_new bufs))) (ub_into_iter (ub_new bufs)) = Ret xs
    \<and> length xs = ub_len (ub_new bufs)
    \<and> (\<forall>i. ub_index (ub_new bufs) i = (if i < length xs then Ret (xs ! i) else Panic))"
proof -
  let ?it = "ub_into_iter (ub_new bufs)"
  have "it_ok ?it" "it_rest ?it = addrs bufs"
    using assms by (auto simp: it_ok_def it_rest_def ub_into_iter_def ub_new_def)
  then have "ub_iter_run (Suc (ub_len (ub_new bufs))) ?it = Ret (addrs bufs)"
    by (subst ub_iter_run_spec) (auto simp: length_addrs ub_new_def)
  then show ?thesis
    by (intro exI [of _ "addrs bufs"]) (auto simp: ub_index_def ub_new_def ub_index_loop_spec length_addrs)
qed

theorem user_buffer_iter_index_witness:
  "\<exists>xs. ub_iter_run 6 (ub_into_iter (ub_new [(0x80310ffe, 2), (0x80350000, 3)])) = Ret xs
     \<and> ub_index (ub_new [(0x80310ffe, 2), (0x80350000, 3)]) 3 = Ret (xs ! 3)"
  using user_buffer_iter_index [of "[(0x80310ffe, 2), (0x80350000, 3)]"] by (auto simp: ub_new_def eval_nat_numeral)

end
