(* ===== verification/User_Access.thy ===== *)
theory User_Access
  imports Page_Table User_Buffer
begin

text \<open>
  Access to user memory of \<open>mm/page_table.rs\<close>: translation of user pointers, byte ranges and strings, and the copies
  between kernel and user memory.  The page table and the page-fault handler come in as a record of operations; the
  lemmas are proved once for every instance that keeps the laws of \<open>user_memory\<close>, and the Sv39 table is shown to be
  one.
\<close>

section \<open>Translation of user pointers\<close>

text \<open>What the functions use of the page table and of \<open>check_page_fault\<close>: \<open>'s\<close> is the state of the tables, which
  the handler may change together with memory.\<close>

record 's mmu =
  mmu_translate :: "'s \<Rightarrow> virt_page_num \<Rightarrow> phys_page_num option"
  mmu_translate_va :: "'s \<Rightarrow> virt_addr \<Rightarrow> phys_addr option"
  mmu_fault :: "virt_addr \<Rightarrow> 's \<times> memory \<Rightarrow> (int + phys_addr) \<times> ('s \<times> memory)"

definition page_or_fault :: "'s mmu \<Rightarrow> virt_page_num \<Rightarrow> 's \<times> memory \<Rightarrow> (int + phys_page_num) \<times> ('s \<times> memory)" where
  "page_or_fault mmu vpn st =
     (case mmu_translate mmu (fst st) vpn of
        Some p \<Rightarrow> (Inr p, st)
      | None \<Rightarrow> (case mmu_fault mmu (addr_of_page vpn) st of (r, st) \<Rightarrow> (map_sum id addr_floor r, st)))"

definition addr_or_fault :: "'s mmu \<Rightarrow> virt_addr \<Rightarrow> 's \<times> memory \<Rightarrow> (int + phys_addr) \<times> ('s \<times> memory)" where
  "addr_or_fault mmu va st =
     (case mmu_translate_va mmu (fst st) va of Some pa \<Rightarrow> (Inr pa, st) | None \<Rightarrow> mmu_fault mmu va st)"

text \<open>The part of frame \<open>p\<close> between two addresses; an end on a page boundary means the rest of the page.\<close>

definition page_slice :: "phys_page_num \<Rightarrow> usize \<Rightarrow> usize \<Rightarrow> slice" where
  "page_slice p start_va end_va =
     (addr_of_page p + page_offset start_va,
      (if page_offset end_va = 0 then PAGE_SIZE else unat (page_offset end_va)) - unat (page_offset start_va))"

text \<open>The loop may run for ever only when the range wraps around the address space.\<close>

partial_function (option) translated_loop ::
  "'s mmu \<Rightarrow> usize \<Rightarrow> usize \<Rightarrow> slice list \<Rightarrow> 's \<times> memory \<Rightarrow> ((int + unit) \<times> slice list \<times> ('s \<times> memory)) option" where
  "translated_loop mmu start end v st =
     (if start < end then
        (case page_or_fault mmu (addr_floor start) st of
           (Inl e, st) \<Rightarrow> Some (Inl e, v, st)
         | (Inr p, st) \<Rightarrow>
             let end_va = min (addr_of_page (addr_floor start + 1)) end
             in translated_loop mmu end_va end (v @ [page_slice p start end_va]) st)
      else Some (Inr (), v, st))"

definition translated_byte_buffer_append_to_existing_vec ::
  "'s mmu \<Rightarrow> slice list \<Rightarrow> usize \<Rightarrow> usize \<Rightarrow> 's \<times> memory \<Rightarrow> ((int + unit) \<times> slice list \<times> ('s \<times> memory)) option" where
  "translated_byte_buffer_append_to_existing_vec mmu existing_vec ptr len st =
     translated_loop mmu ptr (ptr + len) existing_vec st"

definition translated_byte_buffer ::
  "'s mmu \<Rightarrow> usize \<Rightarrow> usize \<Rightarrow> 's \<times> memory \<Rightarrow> ((int + slice list) \<times> ('s \<times> memory)) option" where
  "translated_byte_buffer mmu ptr len st =
     map_option (\<lambda>(r, v, st). (map_sum id (\<lambda>_. v) r, st)) (translated_loop mmu ptr (ptr + len) [] st)"

text \<open>\<open>string.push(ch as char)\<close>: the string is the list of its characters, each one byte's value.\<close>

partial_function (option) translated_str_loop ::
  "'s mmu \<Rightarrow> usize \<Rightarrow> u8 list \<Rightarrow> 's \<times> memory \<Rightarrow> ((int + u8 list) \<times> ('s \<times> memory)) option" where
  "translated_str_loop mmu cur str st =
     (case addr_or_fault mmu cur st of
        (Inl e, st) \<Rightarrow> Some (Inl e, st)
      | (Inr pa, st) \<Rightarrow>
          let ch = snd st pa
          in if ch = 0 then Some (Inr str, st) else translated_str_loop mmu (cur + 1) (str @ [ch]) st)"

definition translated_str :: "'s mmu \<Rightarrow> usize \<Rightarrow> 's \<times> memory \<Rightarrow> ((int + u8 list) \<times> ('s \<times> memory)) option" where
  "translated_str mmu ptr st = translated_str_loop mmu ptr [] st"

definition translated_ref :: "'s mmu \<Rightarrow> usize \<Rightarrow> 's \<times> memory \<Rightarrow> (int + phys_addr) \<times> ('s \<times> memory)" where
  "translated_ref mmu ptr st = addr_or_fault mmu ptr st"

definition translated_refmut :: "'s mmu \<Rightarrow> usize \<Rightarrow> 's \<times> memory \<Rightarrow> (int + phys_addr) \<times> ('s \<times> memory)" where
  "translated_refmut mmu ptr st = addr_or_fault mmu ptr st"

section \<open>Copies\<close>

text \<open>The two ways of a copy: directly when the range lies in one page, through a \<open>UserBuffer\<close> otherwise.  The
  contents of \<open>dst\<close> before a read are an argument.\<close>

definition read_direct ::
  "(int + phys_addr) \<times> ('s \<times> memory) \<Rightarrow> nat \<Rightarrow> ((int + u8 list) \<times> ('s \<times> memory)) outcome option" where
  "read_direct r sz = (case r of (r, st) \<Rightarrow> Some (Ret (map_sum id (\<lambda>pa. mem_read pa sz (snd st)) r, st)))"

definition read_buffered ::
  "'s mmu \<Rightarrow> usize \<Rightarrow> usize \<Rightarrow> u8 list \<Rightarrow> 's \<times> memory \<Rightarrow> ((int + u8 list) \<times> ('s \<times> memory)) outcome option" where
  "read_buffered mmu src sz dst st =
     map_option (\<lambda>(r, st). case r of
         Inl e \<Rightarrow> Ret (Inl e, st)
       | Inr v \<Rightarrow> bind_outcome (ub_read (snd st) (ub_new v) dst) (\<lambda>(_, dst). Ret (Inr dst, st)))
       (translated_byte_buffer mmu src sz st)"

definition write_direct ::
  "(int + phys_addr) \<times> ('s \<times> memory) \<Rightarrow> u8 list \<Rightarrow> ((int + unit) \<times> ('s \<times> memory)) outcome option" where
  "write_direct r src =
     (case r of
        (Inl e, st) \<Rightarrow> Some (Ret (Inl e, st))
      | (Inr pa, st) \<Rightarrow> Some (Ret (Inr (), (fst st, mem_store pa src (snd st)))))"

definition write_buffered ::
  "'s mmu \<Rightarrow> usize \<Rightarrow> usize \<Rightarrow> u8 list \<Rightarrow> 's \<times> memory \<Rightarrow> ((int + unit) \<times> ('s \<times> memory)) outcome option" where
  "write_buffered mmu dst sz src st =
     map_option (\<lambda>(r, st). case r of
         Inl e \<Rightarrow> Ret (Inl e, st)
       | Inr v \<Rightarrow> bind_outcome (ub_write (ub_new v) src (snd st)) (\<lambda>(_, m). Ret (Inr (), (fst st, m))))
       (translated_byte_buffer mmu dst sz st)"

definition copy_from_user ::
  "'s mmu \<Rightarrow> usize \<Rightarrow> u8 list \<Rightarrow> 's \<times> memory \<Rightarrow> ((int + u8 list) \<times> ('s \<times> memory)) outcome option" where
  "copy_from_user mmu src dst st =
     (let sz = of_nat (length dst) in
      if addr_floor src = addr_floor (src + sz - 1) then read_direct (translated_ref mmu src st) (length dst)
      else read_buffered mmu src sz dst st)"

text \<open>For an array the size is computed in \<open>usize\<close>, while the direct copy moves \<open>len\<close> elements.\<close>

definition copy_from_user_array ::
  "'s mmu \<Rightarrow> nat \<Rightarrow> usize \<Rightarrow> u8 list \<Rightarrow> usize \<Rightarrow> 's \<times> memory \<Rightarrow> ((int + u8 list) \<times> ('s \<times> memory)) outcome option" where
  "copy_from_user_array mmu size_of_T src dst len st =
     (let sz = of_nat size_of_T * len in
      if addr_floor src = addr_floor (src + sz - 1)
      then read_direct (addr_or_fault mmu src st) (size_of_T * unat len)
      else read_buffered mmu src sz (take (unat sz) dst) st)"

definition copy_to_user ::
  "'s mmu \<Rightarrow> u8 list \<Rightarrow> usize \<Rightarrow> 's \<times> memory \<Rightarrow> ((int + unit) \<times> ('s \<times> memory)) outcome option" where
  "copy_to_user mmu src dst st =
     (let sz = of_nat (length src) in
      if addr_floor dst = addr_floor (dst + sz - 1) then write_direct (translated_refmut mmu dst st) src
      else write_buffered mmu dst sz src st)"

definition get_from_user ::
  "'s mmu \<Rightarrow> u8 list \<Rightarrow> usize \<Rightarrow> 's \<times> memory \<Rightarrow> ((int + u8 list) \<times> ('s \<times> memory)) outcome option" where
  "get_from_user mmu uninit src st = copy_from_user mmu src uninit st"

definition try_get_from_user ::
  "'s mmu \<Rightarrow> u8 list \<Rightarrow> usize \<Rightarrow> 's \<times> memory \<Rightarrow> ((int + u8 list option) \<times> ('s \<times> memory)) outcome option" where
  "try_get_from_user mmu uninit src st =
     (if src \<noteq> 0
      then map_option (\<lambda>r. bind_outcome r (\<lambda>(r, st). Ret (map_sum id Some r, st))) (get_from_user mmu uninit src st)
      else Some (Ret (Inr None, st)))"

definition copy_to_user_array ::
  "'s mmu \<Rightarrow> nat \<Rightarrow> u8 list \<Rightarrow> usize \<Rightarrow> usize \<Rightarrow> 's \<times> memory \<Rightarrow> ((int + unit) \<times> ('s \<times> memory)) outcome option" where
  "copy_to_user_array mmu size_of_T src dst len st =
     (let sz = of_nat size_of_T * len in
      if addr_floor dst = addr_floor (dst + sz - 1)
      then write_direct (addr_or_fault mmu dst st) (take (size_of_T * unat len) src)
      else write_buffered mmu dst sz (take (unat sz) src) st)"

definition copy_to_user_string ::
  "'s mmu \<Rightarrow> u8 list \<Rightarrow> usize \<Rightarrow> 's \<times> memory \<Rightarrow> ((int + unit) \<times> ('s \<times> memory)) outcome option" where
  "copy_to_user_string mmu src dst st =
     (let sz = of_nat (length src) in
      case addr_or_fault mmu dst st of
        (Inl e, st) \<Rightarrow> Some (Ret (Inl e, st))
      | (Inr dst_ptr, st) \<Rightarrow>
          if addr_floor dst = addr_floor (dst + sz)
          then Some (Ret (Inr (), (fst st, (mem_store dst_ptr src (snd st))(dst_ptr + sz := 0))))
          else
            map_option (\<lambda>r. bind_outcome r (\<lambda>(r, st). case r of
                Inl e \<Rightarrow> Ret (Inl e, st)
              | Inr _ \<Rightarrow> Ret (Inr (), (fst st, (snd st)(dst_ptr + sz := 0)))))
              (write_buffered mmu dst sz src st))"

section \<open>The interface of user memory\<close>

definition phys :: "'s mmu \<Rightarrow> 's \<Rightarrow> usize \<Rightarrow> usize" where
  "phys mmu s va =
     (case mmu_translate mmu s (addr_floor va) of Some p \<Rightarrow> addr_of_page p + page_offset va | None \<Rightarrow> 0)"

definition is_mapped :: "'s mmu \<Rightarrow> 's \<Rightarrow> usize \<Rightarrow> bool" where
  "is_mapped mmu s va \<longleftrightarrow> mmu_translate mmu s (addr_floor va) \<noteq> None"

definition keeps_pages :: "'s mmu \<Rightarrow> 's \<Rightarrow> 's \<Rightarrow> bool" where
  "keeps_pages mmu s s' \<longleftrightarrow> (\<forall>v p. mmu_translate mmu s v = Some p \<longrightarrow> mmu_translate mmu s' v = Some p)"

text \<open>What the user sees at an address, and that no two user pages share a frame.  Sv39 looks at 27 bits of a page
  number only, so this is about the lower half of the address space.\<close>

definition user_byte :: "'s mmu \<Rightarrow> 's \<times> memory \<Rightarrow> usize \<Rightarrow> u8 option" where
  "user_byte mmu st va = (if is_mapped mmu (fst st) va then Some (snd st (phys mmu (fst st) va)) else None)"

definition frames_distinct :: "'s mmu \<Rightarrow> 's \<Rightarrow> bool" where
  "frames_distinct mmu s \<longleftrightarrow>
     (\<forall>v w p. v < 2 ^ 27 \<and> w < 2 ^ 27 \<and> mmu_translate mmu s v = Some p \<and> mmu_translate mmu s w = Some p \<longrightarrow> v = w)"

text \<open>A slice inside one page, and the addresses of one page.\<close>

lemma unat_plus_of_nat: "unat (a :: usize) + k < 2 ^ 64 \<Longrightarrow> unat (a + of_nat k) = unat a + k"
  by (simp add: unat_word_ariths unsigned_of_nat take_bit_nat_eq_self)

lemma in_page:
  fixes x q :: nat
  assumes "q * P \<le> x" "x < (q + 1) * P"
  shows "x div P = q" "x mod P = x - q * P"
proof -
  have "x = q * P + (x - q * P)" "x - q * P < P" using assms by auto
  then show "x div P = q" by (metis add.right_neutral div_less div_mult_self3 gr_implies_not0)
  then show "x mod P = x - q * P" using minus_div_mult_eq_mod [of x P] by simp
qed

lemma same_page:
  assumes "unat a mod PAGE_SIZE + i < PAGE_SIZE"
  shows "addr_floor (a + of_nat i) = addr_floor a" "page_offset (a + of_nat i) = page_offset a + of_nat i"
proof -
  let ?q = "unat a div PAGE_SIZE"
  have a: "unat a = ?q * PAGE_SIZE + unat a mod PAGE_SIZE" by simp
  then have x: "?q * PAGE_SIZE \<le> unat a + i" "unat a + i < (?q + 1) * PAGE_SIZE"
    using assms by (simp_all only: distrib_right)
  have "?q < 2 ^ 52" using unsigned_less [of a, where ?'a = nat] by (simp add: layout_defs)
  then have "(?q + 1) * PAGE_SIZE \<le> 2 ^ 52 * PAGE_SIZE" by (intro mult_le_mono1) simp
  then have "unat a + i < 2 ^ 64" using x(2) by (simp add: layout_defs)
  note u = unat_plus_of_nat [OF this]
  have "(unat a + i) div PAGE_SIZE = ?q" "(unat a + i) mod PAGE_SIZE = unat a mod PAGE_SIZE + i"
    using in_page [OF x] a by (simp, linarith)
  then have "addr_floor (a + of_nat i) = addr_floor a"
    and o: "unat (page_offset (a + of_nat i)) = unat (page_offset a) + i"
    by (simp_all add: addr_floor_nat page_offset_nat u)
  then show "addr_floor (a + of_nat i) = addr_floor a" by blast
  have "page_offset (a + of_nat i) = of_nat (unat (page_offset a) + i)" using o by (metis of_nat_unat ucast_id)
  then show "page_offset (a + of_nat i) = page_offset a + of_nat i" by simp
qed

lemma phys_page_span:
  assumes "mmu_translate mmu s (addr_floor a) = Some p" "unat a mod PAGE_SIZE + n \<le> PAGE_SIZE"
  shows "span (addr_of_page p + page_offset a) n = map (phys mmu s) (span a n)"
    and "\<forall>x \<in> set (span a n). is_mapped mmu s x"
proof -
  have "unat a mod PAGE_SIZE + i < PAGE_SIZE" if "i < n" for i using that assms(2) by simp
  note sp = same_page [OF this]
  show "span (addr_of_page p + page_offset a) n = map (phys mmu s) (span a n)"
    using assms(1) by (intro nth_equalityI) (auto simp: phys_def sp algebra_simps)
  show "\<forall>x \<in> set (span a n). is_mapped mmu s x"
    using assms(1) by (auto simp: span_def is_mapped_def sp)
qed

text \<open>One step of the translation loop: the slice ends at the page or at the end of the range.\<close>

lemma page_step:
  assumes "start < end" "unat end \<le> 2 ^ 64 - PAGE_SIZE"
  defines "e \<equiv> min (addr_of_page (addr_floor start + 1)) end"
  shows "start < e" "e \<le> end" "snd (page_slice p start e) = unat e - unat start"
    "unat start mod PAGE_SIZE + (unat e - unat start) \<le> PAGE_SIZE"
proof -
  let ?q = "unat start div PAGE_SIZE" and ?r = "unat start mod PAGE_SIZE"
  have lt: "unat start < unat end" using assms(1) by (simp add: word_less_nat_alt)
  have q: "unat start = ?q * PAGE_SIZE + ?r" "?r < PAGE_SIZE" by (simp, simp add: layout_defs)
  have b: "?q + 1 < 2 ^ 52" using lt assms(2) by (simp add: layout_defs)
  have n: "unat (addr_of_page (addr_floor start + 1)) = (?q + 1) * PAGE_SIZE"
    using unat_addr_of_page [OF b] by (simp add: addr_floor_nat)
  have e: "unat e = min ((?q + 1) * PAGE_SIZE) (unat end)"
    using n by (auto simp: e_def min_def word_le_nat_alt)
  have s1: "unat start < (?q + 1) * PAGE_SIZE" using q by (simp only: distrib_right)
  show "start < e" "e \<le> end"
    unfolding word_less_nat_alt word_le_nat_alt e using s1 lt by linarith+
  show r: "?r + (unat e - unat start) \<le> PAGE_SIZE" unfolding e using q by (simp only: distrib_right)
  have le: "unat start < unat e" "unat e \<le> (?q + 1) * PAGE_SIZE" unfolding e using lt s1 by linarith+
  show "snd (page_slice p start e) = unat e - unat start"
  proof (cases "unat e = (?q + 1) * PAGE_SIZE")
    case True
    then have "unat (page_offset e) = 0" by (simp add: page_offset_nat)
    then have "page_offset e = 0" by (simp add: unsigned_eq_0_iff)
    then have "snd (page_slice p start e) = PAGE_SIZE - ?r" by (simp add: page_slice_def page_offset_nat)
    then show ?thesis unfolding True using q by (simp only: distrib_right)
  next
    case False
    then have x: "?q * PAGE_SIZE < unat e" "unat e < (?q + 1) * PAGE_SIZE" using le q(1) by linarith+
    then have "unat e mod PAGE_SIZE = unat e - ?q * PAGE_SIZE" "unat e - ?q * PAGE_SIZE \<noteq> 0"
      using in_page(2) [OF less_imp_le x(2)] by simp_all
    then have o: "unat (page_offset e) = unat e - ?q * PAGE_SIZE" "unat (page_offset e) \<noteq> 0" by (simp_all add: page_offset_nat)
    then have "page_offset e \<noteq> 0" by auto
    with o(1) have "snd (page_slice p start e) = unat e - ?q * PAGE_SIZE - ?r" by (simp add: page_slice_def page_offset_nat)
    then show ?thesis using q(1) by linarith
  qed
qed

lemma one_page_iff:
  assumes "0 < n" "unat a + n \<le> 2 ^ 64 - PAGE_SIZE"
  shows "addr_floor a = addr_floor (a + of_nat n - 1) \<longleftrightarrow> unat a mod PAGE_SIZE + n \<le> PAGE_SIZE"
proof -
  have P: "0 < PAGE_SIZE" by (simp add: layout_defs)
  have "a + of_nat n - 1 = a + of_nat (n - 1)" using assms(1) by (simp add: of_nat_diff)
  moreover have "unat (a + of_nat (n - 1)) = unat a + (n - 1)"
    using assms by (intro unat_plus_of_nat) (simp add: layout_defs)
  ultimately have "addr_floor (a + of_nat n - 1) = (unat a + (n - 1)) div PAGE_SIZE"
    unfolding addr_floor_nat by (simp only:)
  moreover have "unat a + (n - 1) = unat a div PAGE_SIZE * PAGE_SIZE + (unat a mod PAGE_SIZE + (n - 1))" by simp
  then have "(unat a + (n - 1)) div PAGE_SIZE = unat a div PAGE_SIZE + (unat a mod PAGE_SIZE + (n - 1)) div PAGE_SIZE"
    using P div_mult_self3 [of PAGE_SIZE "unat a div PAGE_SIZE" "unat a mod PAGE_SIZE + (n - 1)"] by simp
  moreover have "(unat a mod PAGE_SIZE + (n - 1)) div PAGE_SIZE = 0 \<longleftrightarrow> unat a mod PAGE_SIZE + n \<le> PAGE_SIZE"
    using assms(1) P by (auto simp: div_eq_0_iff)
  ultimately show ?thesis by (auto simp: addr_floor_nat)
qed

text \<open>The states that handling faults can lead to.\<close>

inductive faults :: "'s mmu \<Rightarrow> 's \<times> memory \<Rightarrow> 's \<times> memory \<Rightarrow> bool" for mmu where
  faults_refl: "faults mmu st st"
| faults_step: "faults mmu st st' \<Longrightarrow> mmu_fault mmu va st' = (r, st'') \<Longrightarrow> faults mmu st st''"

lemma faults_trans: "faults mmu st' st'' \<Longrightarrow> faults mmu st st' \<Longrightarrow> faults mmu st st''"
  by (induction rule: faults.induct) (auto intro: faults_step)

lemma faults_once: "mmu_fault mmu va st = (r, st') \<Longrightarrow> faults mmu st st'"
  by (rule faults_step [OF faults_refl])

text \<open>What the copies rely on: the two translations agree, and a handled fault leaves the page mapped where it says and
  keeps every page that was mapped.  A private memory also keeps the frames of pages apart and their bytes.\<close>

locale user_memory =
  fixes mmu :: "'s mmu"
  assumes translate_va: "mmu_translate_va mmu s va
      = map_option (\<lambda>p. addr_of_page p + page_offset va) (mmu_translate mmu s (addr_floor va))"
    and page_bound: "mmu_translate mmu s v = Some p \<Longrightarrow> p < 2 ^ 52"
    and fault_maps: "mmu_fault mmu va (s, m) = (Inr pa, (s', m')) \<Longrightarrow>
      mmu_translate mmu s' (addr_floor va) = Some (addr_floor pa) \<and> page_offset pa = page_offset va"
    and fault_keeps: "mmu_fault mmu va (s, m) = (r, (s', m')) \<Longrightarrow> keeps_pages mmu s s'"
begin

lemma faults_keep: "faults mmu st st' \<Longrightarrow> keeps_pages mmu (fst st) (fst st')"
proof (induction rule: faults.induct)
  case (faults_step st st' va r st'')
  then show ?case
    using fault_keeps [of va "fst st'" "snd st'" r "fst st''" "snd st''"] by (simp add: keeps_pages_def)
qed (simp add: keeps_pages_def)

lemma faults_phys:
  "faults mmu (s, m) (s', m') \<Longrightarrow> is_mapped mmu s x \<Longrightarrow> is_mapped mmu s' x \<and> phys mmu s' x = phys mmu s x"
  using faults_keep [of "(s, m)" "(s', m')"] by (auto simp: keeps_pages_def is_mapped_def phys_def)

lemma addr_or_fault_spec:
  assumes "addr_or_fault mmu va (s, m) = (r, (s', m'))"
  shows "faults mmu (s, m) (s', m')" "r = Inr pa \<Longrightarrow> is_mapped mmu s' va \<and> pa = phys mmu s' va"
    "is_mapped mmu s va \<Longrightarrow> r = Inr (phys mmu s va) \<and> s' = s \<and> m' = m"
proof -
  show "faults mmu (s, m) (s', m')"
    using assms by (auto simp: addr_or_fault_def intro: faults_once faults_refl split: option.splits)
  show "is_mapped mmu s va \<Longrightarrow> r = Inr (phys mmu s va) \<and> s' = s \<and> m' = m"
    using assms by (auto simp: addr_or_fault_def translate_va is_mapped_def phys_def)
  assume r: "r = Inr pa"
  show "is_mapped mmu s' va \<and> pa = phys mmu s' va"
  proof (cases "mmu_translate mmu s (addr_floor va)")
    case None
    then have "mmu_fault mmu va (s, m) = (Inr pa, (s', m'))"
      using assms r by (simp add: addr_or_fault_def translate_va)
    then have "mmu_translate mmu s' (addr_floor va) = Some (addr_floor pa)" "page_offset pa = page_offset va"
      using fault_maps by blast+
    then show ?thesis
      using addr_split [of pa] by (simp add: is_mapped_def phys_def page_offset_addr_def addr_of_page_def)
  next
    case (Some p)
    then show ?thesis using assms r by (auto simp: addr_or_fault_def translate_va is_mapped_def phys_def)
  qed
qed

lemma page_or_fault_spec:
  assumes "page_or_fault mmu v (s, m) = (r, (s', m'))" "v < 2 ^ 52"
  shows "faults mmu (s, m) (s', m')" "r = Inr p \<Longrightarrow> mmu_translate mmu s' v = Some p"
    "mmu_translate mmu s v = Some p \<Longrightarrow> r = Inr p \<and> s' = s \<and> m' = m"
proof -
  have "addr_floor (addr_of_page v) = v"
    using unat_addr_of_page [OF assms(2)] by (simp add: addr_floor_nat layout_defs)
  then show "r = Inr p \<Longrightarrow> mmu_translate mmu s' v = Some p"
    using assms(1) fault_maps [of "addr_of_page v" s m]
    by (cases "mmu_fault mmu (addr_of_page v) (s, m)")
      (auto simp: page_or_fault_def split: option.splits prod.splits, case_tac a, auto)
  show "faults mmu (s, m) (s', m')"
    using assms by (auto simp: page_or_fault_def intro: faults_once faults_refl split: option.splits prod.splits)
  show "mmu_translate mmu s v = Some p \<Longrightarrow> r = Inr p \<and> s' = s \<and> m' = m"
    using assms(1) by (simp add: page_or_fault_def)
qed

lemma translated_loop_spec:
  assumes "start \<le> end" "unat end \<le> 2 ^ 64 - PAGE_SIZE"
  shows "\<exists>r v' s' m'. translated_loop mmu start end v (s, m) = Some (r, v @ v', (s', m')) \<and> faults mmu (s, m) (s', m')
    \<and> (r = Inr () \<longrightarrow> addrs v' = map (phys mmu s') (span start (unat end - unat start))
        \<and> (\<forall>x \<in> set (span start (unat end - unat start)). is_mapped mmu s' x) \<and> (\<forall>b \<in> set v'. 0 < snd b))
    \<and> ((\<forall>x \<in> set (span start (unat end - unat start)). is_mapped mmu s x) \<longrightarrow> r = Inr () \<and> s' = s \<and> m' = m)"
  using assms
proof (induction "unat end - unat start" arbitrary: start v s m rule: less_induct)
  case less
  show ?case
  proof (cases "start < end")
    case False
    then have "translated_loop mmu start end v (s, m) = Some (Inr (), v, (s, m))"
      by (subst translated_loop.simps) simp
    then show ?thesis
      using False less.prems by (intro exI [of _ "Inr ()"] exI [of _ "[]"] exI [of _ s] exI [of _ m])
        (auto intro: faults_refl)
  next
    case True
    let ?e = "min (addr_of_page (addr_floor start + 1)) end"
    obtain r s1 m1 where pf: "page_or_fault mmu (addr_floor start) (s, m) = (r, (s1, m1))" by (metis prod.exhaust)
    have v52: "addr_floor start < 2 ^ 52"
      using unsigned_less [of start, where ?'a = nat] by (simp add: addr_floor_nat layout_defs)
    note pg = page_or_fault_spec [OF pf v52]
    show ?thesis
    proof (cases r)
      case (Inl err)
      then have "\<not> is_mapped mmu s start" using pg(3) by (cases "mmu_translate mmu s (addr_floor start)") (auto simp: is_mapped_def)
      moreover have "start \<in> set (span start (unat end - unat start))"
        using True by (force simp: span_def word_less_nat_alt intro!: image_eqI [of _ _ 0])
      ultimately show ?thesis using True pf pg(1) Inl
        by (auto simp: translated_loop.simps [of mmu start])
    next
      case (Inr p)
      note st = page_step [OF True less.prems(2)]
      let ?n = "unat ?e - unat start" and ?k = "unat end - unat ?e"
      have lt: "unat start < unat ?e" "unat ?e \<le> unat end" using st(1,2) by (simp_all add: word_less_nat_alt word_le_nat_alt)
      then have "unat end - unat ?e < unat end - unat start" by simp
      from less.hyps [OF this st(2) less.prems(2), of "v @ [page_slice p start ?e]" s1 m1]
      obtain r' v' s' m' where ih: "translated_loop mmu ?e end (v @ [page_slice p start ?e]) (s1, m1)
            = Some (r', (v @ [page_slice p start ?e]) @ v', (s', m'))"
          "faults mmu (s1, m1) (s', m')"
          "r' = Inr () \<Longrightarrow> addrs v' = map (phys mmu s') (span ?e ?k) \<and> (\<forall>x \<in> set (span ?e ?k). is_mapped mmu s' x)
             \<and> (\<forall>b \<in> set v'. 0 < snd b)"
          "(\<forall>x \<in> set (span ?e ?k). is_mapped mmu s1 x) \<Longrightarrow> r' = Inr () \<and> s' = s1 \<and> m' = m1" by blast
      have sp: "span start (unat end - unat start) = span start ?n @ span ?e ?k"
        using span_add [of start ?n ?k] lt by (simp add: of_nat_diff)
      have tr: "mmu_translate mmu s' (addr_floor start) = Some p" using pg(2) [OF Inr] faults_keep [OF ih(2)] by (simp add: keeps_pages_def)
      note pp = phys_page_span [OF tr st(4)]
      have f: "fst (page_slice p start ?e) = addr_of_page p + page_offset start" by (simp add: page_slice_def)
      have "translated_loop mmu start end v (s, m) = Some (r', v @ page_slice p start ?e # v', (s', m'))"
        using True pf Inr ih(1) by (simp add: translated_loop.simps [of mmu start] Let_def)
      moreover have "addrs (page_slice p start ?e # v') = map (phys mmu s') (span start (unat end - unat start))"
        if "r' = Inr ()"
        using ih(3) [OF that] pp(1) by (simp only: addrs_simps map_append sp st(3) f)
      moreover have "\<forall>x \<in> set (span start (unat end - unat start)). is_mapped mmu s' x"
          "\<forall>b \<in> set (page_slice p start ?e # v'). 0 < snd b" if "r' = Inr ()"
        using ih(3) [OF that] pp(2) st(3) lt(1) by (auto simp: sp)
      moreover have "r' = Inr () \<and> s' = s \<and> m' = m" if "\<forall>x \<in> set (span start (unat end - unat start)). is_mapped mmu s x"
      proof -
        have "start \<in> set (span start ?n)"
          using lt(1) by (force simp: span_def intro!: image_eqI [of _ _ 0])
        then have "is_mapped mmu s start" using that sp by auto
        then have "s1 = s" "m1 = m" using pg(3) by (auto simp: is_mapped_def)
        then show ?thesis using ih(4) that sp by auto
      qed
      ultimately show ?thesis using faults_trans [OF ih(2) pg(1)]
        by (intro exI [of _ r'] exI [of _ "page_slice p start ?e # v'"] exI [of _ s'] exI [of _ m']) blast
    qed
  qed
qed

lemma translated_byte_buffer_spec:
  assumes "unat a + n \<le> 2 ^ 64 - PAGE_SIZE"
  shows "\<exists>r s' m'. translated_byte_buffer mmu a (of_nat n) (s, m) = Some (r, (s', m')) \<and> faults mmu (s, m) (s', m')
    \<and> (\<forall>v. r = Inr v \<longrightarrow> addrs v = map (phys mmu s') (span a n)
        \<and> (\<forall>x \<in> set (span a n). is_mapped mmu s' x) \<and> (\<forall>b \<in> set v. 0 < snd b))
    \<and> ((\<forall>x \<in> set (span a n). is_mapped mmu s x) \<longrightarrow> isl r = False \<and> s' = s \<and> m' = m)"
proof -
  have u: "unat (a + of_nat n) = unat a + n"
    using assms by (intro unat_plus_of_nat) (simp add: layout_defs)
  then have "a \<le> a + of_nat n" "unat (a + of_nat n) \<le> 2 ^ 64 - PAGE_SIZE" "unat (a + of_nat n) - unat a = n"
    using assms by (simp_all add: word_le_nat_alt)
  from translated_loop_spec [OF this(1,2), of "[]" s m, unfolded this(3)] obtain r v s' m' where
    l: "translated_loop mmu a (a + of_nat n) [] (s, m) = Some (r, v, (s', m'))" "faults mmu (s, m) (s', m')"
      "r = Inr () \<longrightarrow> addrs v = map (phys mmu s') (span a n) \<and> (\<forall>x \<in> set (span a n). is_mapped mmu s' x)
         \<and> (\<forall>b \<in> set v. 0 < snd b)"
      "(\<forall>x \<in> set (span a n). is_mapped mmu s x) \<longrightarrow> r = Inr () \<and> s' = s \<and> m' = m" unfolding append_Nil by blast
  have t: "translated_byte_buffer mmu a (of_nat n) (s, m) = Some (map_sum id (\<lambda>_. v) r, (s', m'))"
    using l(1) by (simp add: translated_byte_buffer_def)
  show ?thesis
  proof (cases r)
    case (Inl e)
    then have "\<not> (\<forall>x \<in> set (span a n). is_mapped mmu s x)" using l(4) by blast
    then show ?thesis using t l(2) Inl by (intro exI [of _ "Inl e"] exI [of _ s'] exI [of _ m']) simp
  next
    case (Inr u)
    then show ?thesis using t l(2-4) by (intro exI [of _ "Inr v"] exI [of _ s'] exI [of _ m']) simp
  qed
qed

text \<open>Both ways of a copy are one store or one read along the physical addresses of the range.\<close>

lemma copy_to_user_spec:
  assumes "src \<noteq> []" "unat dst + length src \<le> 2 ^ 64 - PAGE_SIZE"
  shows "\<exists>r s' m'. copy_to_user mmu src dst (s, m) = Some (Ret (r, (s',
        if isl r then m' else store_all (map (phys mmu s') (span dst (length src))) src m')))
    \<and> faults mmu (s, m) (s', m') \<and> (\<not> isl r \<longrightarrow> (\<forall>x \<in> set (span dst (length src)). is_mapped mmu s' x))
    \<and> ((\<forall>x \<in> set (span dst (length src)). is_mapped mmu s x) \<longrightarrow> \<not> isl r \<and> s' = s \<and> m' = m)"
proof (cases "addr_floor dst = addr_floor (dst + of_nat (length src) - 1)")
  case True
  then have pg: "unat dst mod PAGE_SIZE + length src \<le> PAGE_SIZE" using one_page_iff assms by simp
  obtain r s' m' where af: "addr_or_fault mmu dst (s, m) = (r, (s', m'))" by (metis prod.exhaust)
  note sp = addr_or_fault_spec [OF af]
  have in1: "dst \<in> set (span dst (length src))"
    using assms(1) by (force simp: span_def intro!: image_eqI [of _ _ 0])
  show ?thesis
  proof (cases r)
    case (Inl e)
    then show ?thesis using True af sp(1,3) in1
      by (intro exI [of _ "Inl e"] exI [of _ s'] exI [of _ m'])
        (auto simp: copy_to_user_def translated_refmut_def write_direct_def Let_def)
  next
    case (Inr pa)
    then obtain p where p: "mmu_translate mmu s' (addr_floor dst) = Some p" "pa = addr_of_page p + page_offset dst"
      using sp(2) by (auto simp: is_mapped_def phys_def)
    note pp = phys_page_span [OF p(1) pg]
    have "copy_to_user mmu src dst (s, m) = Some (Ret (Inr (), (s', store_all (map (phys mmu s') (span dst (length src))) src m')))"
      using True af Inr pp(1) p(2) by (simp add: copy_to_user_def translated_refmut_def write_direct_def Let_def mem_store_span)
    then show ?thesis using sp(1,3) in1 pp(2)
      by (intro exI [of _ "Inr ()"] exI [of _ s'] exI [of _ m']) auto
  qed
next
  case False
  from translated_byte_buffer_spec [OF assms(2), of s m] obtain r s' m' where
    b: "translated_byte_buffer mmu dst (of_nat (length src)) (s, m) = Some (r, (s', m'))" "faults mmu (s, m) (s', m')"
      "\<And>v. r = Inr v \<Longrightarrow> addrs v = map (phys mmu s') (span dst (length src))
        \<and> (\<forall>x \<in> set (span dst (length src)). is_mapped mmu s' x)"
      "(\<forall>x \<in> set (span dst (length src)). is_mapped mmu s x) \<Longrightarrow> \<not> isl r \<and> s' = s \<and> m' = m" by blast
  show ?thesis
  proof (cases r)
    case (Inl e)
    then show ?thesis using False b
      by (intro exI [of _ "Inl e"] exI [of _ s'] exI [of _ m']) (auto simp: copy_to_user_def write_buffered_def Let_def)
  next
    case (Inr v)
    then have "copy_to_user mmu src dst (s, m) = Some (Ret (Inr (), (s', store_all (map (phys mmu s') (span dst (length src))) src m')))"
      using False b(1,3) by (simp add: copy_to_user_def write_buffered_def ub_write_def ub_new_def ub_write_loop_spec Let_def)
    then show ?thesis using b Inr by (intro exI [of _ "Inr ()"] exI [of _ s'] exI [of _ m']) auto
  qed
qed

lemma copy_from_user_mapped:
  assumes "dst \<noteq> []" "unat src + length dst \<le> 2 ^ 64 - PAGE_SIZE"
    and "\<forall>x \<in> set (span src (length dst)). is_mapped mmu s x"
  shows "copy_from_user mmu src dst (s, m) = Some (Ret (Inr (map m (map (phys mmu s) (span src (length dst)))), (s, m)))"
proof (cases "addr_floor src = addr_floor (src + of_nat (length dst) - 1)")
  case True
  then have pg: "unat src mod PAGE_SIZE + length dst \<le> PAGE_SIZE" using one_page_iff assms by simp
  have "src \<in> set (span src (length dst))"
    using assms(1) by (force simp: span_def intro!: image_eqI [of _ _ 0])
  then have "is_mapped mmu s src" using assms(3) by blast
  then obtain p where p: "mmu_translate mmu s (addr_floor src) = Some p" by (auto simp: is_mapped_def)
  then have "addr_or_fault mmu src (s, m) = (Inr (addr_of_page p + page_offset src), (s, m))"
    by (simp add: addr_or_fault_def translate_va)
  then show ?thesis using True phys_page_span(1) [OF p pg]
    by (simp add: copy_from_user_def translated_ref_def read_direct_def mem_read_span Let_def)
next
  case False
  from translated_byte_buffer_spec [OF assms(2), of s m] assms(3) obtain r where
    r: "translated_byte_buffer mmu src (of_nat (length dst)) (s, m) = Some (r, (s, m))" "\<not> isl r"
    "\<forall>v. r = Inr v \<longrightarrow> addrs v = map (phys mmu s) (span src (length dst))" by blast
  then obtain v where "translated_byte_buffer mmu src (of_nat (length dst)) (s, m) = Some (Inr v, (s, m))"
    "addrs v = map (phys mmu s) (span src (length dst))" by (cases r) auto
  moreover have "overlay 0 xs dst = xs" if "length xs = length dst" for xs using that by (simp add: overlay_def)
  ultimately show ?thesis using False
    by (simp add: copy_from_user_def read_buffered_def ub_read_def ub_new_def ub_read_loop_spec Let_def)
qed

lemma string_crossing:
  assumes "src \<noteq> []" "unat dst + length src \<le> 2 ^ 64 - PAGE_SIZE" "addr_floor dst \<noteq> addr_floor (dst + of_nat (length src))"
    and "\<forall>x \<in> set (span dst (length src)). is_mapped mmu s x"
  shows "copy_to_user_string mmu src dst (s, m) = Some (Ret (Inr (), (s,
      (store_all (map (phys mmu s) (span dst (length src))) src m)(phys mmu s dst + of_nat (length src) := 0))))"
proof -
  have "dst \<in> set (span dst (length src))" using assms(1) by (force simp: span_def intro!: image_eqI [of _ _ 0])
  then have "addr_or_fault mmu dst (s, m) = (Inr (phys mmu s dst), (s, m))"
    using assms(4) by (auto simp: addr_or_fault_def translate_va is_mapped_def phys_def)
  moreover from translated_byte_buffer_spec [OF assms(2), of s m] assms(4) obtain r where
    r: "translated_byte_buffer mmu dst (of_nat (length src)) (s, m) = Some (r, (s, m))" "\<not> isl r"
    "\<forall>v. r = Inr v \<longrightarrow> addrs v = map (phys mmu s) (span dst (length src))" by blast
  then obtain v where "translated_byte_buffer mmu dst (of_nat (length src)) (s, m) = Some (Inr v, (s, m))"
    "addrs v = map (phys mmu s) (span dst (length src))" by (cases r) auto
  ultimately show ?thesis using assms(3)
    by (simp add: copy_to_user_string_def write_buffered_def ub_write_def ub_new_def ub_write_loop_spec Let_def)
qed

end

lemma addr_parts:
  assumes "p < 2 ^ 52"
  shows "addr_floor (addr_of_page p + page_offset a) = p" "page_offset (addr_of_page p + page_offset a) = page_offset a"
proof -
  have z: "unat (addr_of_page p) mod PAGE_SIZE = 0" "addr_floor (addr_of_page p) = p" "page_offset (addr_of_page p) = 0"
    using unat_addr_of_page [OF assms] page_of_addr_of_page [OF assms]
    by (simp_all add: addr_floor_nat layout_defs page_of_addr_def split: if_splits)
  have "unat (page_offset a) < PAGE_SIZE" by (simp add: page_offset_nat layout_defs)
  then have "unat (addr_of_page p) mod PAGE_SIZE + unat (page_offset a) < PAGE_SIZE" using z(1) by simp
  from same_page [OF this] z
  show "addr_floor (addr_of_page p + page_offset a) = p" "page_offset (addr_of_page p + page_offset a) = page_offset a"
    by simp_all
qed

text \<open>The user memory at an address holds some bytes.\<close>

definition holds :: "'s mmu \<Rightarrow> 's \<Rightarrow> memory \<Rightarrow> usize \<Rightarrow> u8 list \<Rightarrow> bool" where
  "holds mmu s m a bs \<longleftrightarrow>
     (\<forall>i < length bs. is_mapped mmu s (a + of_nat i) \<and> m (phys mmu s (a + of_nat i)) = bs ! i)"

lemma holds_append: "holds mmu s m a (xs @ ys) \<longleftrightarrow> holds mmu s m a xs \<and> holds mmu s m (a + of_nat (length xs)) ys"
proof -
  have split: "(\<forall>i < length xs + length ys. P i) \<longleftrightarrow> (\<forall>i < length xs. P i) \<and> (\<forall>j < length ys. P (length xs + j))" for P
  proof (intro iffI conjI allI impI)
    fix i
    assume *: "(\<forall>i < length xs. P i) \<and> (\<forall>j < length ys. P (length xs + j))" "i < length xs + length ys"
    show "P i"
    proof (cases "i < length xs")
      case False
      then have "i - length xs < length ys" "length xs + (i - length xs) = i" using *(2) by simp_all
      then show ?thesis using *(1) by metis
    qed (use * in blast)
  qed auto
  show ?thesis by (simp add: holds_def split nth_append add.assoc)
qed

locale private_memory = user_memory +
  assumes fault_fresh: "frames_distinct mmu s \<Longrightarrow> mmu_fault mmu va (s, m) = (r, (s', m')) \<Longrightarrow> frames_distinct mmu s'"
    and fault_bytes: "mmu_fault mmu va (s, m) = (r, (s', m')) \<Longrightarrow> is_mapped mmu s x \<Longrightarrow> m' (phys mmu s x) = m (phys mmu s x)"
begin

lemma faults_private:
  "faults mmu st st' \<Longrightarrow> (frames_distinct mmu (fst st) \<longrightarrow> frames_distinct mmu (fst st'))
    \<and> (\<forall>x. is_mapped mmu (fst st) x \<longrightarrow> snd st' (phys mmu (fst st) x) = snd st (phys mmu (fst st) x))"
proof (induction rule: faults.induct)
  case (faults_step st st' va r st'')
  have f: "mmu_fault mmu va (fst st', snd st') = (r, (fst st'', snd st''))" using faults_step.hyps by simp
  have "is_mapped mmu (fst st') x \<and> phys mmu (fst st') x = phys mmu (fst st) x" if "is_mapped mmu (fst st) x" for x
    using faults_phys [of "fst st" "snd st" "fst st'" "snd st'" x] faults_step.hyps(1) that by simp
  then show ?case using fault_fresh [OF _ f] fault_bytes [OF f] faults_step.IH by metis
qed simp

lemma phys_inj:
  assumes "frames_distinct mmu s" "is_mapped mmu s x" "is_mapped mmu s y" "unat x < 2 ^ 39" "unat y < 2 ^ 39"
    and "phys mmu s x = phys mmu s y"
  shows "x = y"
proof -
  obtain p q where pq: "mmu_translate mmu s (addr_floor x) = Some p" "mmu_translate mmu s (addr_floor y) = Some q"
    using assms(2,3) by (auto simp: is_mapped_def)
  then have eq: "addr_of_page p + page_offset x = addr_of_page q + page_offset y" using assms(6) by (simp add: phys_def)
  note px = addr_parts [OF page_bound [OF pq(1)], of x, unfolded eq] and py = addr_parts [OF page_bound [OF pq(2)], of y]
  have "p = q" and po: "page_offset x = page_offset y"
    using trans [OF sym [OF px(1)] py(1)] trans [OF sym [OF px(2)] py(2)] .
  have low: "addr_floor a < 2 ^ 27" if "unat a < 2 ^ 39" for a
    using that unfolding addr_floor_nat by (intro less_mult_imp_div_less) (simp add: layout_defs)
  have fl: "addr_floor x = addr_floor y"
    using assms(1) pq low [OF assms(4)] low [OF assms(5)] \<open>p = q\<close> unfolding frames_distinct_def by blast
  have "x = page_offset_addr (addr_floor x) (page_offset x)" by (rule addr_split [symmetric])
  also have "\<dots> = page_offset_addr (addr_floor y) (page_offset y)" by (simp only: fl po)
  finally show ?thesis by (simp only: addr_split)
qed

lemma span_low: "x \<in> set (span a n) \<Longrightarrow> unat a + n \<le> 2 ^ 39 \<Longrightarrow> unat x < 2 ^ 39"
proof -
  assume "x \<in> set (span a n)" "unat a + n \<le> 2 ^ 39"
  then obtain i where "i < n" "x = a + of_nat i" "unat a + i < 2 ^ 39" by (auto simp: span_def)
  then show ?thesis using unat_plus_of_nat [of a i] by simp
qed

lemma distinct_span: "unat a + n \<le> 2 ^ 39 \<Longrightarrow> distinct (span a n)"
proof -
  assume n: "unat a + n \<le> 2 ^ 39"
  have "i = j" if "i < n" "j < n" "a + of_nat i = a + of_nat j" for i j
  proof -
    have "unat a + i < 2 ^ 64" "unat a + j < 2 ^ 64" using that(1,2) n by simp_all
    then have "unat a + i = unat a + j"
      using unat_plus_of_nat [of a i] unat_plus_of_nat [of a j] that(3) by metis
    then show ?thesis by linarith
  qed
  then show ?thesis unfolding span_def distinct_map inj_on_def by (simp only: distinct_upt set_upt) auto
qed

lemma distinct_phys:
  assumes "frames_distinct mmu s" "\<forall>x \<in> set (span a n). is_mapped mmu s x" "unat a + n \<le> 2 ^ 39"
  shows "distinct (map (phys mmu s) (span a n))"
  unfolding distinct_map inj_on_def using distinct_span [OF assms(3)] phys_inj [OF assms(1)] assms(2) span_low [OF _ assms(3)]
  by blast

text \<open>After a copy to user space the user sees the bytes in the range and, elsewhere, what was there before.\<close>

lemma copy_to_user_bytes:
  assumes "frames_distinct mmu s" "src \<noteq> []" "unat dst + length src \<le> 2 ^ 39"
  shows "\<exists>r s' m'. copy_to_user mmu src dst (s, m) = Some (Ret (r, (s', m'))) \<and> frames_distinct mmu s'
    \<and> (\<not> isl r \<longrightarrow> (\<forall>i < length src. user_byte mmu (s', m') (dst + of_nat i) = Some (src ! i)))
    \<and> (\<forall>va b. unat va < 2 ^ 39 \<and> (\<forall>i < length src. va \<noteq> dst + of_nat i) \<and> user_byte mmu (s, m) va = Some b
         \<longrightarrow> user_byte mmu (s', m') va = Some b)"
proof -
  have "unat dst + length src \<le> 2 ^ 64 - PAGE_SIZE" using assms(3) by (simp add: layout_defs)
  from copy_to_user_spec [OF assms(2) this, of s m] obtain r s' m' where
    c: "copy_to_user mmu src dst (s, m) = Some (Ret (r, (s',
        if isl r then m' else store_all (map (phys mmu s') (span dst (length src))) src m')))"
      "faults mmu (s, m) (s', m')" "\<not> isl r \<longrightarrow> (\<forall>x \<in> set (span dst (length src)). is_mapped mmu s' x)" by blast
  let ?m = "if isl r then m' else store_all (map (phys mmu s') (span dst (length src))) src m'"
  have d: "frames_distinct mmu s'" using faults_private [OF c(2)] assms(1) by simp
  have in_range: "user_byte mmu (s', ?m) (dst + of_nat i) = Some (src ! i)" if "\<not> isl r" "i < length src" for i
  proof -
    have mp: "\<forall>x \<in> set (span dst (length src)). is_mapped mmu s' x" using c(3) that(1) by blast
    then have "is_mapped mmu s' (dst + of_nat i)" using that(2) by (auto simp: span_def)
    then show ?thesis
      using store_all_nth [OF distinct_phys [OF d mp assms(3)], of i src m'] that by (simp add: user_byte_def)
  qed
  have out: "user_byte mmu (s', ?m) va = Some b"
    if va: "unat va < 2 ^ 39" "\<forall>i < length src. va \<noteq> dst + of_nat i" "user_byte mmu (s, m) va = Some b" for va b
  proof -
    have ms: "is_mapped mmu s va" "m (phys mmu s va) = b" using va(3) by (auto simp: user_byte_def split: if_splits)
    then have k: "is_mapped mmu s' va" "phys mmu s' va = phys mmu s va" "m' (phys mmu s va) = b"
      using faults_phys [OF c(2)] faults_private [OF c(2)] by auto
    have "phys mmu s' va \<notin> set (map (phys mmu s') (span dst (length src)))" if "\<not> isl r"
    proof
      assume "phys mmu s' va \<in> set (map (phys mmu s') (span dst (length src)))"
      then obtain x where x: "x \<in> set (span dst (length src))" "phys mmu s' va = phys mmu s' x" by auto
      then have "va = x" using phys_inj [OF d k(1) _ va(1) span_low [OF x(1) assms(3)]] c(3) that by blast
      then show False using x(1) va(2) by (auto simp: span_def)
    qed
    then have "?m (phys mmu s' va) = b" using k(2,3) store_all_other by simp
    then show ?thesis using k(1) by (simp add: user_byte_def)
  qed
  show ?thesis using c(1) d in_range out by blast
qed

lemma user_byte_holds:
  "(\<forall>i < length bs. user_byte mmu (s, m) (a + of_nat i) = Some (bs ! i)) \<longleftrightarrow> holds mmu s m a bs"
  by (auto simp: holds_def user_byte_def split: if_splits)

text \<open>A copy to mapped user memory succeeds, puts the bytes there and disturbs no bytes elsewhere.\<close>

lemma copy_to_user_holds:
  assumes "frames_distinct mmu s" "src \<noteq> []" "unat dst + length src \<le> 2 ^ 39"
    and "\<forall>x \<in> set (span dst (length src)). is_mapped mmu s x"
  shows "\<exists>m'. copy_to_user mmu src dst (s, m) = Some (Ret (Inr (), (s, m'))) \<and> holds mmu s m' dst src
    \<and> (\<forall>b bs. unat b + length bs \<le> 2 ^ 39 \<and> (unat b + length bs \<le> unat dst \<or> unat dst + length src \<le> unat b)
         \<and> holds mmu s m b bs \<longrightarrow> holds mmu s m' b bs)"
proof -
  from copy_to_user_bytes [OF assms(1-3), of m] obtain r s1 m' where
    c: "copy_to_user mmu src dst (s, m) = Some (Ret (r, (s1, m')))"
      "\<not> isl r \<longrightarrow> (\<forall>i < length src. user_byte mmu (s1, m') (dst + of_nat i) = Some (src ! i))"
      "\<forall>va b. unat va < 2 ^ 39 \<and> (\<forall>i < length src. va \<noteq> dst + of_nat i) \<and> user_byte mmu (s, m) va = Some b
         \<longrightarrow> user_byte mmu (s1, m') va = Some b" by blast
  have "unat dst + length src \<le> 2 ^ 64 - PAGE_SIZE" using assms(3) by (simp add: layout_defs)
  from copy_to_user_spec [OF assms(2) this, of s m] obtain r' s2 m2 where
    "copy_to_user mmu src dst (s, m) = Some (Ret (r', (s2, m2)))" "\<not> isl r' \<and> s2 = s" using assms(4) by blast
  then have rs: "\<not> isl r" "s1 = s" using c(1) by simp_all
  then have r: "r = Inr ()" by (cases r) auto
  show ?thesis
  proof (intro exI [of _ m'] conjI allI impI)
    show "copy_to_user mmu src dst (s, m) = Some (Ret (Inr (), (s, m')))" using c(1) r rs(2) by simp
    show "holds mmu s m' dst src" using c(2) rs user_byte_holds by blast
  next
    fix b :: usize and bs
    assume "unat b + length bs \<le> 2 ^ 39 \<and> (unat b + length bs \<le> unat dst \<or> unat dst + length src \<le> unat b) \<and> holds mmu s m b bs"
    then have b: "unat b + length bs \<le> 2 ^ 39" "unat b + length bs \<le> unat dst \<or> unat dst + length src \<le> unat b"
      and h: "holds mmu s m b bs" by blast+
    have "user_byte mmu (s, m') (b + of_nat i) = Some (bs ! i)" if "i < length bs" for i
    proof -
      have u: "unat (b + of_nat i) = unat b + i" using b(1) that by (intro unat_plus_of_nat) simp
      have "b + of_nat i \<noteq> dst + of_nat j" if "j < length src" for j
      proof -
        have "unat (dst + of_nat j) = unat dst + j" using assms(3) that by (intro unat_plus_of_nat) simp
        then have "unat (b + of_nat i) \<noteq> unat (dst + of_nat j)" using u b(2) that \<open>i < length bs\<close> by auto
        then show ?thesis by auto
      qed
      moreover have "unat (b + of_nat i) < 2 ^ 39" using u b(1) that by simp
      moreover have "user_byte mmu (s, m) (b + of_nat i) = Some (bs ! i)" using h that by (simp add: holds_def user_byte_def)
      ultimately show ?thesis using c(3) rs(2) by blast
    qed
    then show "holds mmu s m' b bs" using user_byte_holds by blast
  qed
qed

lemma copy_from_user_holds:
  assumes "holds mmu s m src bs" "bs \<noteq> []" "unat src + length bs \<le> 2 ^ 39" "length buf = length bs"
  shows "copy_from_user mmu src buf (s, m) = Some (Ret (Inr bs, (s, m)))"
proof -
  have "\<forall>x \<in> set (span src (length buf)). is_mapped mmu s x" using assms(1,4) by (auto simp: span_def holds_def)
  moreover have "buf \<noteq> []" "unat src + length buf \<le> 2 ^ 64 - PAGE_SIZE" using assms by (auto simp: layout_defs)
  moreover have "map m (map (phys mmu s) (span src (length buf))) = bs"
    using assms(1,4) by (intro nth_equalityI) (auto simp: holds_def)
  ultimately show ?thesis using copy_from_user_mapped by simp
qed

text \<open>A reference to bytes inside one page.\<close>

lemma translated_ref_holds:
  assumes "holds mmu s m a bs" "bs \<noteq> []" "unat a mod PAGE_SIZE + length bs \<le> PAGE_SIZE"
  obtains pa where "translated_ref mmu a (s, m) = (Inr pa, (s, m))" "mem_read pa (length bs) m = bs"
proof -
  have "is_mapped mmu s (a + of_nat 0)" using assms(1,2) unfolding holds_def by blast
  then obtain p where p: "mmu_translate mmu s (addr_floor a) = Some p" by (auto simp: is_mapped_def)
  then have "translated_ref mmu a (s, m) = (Inr (addr_of_page p + page_offset a), (s, m))"
    by (simp add: translated_ref_def addr_or_fault_def translate_va)
  moreover have "mem_read (addr_of_page p + page_offset a) (length bs) m = bs"
    unfolding mem_read_span phys_page_span(1) [OF p assms(3)]
    using assms(1) by (intro nth_equalityI) (auto simp: holds_def)
  ultimately show thesis by (rule that)
qed

lemma copy_roundtrip:
  assumes "frames_distinct mmu s" "src \<noteq> []" "unat dst + length src \<le> 2 ^ 39"
    and "copy_to_user mmu src dst (s, m) = Some (Ret (Inr (), (s', m')))" "length buf = length src"
  shows "copy_from_user mmu dst buf (s', m') = Some (Ret (Inr src, (s', m')))"
proof -
  have "holds mmu s' m' dst src" using copy_to_user_bytes [OF assms(1-3), of m] assms(4) user_byte_holds by auto
  then show ?thesis using copy_from_user_holds assms by blast
qed

end

section \<open>The Sv39 table as user memory\<close>

text \<open>All pages of the process are resident: a page that the table does not map is a bad address.\<close>

definition EFAULT :: int where "EFAULT = - 14"

definition sv39_mmu ::
  "(virt_addr \<Rightarrow> (sv39_page_table \<times> machine) \<times> memory \<Rightarrow> (int + phys_addr) \<times> ((sv39_page_table \<times> machine) \<times> memory))
     \<Rightarrow> (sv39_page_table \<times> machine) mmu" where
  "sv39_mmu fault = \<lparr>mmu_translate = pt_translate, mmu_translate_va = pt_translate_va, mmu_fault = fault\<rparr>"

definition bad_address :: "virt_addr \<Rightarrow> 's \<times> memory \<Rightarrow> (int + phys_addr) \<times> ('s \<times> memory)" where
  "bad_address va st = (Inl EFAULT, st)"

lemma pt_translate_va_page:
  "pt_translate_va s va = map_option (\<lambda>p. addr_of_page p + page_offset va) (pt_translate s (addr_floor va))"
  by (cases s) (auto simp: pt_translate_va_def pt_translate_def option.map_comp comp_def case_prod_unfold)

lemma pte_ppn_bound: "pte_ppn e < 2 ^ 52"
proof -
  have "unat (e AND PPN_MASK) \<le> unat PPN_MASK" using word_and_le1 [of e PPN_MASK] by (simp only: word_le_nat_alt)
  also have "\<dots> < 2 ^ 52 * 2 ^ 10" by (simp add: PPN_MASK_def)
  finally have "unat (e AND PPN_MASK) div 2 ^ 10 < 2 ^ 52" by (rule less_mult_imp_div_less)
  then show ?thesis by (simp add: pte_ppn_def drop_bit_eq_div unat_div)
qed

lemma pt_translate_bound: "pt_translate s v = Some p \<Longrightarrow> p < 2 ^ 52"
  using pte_ppn_bound by (auto simp: pt_translate_def split: prod.splits)

interpretation sv39: private_memory "sv39_mmu bad_address"
  by unfold_locales (auto simp: sv39_mmu_def bad_address_def keeps_pages_def pt_translate_va_page dest: pt_translate_bound)

section \<open>Properties\<close>


lemma not_isl_unit: "\<not> isl r \<Longrightarrow> r = Inr ()"
  by (cases r) auto

text \<open>A process with two resident pages in frames that are not adjacent.\<close>

definition demo_mmu :: "unit mmu" where
  "demo_mmu = \<lparr>mmu_translate = (\<lambda>_ v. if v = 0x10 then Some 0x80310 else if v = 0x11 then Some 0x80350 else None),
     mmu_translate_va = (\<lambda>_ va. if addr_floor va = 0x10 then Some (addr_of_page 0x80310 + page_offset va)
       else if addr_floor va = 0x11 then Some (addr_of_page 0x80350 + page_offset va) else None),
     mmu_fault = bad_address\<rparr>"

lemma demo_mmu_distinct: "frames_distinct demo_mmu ()"
  unfolding frames_distinct_def by (auto simp: demo_mmu_def split: if_splits)

lemma demo_mmu_private: "private_memory demo_mmu"
  by unfold_locales (auto simp: demo_mmu_def bad_address_def keeps_pages_def split: if_splits)




text \<open>(C30) Copies to user space do not look at the permissions of a mapped page: on a page that is write-protected,
  as after a fork, \<open>copy_to_user\<close> succeeds and writes the shared frame itself instead of copying it first.\<close>

theorem copy_to_user_ignores_protection:
  assumes "pt_writable st (addr_floor dst) = Some False" "src \<noteq> []" "unat (page_offset dst) + length src \<le> PAGE_SIZE"
  shows "\<exists>p. pt_translate st (addr_floor dst) = Some p \<and> copy_to_user (sv39_mmu fault) src dst (st, m)
    = Some (Ret (Inr (), (st, mem_store (addr_of_page p + page_offset dst) src m)))"
proof -
  obtain p where p: "pt_translate st (addr_floor dst) = Some p"
    using assms(1) by (cases st) (auto simp: pt_writable_def pt_query_def pt_translate_def)
  have "unat dst mod PAGE_SIZE + (length src - 1) < PAGE_SIZE"
    using assms(2,3) by (cases src) (auto simp: page_offset_nat)
  from same_page(1) [OF this] have "addr_floor dst = addr_floor (dst + of_nat (length src) - 1)"
    using assms(2) by (cases src) (simp_all add: algebra_simps)
  then show ?thesis
    using p by (simp add: copy_to_user_def Let_def write_direct_def translated_refmut_def addr_or_fault_def
        sv39_mmu_def pt_translate_va_page)
qed

theorem copy_to_user_ignores_protection_witness:
  "\<exists>pt m s1. pt_new no_oom demo_machine = Ret (pt, m) \<and> pt_map no_oom 0x10 0x80399 PTE_R (pt, m) = Ret s1
     \<and> pt_writable s1 0x10 = Some False
     \<and> copy_to_user (sv39_mmu bad_address) [7] 0x10008 (s1, \<lambda>_. 0) = Some (Ret (Inr (), (s1, (\<lambda>_. 0)(0x80399008 := 7))))"
proof -
  obtain pt m where d: "pt_new no_oom demo_machine = Ret (pt, m)" "pt_invar 0x80300 (pt, m)"
    "pt_view (pt, m) = Map.empty" "unallocated_frames m = 0xff"
    by (rule demo_pt)
  then obtain s1 where s1: "pt_map no_oom 0x10 0x80399 PTE_R (pt, m) = Ret s1"
    "pt_view s1 (pt_key 0x10) = Some (pt_new_entry 0x80399 PTE_R)"
    using pt_map_ok [of "0x80300" pt m "0x10" no_oom "0x80399" PTE_R] by fastforce
  have w: "pt_writable s1 0x10 = Some False"
    by (simp add: pt_writable_def pt_query_view s1(2) pt_new_entry_def pte_new_def pte_writable_def pte_flags_def flag_defs)
  have t: "pt_translate s1 0x10 = Some 0x80399"
    by (simp add: pt_translate_view s1(2) pt_new_entry_def pte_ppn_new)
  have f: "addr_floor 0x10008 = 0x10" "page_offset 0x10008 = 8" "addr_of_page 0x80399 = 0x80399000"
    by (simp_all add: addr_floor_def page_offset_def addr_of_page_def layout_defs)
  have "copy_to_user (sv39_mmu bad_address) [7] 0x10008 (s1, \<lambda>_. 0) = Some (Ret (Inr (), (s1, (\<lambda>_. 0)(0x80399008 := 7))))"
    using copy_to_user_ignores_protection [of s1 "0x10008" "[7]" bad_address "\<lambda>_. 0"] w t by (auto simp: f layout_defs)
  then show ?thesis using w d(1) s1(1) by blast
qed

text \<open>When a string crosses a page boundary, its terminating zero goes to the byte that follows the string in the
  \<^emph>\<open>physical\<close> memory after the first page, not to the user address after the string.\<close>

theorem copy_to_user_string_terminator:
  assumes "user_memory mmu" "src \<noteq> []" "unat dst + length src \<le> 2 ^ 64 - PAGE_SIZE"
    and "addr_floor dst \<noteq> addr_floor (dst + of_nat (length src))"
    and "\<forall>x \<in> set (span dst (length src)). is_mapped mmu s x"
  shows "copy_to_user_string mmu src dst (s, m) = Some (Ret (Inr (), (s,
      (store_all (map (phys mmu s) (span dst (length src))) src m)(phys mmu s dst + of_nat (length src) := 0))))"
  using user_memory.string_crossing [OF assms] .

theorem copy_to_user_string_terminator_witness:
  "\<exists>m'. copy_to_user_string demo_mmu [0x61, 0x62] 0x10fff ((), \<lambda>_. 0xff) = Some (Ret (Inr (), ((), m')))
     \<and> user_byte demo_mmu ((), m') 0x11000 = Some 0x62 \<and> user_byte demo_mmu ((), m') 0x11001 = Some 0xff
     \<and> m' 0x80311001 = 0"
proof -
  have sp: "span 0x10fff (Suc (Suc 0)) = [0x10fff, 0x11000]" by (simp add: span_def)
  have um: "user_memory demo_mmu" by (rule private_memory.axioms(1) [OF demo_mmu_private])
  have ph: "phys demo_mmu () 0x10fff = 0x80310fff" "phys demo_mmu () 0x11000 = 0x80350000"
    "phys demo_mmu () 0x11001 = 0x80350001" "is_mapped demo_mmu () 0x10fff" "is_mapped demo_mmu () 0x11000"
    "is_mapped demo_mmu () 0x11001"
    by (simp_all add: phys_def is_mapped_def demo_mmu_def addr_floor_def page_offset_def addr_of_page_def layout_defs)
  have "addr_floor 0x10fff \<noteq> addr_floor (0x10fff + of_nat (length [0x61, 0x62 :: u8]))"
    by (simp add: addr_floor_def layout_defs)
  from copy_to_user_string_terminator [OF um _ _ this, of "()" "\<lambda>_. 0xff"] show ?thesis
    by (simp add: sp ph layout_defs store_all_def user_byte_def)
qed

end
