(* ===== verification/BTree_Map.thy ===== *)
theory BTree_Map
  imports Prelude
begin

text \<open>
  Rust's \<open>BTreeMap\<close> as the kernel uses it: an association list with strictly increasing keys.  The locale is
  the contract its clients (the CFS run queue, the futex table) rely on: a finite map whose first entry has
  the least key.
\<close>

section \<open>Interface\<close>

locale ordered_map =
  fixes inv :: "'m \<Rightarrow> bool"
    and lookup :: "'m \<Rightarrow> 'k::linorder \<Rightarrow> 'v option"
    and upd :: "'k \<Rightarrow> 'v \<Rightarrow> 'm \<Rightarrow> 'm"
    and del :: "'k \<Rightarrow> 'm \<Rightarrow> 'm"
    and pop :: "'m \<Rightarrow> (('k \<times> 'v) \<times> 'm) option"
  assumes lookup_upd: "inv m \<Longrightarrow> lookup (upd k v m) = (lookup m)(k \<mapsto> v)"
    and lookup_del: "inv m \<Longrightarrow> lookup (del k m) = (lookup m)(k := None)"
    and inv_upd: "inv m \<Longrightarrow> inv (upd k v m)"
    and inv_del: "inv m \<Longrightarrow> inv (del k m)"
    and pop_None: "inv m \<Longrightarrow> pop m = None \<longleftrightarrow> lookup m = Map.empty"
    and pop_Some: "inv m \<Longrightarrow> pop m = Some ((k, v), m') \<Longrightarrow>
      inv m' \<and> lookup m k = Some v \<and> (\<forall>k' \<in> dom (lookup m). k \<le> k') \<and> lookup m' = (lookup m)(k := None)"
begin

lemma pop_pop_less:
  assumes "inv m" "pop m = Some ((k, v), m')" "pop m' = Some ((k', v'), m'')"
  shows "k < k'"
proof -
  from pop_Some [OF assms(1,2)] have 1: "inv m'" "\<forall>x \<in> dom (lookup m). k \<le> x" "lookup m' = (lookup m)(k := None)"
    by auto
  from pop_Some [OF 1(1) assms(3)] have "lookup m' k' = Some v'" by simp
  then have "k' \<noteq> k" "k' \<in> dom (lookup m)" using 1(3) by (auto split: if_splits)
  then show ?thesis using 1(2) by force
qed

lemma pop_upd_least:
  assumes "inv m" "\<forall>k' \<in> dom (lookup m). k \<le> k'"
  shows "\<exists>m'. pop (upd k v m) = Some ((k, v), m') \<and> lookup m' = (lookup m)(k := None)"
proof (cases "pop (upd k v m)")
  case None
  then show ?thesis using pop_None [OF inv_upd [OF assms(1)]] lookup_upd [OF assms(1)]
    by (metis fun_upd_same option.distinct(1))
next
  case (Some r)
  then obtain k' v' m' where r: "pop (upd k v m) = Some ((k', v'), m')" by (metis prod.collapse)
  from pop_Some [OF inv_upd [OF assms(1)] r] have
    "lookup (upd k v m) k' = Some v'" "\<forall>x \<in> dom (lookup (upd k v m)). k' \<le> x"
    "lookup m' = (lookup (upd k v m))(k' := None)" by auto
  moreover from this have "k' = k"
    using assms(2) lookup_upd [OF assms(1)] by (auto simp: dom_def split: if_splits intro: antisym)
  ultimately show ?thesis using r lookup_upd [OF assms(1)] by simp
qed

end

section \<open>The map\<close>

fun bt_insert :: "'k::linorder \<Rightarrow> 'v \<Rightarrow> ('k \<times> 'v) list \<Rightarrow> ('k \<times> 'v) list" where
  "bt_insert k v [] = [(k, v)]"
| "bt_insert k v ((k', v') # m) =
     (if k < k' then (k, v) # (k', v') # m else if k = k' then (k, v) # m else (k', v') # bt_insert k v m)"

definition bt_remove :: "'k \<Rightarrow> ('k \<times> 'v) list \<Rightarrow> 'v option \<times> ('k \<times> 'v) list" where
  "bt_remove k m = (map_of m k, filter (\<lambda>(k', _). k' \<noteq> k) m)"

fun bt_pop_first :: "('k \<times> 'v) list \<Rightarrow> (('k \<times> 'v) \<times> ('k \<times> 'v) list) option" where
  "bt_pop_first [] = None"
| "bt_pop_first (x # m) = Some (x, m)"

definition bt_sorted :: "('k::linorder \<times> 'v) list \<Rightarrow> bool" where
  "bt_sorted m \<longleftrightarrow> sorted_wrt (<) (map fst m)"

lemma bt_sorted_simps [simp]:
  "bt_sorted []"
  "bt_sorted ((k, v) # m) \<longleftrightarrow> (\<forall>(k', v') \<in> set m. k < k') \<and> bt_sorted m"
  by (auto simp: bt_sorted_def)

lemma set_bt_insert: "bt_sorted m \<Longrightarrow> set (bt_insert k v m) = insert (k, v) {e \<in> set m. fst e \<noteq> k}"
  by (induction k v m rule: bt_insert.induct) (auto simp: split_beta)

lemma bt_sorted_insert: "bt_sorted m \<Longrightarrow> bt_sorted (bt_insert k v m)"
  by (induction k v m rule: bt_insert.induct) (auto simp: set_bt_insert)

lemma bt_insert_fresh:
  "k \<notin> fst ` set m \<Longrightarrow> length (bt_insert k v m) = Suc (length m)
   \<and> sum_list (map g (bt_insert k v m)) = g (k, v) + (sum_list (map g m) :: nat)"
  by (induction k v m rule: bt_insert.induct) auto

lemma mset_bt_insert: "k \<notin> fst ` set m \<Longrightarrow> mset (bt_insert k v m) = add_mset (k, v) (mset m)"
  by (induction k v m rule: bt_insert.induct) auto

lemma bt_insert_same: "k \<in> fst ` set m \<Longrightarrow> bt_sorted m \<Longrightarrow> length (bt_insert k v m) = length m"
  by (induction k v m rule: bt_insert.induct) auto

lemma bt_sorted_filter: "bt_sorted m \<Longrightarrow> bt_sorted (filter P m)"
  by (induction m) auto

lemma map_of_bt_insert: "map_of (bt_insert k v m) = (map_of m)(k \<mapsto> v)"
  by (induction k v m rule: bt_insert.induct) (auto simp: fun_eq_iff)

lemma map_of_filter_neq: "map_of (filter (\<lambda>(k', _). k' \<noteq> k) m) = (map_of m)(k := None)"
  by (induction m) (auto simp: fun_eq_iff)

lemma bt_sorted_distinct: "bt_sorted m \<Longrightarrow> distinct (map fst m)"
  by (induction m) auto

lemma bt_remove_length:
  "bt_sorted m \<Longrightarrow> k \<in> fst ` set m \<Longrightarrow> Suc (length (filter (\<lambda>(k', _). k' \<noteq> k) m)) = length m"
proof (induction m)
  case (Cons x m)
  obtain k' v' where x: "x = (k', v')" by (cases x)
  show ?case
  proof (cases "k' = k")
    case True
    then have "filter (\<lambda>(k', _). k' \<noteq> k) m = m" using Cons.prems x by (auto simp: filter_id_conv)
    then show ?thesis using True x by simp
  next
    case False
    then show ?thesis using Cons x by auto
  qed
qed simp

interpretation btree: ordered_map bt_sorted map_of bt_insert "\<lambda>k m. snd (bt_remove k m)" bt_pop_first
proof unfold_locales
  fix m :: "('k::linorder \<times> 'v) list" and k v m'
  assume s: "bt_sorted m" and p: "bt_pop_first m = Some ((k, v), m')"
  then have m: "m = (k, v) # m'" by (cases m) auto
  then have "map_of m' k = None" using s by (auto simp: map_of_eq_None_iff)
  then show "bt_sorted m' \<and> map_of m k = Some v \<and> (\<forall>k' \<in> dom (map_of m). k \<le> k')
      \<and> map_of m' = (map_of m)(k := None)"
    using s m by (auto simp: fun_eq_iff dest!: map_of_SomeD)
qed (auto simp: bt_sorted_insert map_of_bt_insert bt_remove_def map_of_filter_neq bt_sorted_filter
      elim: bt_pop_first.elims)

end
