(* ===== verification/Cfs.thy ===== *)
theory Cfs
  imports BTree_Map
begin

text \<open>
  The completely fair scheduler of \<open>task/cfs_scheduler.rs\<close>: weights, scheduling entities, the run queue ordered
  by virtual runtime.  A task (\<open>Arc<TaskControlBlock>\<close>) is a reference into a store of control blocks, of which
  the model has the fields the schedulers read.  The properties: the queue serves the least virtual runtime,
  no queued task starves, and the charge for CPU time follows the nice value.
\<close>

section \<open>Weights\<close>

definition SCHED_LATENCY_NS :: u64 where "SCHED_LATENCY_NS = 6000000"
definition MIN_GRANULARITY_NS :: u64 where "MIN_GRANULARITY_NS = 750000"
definition NICE_0_WEIGHT :: u32 where "NICE_0_WEIGHT = 1024"
definition WAKEUP_GRANULARITY_NS :: u64 where "WAKEUP_GRANULARITY_NS = 1000000"

definition NICE_TO_WEIGHT :: "u32 list" where
  "NICE_TO_WEIGHT =
    [88761, 71755, 56483, 46273, 36291,
     29154, 23254, 18705, 14949, 11916,
     9548,  7620,  6100,  4904,  3906,
     3121,  2501,  1991,  1586,  1277,
     1024,  820,   655,   526,   423,
     335,   272,   215,   172,   137,
     110,   87,    70,    56,    45,
     36,    29,    23,    18,    15]"

text \<open>\<open>(n + 20) as usize\<close> of an \<open>i8\<close>: the sum wraps at eight bits and is then sign-extended.\<close>

definition nice_index :: "i8 \<Rightarrow> nat" where "nice_index n = unat (scast (n + 20) :: usize)"

definition clamp_nice :: "i8 \<Rightarrow> i8" where
  "clamp_nice n = (if sint n < - 20 then - 20 else if sint n > 19 then 19 else n)"

definition nice_to_weight :: "i8 \<Rightarrow> u32" where
  "nice_to_weight n = NICE_TO_WEIGHT ! nice_index (clamp_nice n)"

definition NICE_TO_INV_WEIGHT :: "u64 list" where
  "NICE_TO_INV_WEIGHT =
    [48388, 59856, 76040, 92818, 118348,
     147320, 184698, 229616, 287308, 360437,
     449829, 563644, 704093, 875809, 1099582,
     1376151, 1717300, 2157191, 2708050, 3363326,
     4194304, 5237765, 6557202, 8165337, 10153587,
     12820798, 15790321, 19976592, 24970740, 31350126,
     39045157, 49367440, 61356676, 76695844, 95443717,
     119304647, 148102320, 186737708, 238609294, 286331153]"

section \<open>Scheduling entities\<close>

datatype sched_policy = Normal | Fifo | RoundRobin | Batch | IdlePolicy

definition is_realtime :: "sched_policy \<Rightarrow> bool" where
  "is_realtime p = (case p of Fifo \<Rightarrow> True | RoundRobin \<Rightarrow> True | _ \<Rightarrow> False)"

definition policy_from_raw :: "u32 \<Rightarrow> sched_policy option" where
  "policy_from_raw p =
     (if p = 0 then Some Normal else if p = 1 then Some Fifo else if p = 2 then Some RoundRobin
      else if p = 3 then Some Batch else if p = 5 then Some IdlePolicy else None)"

record sched_entity =
  vruntime :: u64
  nice :: i8
  weight :: u32
  sum_exec_runtime :: u64
  exec_start :: u64
  prev_sum_exec_runtime :: u64
  last_cpu :: usize
  policy :: sched_policy
  rt_priority :: u8
  cpu_affinity :: usize

definition entity_default :: sched_entity where
  "entity_default = \<lparr>vruntime = 0, nice = 0, weight = NICE_0_WEIGHT, sum_exec_runtime = 0, exec_start = 0,
     prev_sum_exec_runtime = 0, last_cpu = 0, policy = Normal, rt_priority = 0, cpu_affinity = - 1\<rparr>"

definition entity_new :: "i8 \<Rightarrow> sched_entity" where
  "entity_new n = entity_default\<lparr>nice := n, weight := nice_to_weight n\<rparr>"

definition entity_new_rt :: "sched_policy \<Rightarrow> u8 \<Rightarrow> sched_entity" where
  "entity_new_rt p priority = entity_default\<lparr>policy := p, rt_priority := max (min priority 99) 1\<rparr>"

definition set_policy :: "sched_policy \<Rightarrow> u8 \<Rightarrow> sched_entity \<Rightarrow> sched_entity" where
  "set_policy p priority e =
     (let e = e\<lparr>policy := p\<rparr> in
      if is_realtime p then e\<lparr>rt_priority := max (min priority 99) 1\<rparr> else e\<lparr>rt_priority := 0\<rparr>)"

definition set_last_cpu :: "usize \<Rightarrow> sched_entity \<Rightarrow> sched_entity" where
  "set_last_cpu cpu e = e\<lparr>last_cpu := cpu\<rparr>"

text \<open>\<open>1 << cpu\<close> masks the shift amount to the width in a release build.\<close>

definition can_run_on :: "usize \<Rightarrow> sched_entity \<Rightarrow> bool" where
  "can_run_on cpu e \<longleftrightarrow> cpu_affinity e AND push_bit (unat cpu mod 64) 1 \<noteq> 0"

definition set_affinity :: "usize \<Rightarrow> sched_entity \<Rightarrow> sched_entity" where
  "set_affinity m e = e\<lparr>cpu_affinity := m\<rparr>"

definition set_nice :: "i8 \<Rightarrow> sched_entity \<Rightarrow> sched_entity" where
  "set_nice n e = (let e = e\<lparr>nice := clamp_nice n\<rparr> in e\<lparr>weight := nice_to_weight (nice e)\<rparr>)"

definition calc_delta_vruntime :: "sched_entity \<Rightarrow> u64 \<Rightarrow> u64 outcome" where
  "calc_delta_vruntime e delta_exec =
     (if weight e = NICE_0_WEIGHT then Ret delta_exec
      else if nice_index (nice e) < length NICE_TO_INV_WEIGHT
      then Ret (drop_bit 22 (delta_exec * NICE_TO_INV_WEIGHT ! nice_index (nice e)))
      else Panic)"

definition update_runtime :: "u64 \<Rightarrow> sched_entity \<Rightarrow> sched_entity outcome" where
  "update_runtime now e =
     (if exec_start e = 0 then Ret e
      else
        let delta_exec = sat_sub now (exec_start e);
            e = e\<lparr>exec_start := now, sum_exec_runtime := sum_exec_runtime e + delta_exec\<rparr>
        in bind_outcome (calc_delta_vruntime e delta_exec) (\<lambda>d. Ret (e\<lparr>vruntime := vruntime e + d\<rparr>)))"

section \<open>Control blocks\<close>

type_synonym task_ref = nat

datatype task_status = Ready | Running | Zombie | Interruptible

record tcb =
  tcb_pid :: nat
  tcb_tgid :: nat
  tcb_running_on_cpu :: usize
  tcb_on_cpu :: bool
  tcb_status :: task_status
  tcb_entity :: sched_entity
  tcb_ra :: usize

type_synonym tasks = "task_ref \<Rightarrow> tcb"

definition TASK_NOT_RUNNING :: usize where "TASK_NOT_RUNNING = - 1"

section \<open>The run queue\<close>

datatype run_queue_key = RunQueueKey (key_vruntime: u64) (key_tid: nat)

definition key_less :: "run_queue_key \<Rightarrow> run_queue_key \<Rightarrow> bool" where
  "key_less a b \<longleftrightarrow>
     key_vruntime a < key_vruntime b \<or> key_vruntime a = key_vruntime b \<and> key_tid a < key_tid b"

instantiation run_queue_key :: linorder
begin

definition less_run_queue_key :: "run_queue_key \<Rightarrow> run_queue_key \<Rightarrow> bool" where
  "less_run_queue_key a b \<longleftrightarrow> key_less a b"

definition less_eq_run_queue_key :: "run_queue_key \<Rightarrow> run_queue_key \<Rightarrow> bool" where
  "less_eq_run_queue_key a b \<longleftrightarrow> \<not> key_less b a"

instance
  by standard (auto simp: less_eq_run_queue_key_def less_run_queue_key_def key_less_def run_queue_key.expand)

end

lemmas less_key_iff = less_run_queue_key_def key_less_def

record cfs_run_queue =
  cfs_tasks :: "(run_queue_key \<times> task_ref) list"
  min_vruntime :: u64
  total_weight :: u64
  cfs_nr_running :: nat

definition cfs_new :: cfs_run_queue where
  "cfs_new = \<lparr>cfs_tasks = [], min_vruntime = 0, total_weight = 0, cfs_nr_running = 0\<rparr>"

definition cfs_is_empty :: "cfs_run_queue \<Rightarrow> bool" where "cfs_is_empty q \<longleftrightarrow> cfs_nr_running q = 0"
definition cfs_len :: "cfs_run_queue \<Rightarrow> nat" where "cfs_len q = cfs_nr_running q"

definition calc_time_slice :: "u32 \<Rightarrow> cfs_run_queue \<Rightarrow> u64" where
  "calc_time_slice w q =
     (if cfs_nr_running q \<le> 1 then SCHED_LATENCY_NS
      else let slice = SCHED_LATENCY_NS * ucast w div max (total_weight q) 1
           in max slice MIN_GRANULARITY_NS)"

definition place_entity :: "cfs_run_queue \<Rightarrow> bool \<Rightarrow> sched_entity \<Rightarrow> sched_entity" where
  "place_entity q initial e =
     (let v = min_vruntime q;
          v = (if initial then sat_add v (SCHED_LATENCY_NS div 2) else v)
      in e\<lparr>vruntime := max (vruntime e) v\<rparr>)"

text \<open>\<open>enqueue\<close> updates the entity it is given; the caller passes the task's process id, the reference and the
  entity.\<close>

definition cfs_enqueue ::
  "nat \<Rightarrow> task_ref \<Rightarrow> bool \<Rightarrow> sched_entity \<Rightarrow> cfs_run_queue \<Rightarrow> sched_entity \<times> cfs_run_queue" where
  "cfs_enqueue pid task is_new e q =
     (let e = place_entity q is_new e;
          key = RunQueueKey (vruntime e) pid
      in (e, q\<lparr>cfs_tasks := bt_insert key task (cfs_tasks q), total_weight := total_weight q + ucast (weight e),
               cfs_nr_running := cfs_nr_running q + 1\<rparr>))"

definition cfs_dequeue :: "nat \<Rightarrow> sched_entity \<Rightarrow> cfs_run_queue \<Rightarrow> cfs_run_queue" where
  "cfs_dequeue pid e q =
     (case bt_remove (RunQueueKey (vruntime e) pid) (cfs_tasks q) of
        (Some _, m) \<Rightarrow> q\<lparr>cfs_tasks := m, total_weight := sat_sub (total_weight q) (ucast (weight e)),
                         cfs_nr_running := cfs_nr_running q - 1\<rparr>
      | (None, m) \<Rightarrow> q)"

definition cfs_pick_next :: "cfs_run_queue \<Rightarrow> task_ref option \<times> cfs_run_queue" where
  "cfs_pick_next q =
     (case bt_pop_first (cfs_tasks q) of
        None \<Rightarrow> (None, q)
      | Some ((key, task), m) \<Rightarrow>
          (Some task, q\<lparr>cfs_tasks := m, min_vruntime := max (min_vruntime q) (key_vruntime key),
             total_weight := sat_sub (total_weight q) (ucast NICE_0_WEIGHT),
             cfs_nr_running := cfs_nr_running q - 1\<rparr>))"

text \<open>The test of \<open>steal_for_cpu\<close> for one queued task.\<close>

definition stealable :: "tasks \<Rightarrow> usize \<Rightarrow> task_ref \<Rightarrow> bool" where
  "stealable s target_cpu task \<longleftrightarrow> \<not> tcb_on_cpu (s task) \<and> tcb_running_on_cpu (s task) = TASK_NOT_RUNNING
     \<and> \<not> (tcb_ra (s task) = 0 \<or> tcb_ra (s task) < 0x80000000) \<and> can_run_on target_cpu (tcb_entity (s task))"

text \<open>Removing the entry of one key together with its share of the accounting.\<close>

definition cfs_take :: "tasks \<Rightarrow> run_queue_key \<Rightarrow> cfs_run_queue \<Rightarrow> task_ref option \<times> cfs_run_queue" where
  "cfs_take s key q =
     (case bt_remove key (cfs_tasks q) of
        (Some task, m) \<Rightarrow>
          (Some task, q\<lparr>cfs_tasks := m, total_weight := sat_sub (total_weight q) (ucast (weight (tcb_entity (s task)))),
             cfs_nr_running := cfs_nr_running q - 1\<rparr>)
      | (None, m) \<Rightarrow> (None, q))"

definition steal_for_cpu :: "tasks \<Rightarrow> usize \<Rightarrow> cfs_run_queue \<Rightarrow> task_ref option \<times> cfs_run_queue" where
  "steal_for_cpu s target_cpu q =
     (case find (\<lambda>(key, task). stealable s target_cpu task) (rev (cfs_tasks q)) of
        Some (key, _) \<Rightarrow> cfs_take s key q
      | None \<Rightarrow> (None, q))"

definition cfs_peek_next :: "cfs_run_queue \<Rightarrow> task_ref option" where
  "cfs_peek_next q = (case cfs_tasks q of [] \<Rightarrow> None | (_, task) # _ \<Rightarrow> Some task)"

definition cfs_should_preempt :: "sched_entity \<Rightarrow> sched_entity \<Rightarrow> bool" where
  "cfs_should_preempt cur wake \<longleftrightarrow> sat_sub (vruntime cur) (vruntime wake) > WAKEUP_GRANULARITY_NS"

definition update_min_vruntime :: "cfs_run_queue \<Rightarrow> cfs_run_queue" where
  "update_min_vruntime q =
     (case cfs_tasks q of
        [] \<Rightarrow> q | (key, _) # _ \<Rightarrow> q\<lparr>min_vruntime := max (min_vruntime q) (key_vruntime key)\<rparr>)"

definition cfs_find_by_pid :: "tasks \<Rightarrow> nat \<Rightarrow> cfs_run_queue \<Rightarrow> task_ref option" where
  "cfs_find_by_pid s pid q = find (\<lambda>t. tcb_pid (s t) = pid) (map snd (cfs_tasks q))"

definition cfs_find_by_tgid :: "tasks \<Rightarrow> nat \<Rightarrow> cfs_run_queue \<Rightarrow> task_ref option" where
  "cfs_find_by_tgid s tgid q = find (\<lambda>t. tcb_tgid (s t) = tgid) (map snd (cfs_tasks q))"

fun cfs_take_all :: "tasks \<Rightarrow> run_queue_key list \<Rightarrow> cfs_run_queue \<Rightarrow> task_ref list \<times> cfs_run_queue" where
  "cfs_take_all s [] q = ([], q)"
| "cfs_take_all s (key # keys) q =
     (case cfs_take s key q of
        (Some task, q) \<Rightarrow> (case cfs_take_all s keys q of (ts, q) \<Rightarrow> (task # ts, q))
      | (None, q) \<Rightarrow> cfs_take_all s keys q)"

definition remove_by_tgid :: "tasks \<Rightarrow> nat \<Rightarrow> cfs_run_queue \<Rightarrow> task_ref list \<times> cfs_run_queue" where
  "remove_by_tgid s tgid q =
     cfs_take_all s (map fst (filter (\<lambda>(_, task). tcb_tgid (s task) = tgid) (cfs_tasks q))) q"

definition cfs_retain :: "tasks \<Rightarrow> (task_ref \<Rightarrow> bool) \<Rightarrow> cfs_run_queue \<Rightarrow> cfs_run_queue" where
  "cfs_retain s f q = snd (cfs_take_all s (map fst (filter (\<lambda>(_, task). \<not> f task) (cfs_tasks q))) q)"

definition cfs_iter :: "cfs_run_queue \<Rightarrow> task_ref list" where "cfs_iter q = map snd (cfs_tasks q)"

section \<open>Statistics and priorities\<close>

record cfs_stats =
  context_switches :: u64
  voluntary_preempt :: u64
  involuntary_preempt :: u64
  wait_time :: u64
  run_time :: u64

definition record_switch :: "bool \<Rightarrow> cfs_stats \<Rightarrow> cfs_stats" where
  "record_switch voluntary st =
     (let st = st\<lparr>context_switches := context_switches st + 1\<rparr> in
      if voluntary then st\<lparr>voluntary_preempt := voluntary_preempt st + 1\<rparr>
      else st\<lparr>involuntary_preempt := involuntary_preempt st + 1\<rparr>)"

definition is_valid_nice :: "i8 \<Rightarrow> bool" where "is_valid_nice n \<longleftrightarrow> sint n \<ge> - 20 \<and> sint n \<le> 19"
definition prio_to_nice :: "i32 \<Rightarrow> i8" where "prio_to_nice prio = scast (prio - 120)"
definition nice_to_prio :: "i8 \<Rightarrow> i32" where "nice_to_prio n = scast n + 120"

lemmas cfs_consts = SCHED_LATENCY_NS_def MIN_GRANULARITY_NS_def NICE_0_WEIGHT_def WAKEUP_GRANULARITY_NS_def

section \<open>The invariant of the run queue\<close>

abbreviation queued_tids :: "cfs_run_queue \<Rightarrow> nat list" where
  "queued_tids q \<equiv> map (key_tid \<circ> fst) (cfs_tasks q)"

text \<open>Keys ascend, a process id is queued at most once, the counter is exact, and no queued task is behind
  the minimum.\<close>

definition cfs_inv :: "cfs_run_queue \<Rightarrow> bool" where
  "cfs_inv q \<longleftrightarrow> bt_sorted (cfs_tasks q) \<and> distinct (queued_tids q)
     \<and> cfs_nr_running q = length (cfs_tasks q)
     \<and> (\<forall>e \<in> set (cfs_tasks q). min_vruntime q \<le> key_vruntime (fst e))"

lemma cfs_inv_new: "cfs_inv cfs_new"
  by (simp add: cfs_inv_def cfs_new_def)

lemma place_entity_ge: "min_vruntime q \<le> vruntime (place_entity q b e)"
proof -
  have "v \<le> sat_add v w" for v w :: u64
    by (simp add: sat_add_def)
  then have "min_vruntime q \<le> (if b then sat_add (min_vruntime q) (SCHED_LATENCY_NS div 2) else min_vruntime q)"
    by simp
  then show ?thesis by (simp add: place_entity_def Let_def le_max_iff_disj)
qed

lemma fresh_key: "pid \<notin> set (queued_tids q) \<Longrightarrow> RunQueueKey v pid \<notin> fst ` set (cfs_tasks q)"
  by force

lemma cfs_inv_enqueue:
  assumes "cfs_inv q" "pid \<notin> set (queued_tids q)"
  shows "cfs_inv (snd (cfs_enqueue pid t b e q))"
proof -
  let ?k = "RunQueueKey (vruntime (place_entity q b e)) pid"
  have m: "mset (bt_insert ?k t (cfs_tasks q)) = add_mset (?k, t) (mset (cfs_tasks q))"
    by (rule mset_bt_insert [OF fresh_key [OF assms(2)]])
  then have "mset (map (key_tid \<circ> fst) (bt_insert ?k t (cfs_tasks q))) = mset (pid # queued_tids q)"
    by simp
  moreover have "distinct (pid # queued_tids q)" using assms by (simp add: cfs_inv_def)
  ultimately have d: "distinct (map (key_tid \<circ> fst) (bt_insert ?k t (cfs_tasks q)))"
    using mset_eq_imp_distinct_iff by blast
  have l: "length (bt_insert ?k t (cfs_tasks q)) = Suc (length (cfs_tasks q))"
    using arg_cong [OF m, of size] by simp
  have "\<forall>x \<in> set (bt_insert ?k t (cfs_tasks q)). min_vruntime q \<le> key_vruntime (fst x)"
    using assms(1) place_entity_ge [of q b e] by (auto simp: cfs_inv_def set_bt_insert)
  then show ?thesis
    using assms(1) d l by (simp add: cfs_inv_def cfs_enqueue_def Let_def bt_sorted_insert)
qed

lemma cfs_pick_next_cases:
  assumes "cfs_inv q"
  obtains (None) "cfs_tasks q = []" "cfs_pick_next q = (None, q)"
  | (Some) k t m where "cfs_tasks q = (k, t) # m" "min_vruntime q \<le> key_vruntime k"
      "\<forall>e \<in> set m. k < fst e" "\<forall>e \<in> set m. key_tid (fst e) \<noteq> key_tid k"
      "cfs_pick_next q = (Some t, q\<lparr>cfs_tasks := m, min_vruntime := key_vruntime k,
         total_weight := sat_sub (total_weight q) (ucast NICE_0_WEIGHT), cfs_nr_running := length m\<rparr>)"
proof (cases "cfs_tasks q")
  case Nil
  then show thesis by (intro None) (simp_all add: cfs_pick_next_def)
next
  case (Cons x m)
  obtain k t where x: "x = (k, t)" by (cases x)
  have c: "cfs_tasks q = (k, t) # m" using Cons x by simp
  then have k: "min_vruntime q \<le> key_vruntime k" using assms by (simp add: cfs_inv_def)
  show thesis
  proof (rule Some [OF c k])
    show "\<forall>e \<in> set m. k < fst e" using assms c by (auto simp: cfs_inv_def)
    show "\<forall>e \<in> set m. key_tid (fst e) \<noteq> key_tid k"
      using assms c by (auto simp: cfs_inv_def rev_image_eqI)
    have "max (min_vruntime q) (key_vruntime k) = key_vruntime k" using k by (rule max_absorb2)
    then show "cfs_pick_next q = (Some t, q\<lparr>cfs_tasks := m, min_vruntime := key_vruntime k,
        total_weight := sat_sub (total_weight q) (ucast NICE_0_WEIGHT), cfs_nr_running := length m\<rparr>)"
      using assms c by (simp add: cfs_inv_def cfs_pick_next_def)
  qed
qed

lemma cfs_inv_pick_next:
  assumes "cfs_inv q" shows "cfs_inv (snd (cfs_pick_next q))"
  using assms
proof (cases rule: cfs_pick_next_cases)
  case (Some k t m)
  have "key_vruntime k \<le> key_vruntime k'" if "k < k'" for k'
    using that by (auto simp: less_key_iff)
  then show ?thesis using assms Some by (auto simp: cfs_inv_def)
qed (use assms in simp)

lemma cfs_take_Some:
  assumes "cfs_inv q" "(key, t) \<in> set (cfs_tasks q)"
  shows "cfs_take s key q = (Some t, q\<lparr>cfs_tasks := filter (\<lambda>(k, _). k \<noteq> key) (cfs_tasks q),
    total_weight := sat_sub (total_weight q) (ucast (weight (tcb_entity (s t)))),
    cfs_nr_running := cfs_nr_running q - 1\<rparr>)"
proof -
  have "distinct (map fst (cfs_tasks q))" using assms(1) by (simp add: cfs_inv_def bt_sorted_distinct)
  then have "map_of (cfs_tasks q) key = Some t" using assms(2) by simp
  then show ?thesis by (simp add: cfs_take_def bt_remove_def)
qed

lemma cfs_inv_delete:
  assumes "cfs_inv q" "key \<in> fst ` set (cfs_tasks q)"
  shows "cfs_inv (q\<lparr>cfs_tasks := filter (\<lambda>(k, _). k \<noteq> key) (cfs_tasks q), total_weight := w,
    cfs_nr_running := cfs_nr_running q - 1\<rparr>)"
  using assms bt_remove_length [of "cfs_tasks q" key]
  by (auto simp: cfs_inv_def bt_sorted_filter distinct_map_filter)

lemma cfs_inv_take:
  assumes "cfs_inv q" shows "cfs_inv (snd (cfs_take s key q))"
proof (cases "map_of (cfs_tasks q) key")
  case None then show ?thesis using assms by (simp add: cfs_take_def bt_remove_def)
next
  case (Some t)
  then have "(key, t) \<in> set (cfs_tasks q)" by (rule map_of_SomeD)
  note t = this
  from imageI [OF t, of fst] have k: "key \<in> fst ` set (cfs_tasks q)" by (simp only: fst_conv)
  show ?thesis
    using cfs_inv_delete [OF assms k, of "sat_sub (total_weight q) (ucast (weight (tcb_entity (s t))))"]
    by (simp add: cfs_take_Some [OF assms t])
qed

lemma cfs_inv_dequeue:
  assumes "cfs_inv q" shows "cfs_inv (cfs_dequeue pid e q)"
proof (cases "map_of (cfs_tasks q) (RunQueueKey (vruntime e) pid)")
  case None then show ?thesis using assms by (simp add: cfs_dequeue_def bt_remove_def)
next
  case (Some t)
  from imageI [OF map_of_SomeD [OF this], of fst]
  have k: "RunQueueKey (vruntime e) pid \<in> fst ` set (cfs_tasks q)" by (simp only: fst_conv)
  show ?thesis
    using cfs_inv_delete [OF assms k, of "sat_sub (total_weight q) (ucast (weight e))"]
    by (simp add: cfs_dequeue_def bt_remove_def Some)
qed

lemma cfs_inv_steal: "cfs_inv q \<Longrightarrow> cfs_inv (snd (steal_for_cpu s cpu q))"
  by (auto simp: steal_for_cpu_def cfs_inv_take split: option.splits)

lemma cfs_take_all_spec:
  assumes "cfs_inv q" "distinct keys" "set keys \<subseteq> fst ` set (cfs_tasks q)" "cfs_take_all s keys q = (ts, q')"
  shows "cfs_inv q' \<and> cfs_tasks q' = filter (\<lambda>(k, _). k \<notin> set keys) (cfs_tasks q)
    \<and> map (Some :: task_ref \<Rightarrow> _) ts = map (map_of (cfs_tasks q)) keys"
  using assms
proof (induction keys arbitrary: q ts q')
  case (Cons key keys)
  from Cons.prems(3) have "key \<in> fst ` set (cfs_tasks q)" by simp
  then obtain t where t: "(key, t) \<in> set (cfs_tasks q)" by auto
  note tk_eq = cfs_take_Some [OF Cons.prems(1) t, of s]
  define q1 where "q1 = snd (cfs_take s key q)"
  have tk: "cfs_take s key q = (Some t, q1)" by (simp add: q1_def tk_eq)
  have tasks1: "cfs_tasks q1 = filter (\<lambda>(k, _). k \<noteq> key) (cfs_tasks q)" by (simp add: q1_def tk_eq)
  obtain ts1 where ts1: "cfs_take_all s keys q1 = (ts1, q')" "ts = t # ts1"
    using Cons.prems(4) by (cases "cfs_take_all s keys q1") (simp add: tk)
  have "cfs_inv q1" unfolding q1_def by (rule cfs_inv_take [OF Cons.prems(1)])
  moreover have "set keys \<subseteq> fst ` set (cfs_tasks q1)"
  proof
    fix k assume "k \<in> set keys"
    then have "k \<noteq> key" "k \<in> fst ` set (cfs_tasks q)" using Cons.prems(2,3) by auto
    then show "k \<in> fst ` set (cfs_tasks q1)" unfolding tasks1 by force
  qed
  ultimately have IH: "cfs_inv q' \<and> cfs_tasks q' = filter (\<lambda>(k, _). k \<notin> set keys) (cfs_tasks q1)
      \<and> map Some ts1 = map (map_of (cfs_tasks q1)) keys"
    using Cons.IH [OF _ _ _ ts1(1)] Cons.prems(2) by simp
  have "distinct (map fst (cfs_tasks q))" using Cons.prems(1) by (simp add: cfs_inv_def bt_sorted_distinct)
  then have mt: "map_of (cfs_tasks q) key = Some t" using t by simp
  have mk: "map (map_of (cfs_tasks q1)) keys = map (map_of (cfs_tasks q)) keys"
    using Cons.prems(2) by (simp add: tasks1 map_of_filter_neq)
  have f: "filter (\<lambda>(k, _). k \<notin> set keys) (cfs_tasks q1) = filter (\<lambda>(k, _). k \<notin> set (key # keys)) (cfs_tasks q)"
    unfolding tasks1 filter_filter by (rule filter_cong) auto
  show ?case using IH by (simp only: f mk mt ts1(2) list.map)
qed simp

lemma cfs_take_filtered:
  assumes "cfs_inv q" "cfs_take_all s (map fst (filter (\<lambda>(_, t). P t) (cfs_tasks q))) q = (ts, q')"
  shows "cfs_inv q' \<and> cfs_tasks q' = filter (\<lambda>(_, t). \<not> P t) (cfs_tasks q) \<and> ts = filter P (cfs_iter q)"
proof -
  let ?ks = "map fst (filter (\<lambda>(_, t). P t) (cfs_tasks q))"
  have d: "distinct (map fst (cfs_tasks q))" using assms(1) by (simp add: cfs_inv_def bt_sorted_distinct)
  have "distinct ?ks" using d by (simp add: distinct_map_filter)
  moreover have "set ?ks \<subseteq> fst ` set (cfs_tasks q)" by auto
  ultimately have spec: "cfs_inv q'" "cfs_tasks q' = filter (\<lambda>(k, _). k \<notin> set ?ks) (cfs_tasks q)"
    "map Some ts = map (map_of (cfs_tasks q)) ?ks"
    using cfs_take_all_spec [OF assms(1) _ _ assms(2)] by blast+
  have mem: "k \<in> set ?ks \<longleftrightarrow> P t" if "(k, t) \<in> set (cfs_tasks q)" for k t
  proof -
    have "k \<in> set ?ks \<longleftrightarrow> (\<exists>t'. (k, t') \<in> set (cfs_tasks q) \<and> P t')" by (auto simp: image_iff)
    then show ?thesis using eq_key_imp_eq_value [OF d that] that by blast
  qed
  have "filter (\<lambda>(k, _). k \<notin> set ?ks) (cfs_tasks q) = filter (\<lambda>(_, t). \<not> P t) (cfs_tasks q)"
    by (rule filter_cong) (use mem in auto)
  moreover have "map (map_of (cfs_tasks q)) ?ks = map Some (filter P (cfs_iter q))"
  proof -
    have "map (map_of (cfs_tasks q)) ?ks = map (Some \<circ> snd) (filter (\<lambda>(_, t). P t) (cfs_tasks q))"
      unfolding map_map by (rule map_cong) (use d in \<open>auto simp: o_def\<close>)
    also have "\<dots> = map Some (filter P (cfs_iter q))" by (simp add: cfs_iter_def filter_map o_def case_prod_unfold)
    finally show ?thesis .
  qed
  ultimately show ?thesis using spec by (simp add: inj_map_eq_map)
qed

lemma remove_by_tgid_spec:
  assumes "cfs_inv q" "remove_by_tgid s tgid q = (ts, q')"
  shows "cfs_inv q' \<and> cfs_tasks q' = filter (\<lambda>(_, t). tcb_tgid (s t) \<noteq> tgid) (cfs_tasks q)
    \<and> ts = filter (\<lambda>t. tcb_tgid (s t) = tgid) (cfs_iter q)"
  using cfs_take_filtered [OF assms(1), of s "\<lambda>t. tcb_tgid (s t) = tgid" ts q'] assms(2)
  unfolding remove_by_tgid_def by blast

lemma cfs_retain_spec:
  assumes "cfs_inv q"
  shows "cfs_inv (cfs_retain s f q)" "cfs_tasks (cfs_retain s f q) = filter (\<lambda>(_, t). f t) (cfs_tasks q)"
proof -
  obtain ts q' where "cfs_take_all s (map fst (filter (\<lambda>(_, t). \<not> f t) (cfs_tasks q))) q = (ts, q')"
    by (cases "cfs_take_all s (map fst (filter (\<lambda>(_, t). \<not> f t) (cfs_tasks q))) q")
  from cfs_take_filtered [OF assms this] this
  show "cfs_inv (cfs_retain s f q)" "cfs_tasks (cfs_retain s f q) = filter (\<lambda>(_, t). f t) (cfs_tasks q)"
    by (simp_all add: cfs_retain_def)
qed

section \<open>Histories of a run queue\<close>

text \<open>The queues a sequence of operations can reach, for whatever control blocks and entities the callers
  have at each moment; a task is enqueued only while its process id is not queued.\<close>

inductive cfs_reach :: "cfs_run_queue \<Rightarrow> bool" where
  New: "cfs_reach cfs_new"
| Enqueue: "cfs_reach q \<Longrightarrow> pid \<notin> set (queued_tids q) \<Longrightarrow> cfs_reach (snd (cfs_enqueue pid t b e q))"
| Dequeue: "cfs_reach q \<Longrightarrow> cfs_reach (cfs_dequeue pid e q)"
| Pick: "cfs_reach q \<Longrightarrow> cfs_reach (snd (cfs_pick_next q))"
| Steal: "cfs_reach q \<Longrightarrow> cfs_reach (snd (steal_for_cpu s cpu q))"
| Remove: "cfs_reach q \<Longrightarrow> cfs_reach (snd (remove_by_tgid s tgid q))"
| Retain: "cfs_reach q \<Longrightarrow> cfs_reach (cfs_retain s f q)"

lemma cfs_reach_inv: "cfs_reach q \<Longrightarrow> cfs_inv q"
proof (induction rule: cfs_reach.induct)
  case (Remove q s tgid)
  then show ?case using remove_by_tgid_spec [of q s tgid] by (cases "remove_by_tgid s tgid q") simp
qed (simp_all add: cfs_inv_new cfs_inv_enqueue cfs_inv_dequeue cfs_inv_pick_next cfs_inv_steal cfs_retain_spec)

section \<open>Rounds\<close>

text \<open>A round picks a task, lets it run, charges it \<open>d\<close> units of virtual runtime and puts it back, as the
  processor loop does with a task that stays ready.\<close>

definition cfs_round :: "u64 \<Rightarrow> tasks \<times> cfs_run_queue \<Rightarrow> task_ref option \<times> tasks \<times> cfs_run_queue" where
  "cfs_round d = (\<lambda>(s, q).
     case cfs_pick_next q of
       (None, q) \<Rightarrow> (None, s, q)
     | (Some t, q) \<Rightarrow>
         let e = tcb_entity (s t);
             (e, q) = cfs_enqueue (tcb_pid (s t)) t False (e\<lparr>vruntime := vruntime e + d\<rparr>) q
         in (Some t, s(t := (s t)\<lparr>tcb_entity := e\<rparr>), q))"

fun cfs_rounds :: "u64 list \<Rightarrow> tasks \<times> cfs_run_queue \<Rightarrow> task_ref option list" where
  "cfs_rounds [] w = []"
| "cfs_rounds (d # ds) w = (case cfs_round d w of (r, w) \<Rightarrow> r # cfs_rounds ds w)"

text \<open>Each queued task's control block agrees with its key.\<close>

definition cfs_consistent :: "tasks \<Rightarrow> cfs_run_queue \<Rightarrow> bool" where
  "cfs_consistent s q \<longleftrightarrow> (\<forall>(k, t) \<in> set (cfs_tasks q).
     tcb_pid (s t) = key_tid k \<and> vruntime (tcb_entity (s t)) = key_vruntime k)"

text \<open>How long the task with key \<open>k\<close> can have to wait: each task ahead of it can be picked once for every
  unit of virtual runtime that separates them.\<close>

definition wait_share :: "run_queue_key \<Rightarrow> run_queue_key \<times> task_ref \<Rightarrow> nat" where
  "wait_share k e = (if fst e < k then unat (key_vruntime k) - unat (key_vruntime (fst e)) + 1 else 0)"

definition wait_bound :: "run_queue_key \<Rightarrow> cfs_run_queue \<Rightarrow> nat" where
  "wait_bound k q = sum_list (map (wait_share k) (cfs_tasks q))"

lemma charge_no_wrap:
  fixes v0 v d D :: u64
  assumes "v0 \<le> v" "d \<le> D" "unat v + unat D < 2 ^ 64" "1 \<le> d"
  shows "unat (v0 + d) = unat v0 + unat d" "v0 < v0 + d"
proof -
  show "unat (v0 + d) = unat v0 + unat d"
    using assms by (simp add: unat_word_ariths word_le_nat_alt)
  then show "v0 < v0 + d" using assms(4) by (simp add: word_less_nat_alt word_le_nat_alt)
qed

lemma cfs_round_step:
  assumes inv: "cfs_inv q" and con: "cfs_consistent s q" and kt: "(k, t) \<in> set (cfs_tasks q)"
    and d: "1 \<le> d" "d \<le> D" "unat (key_vruntime k) + unat D < 2 ^ 64"
    and r: "cfs_round d (s, q) = (r, s', q')" and ne: "r \<noteq> Some t"
  shows "cfs_inv q' \<and> cfs_consistent s' q' \<and> (k, t) \<in> set (cfs_tasks q') \<and> wait_bound k q' < wait_bound k q"
  using inv
proof (cases rule: cfs_pick_next_cases)
  case None then show ?thesis using kt by simp
next
  case (Some k0 t0 m)
  define q1 where "q1 = snd (cfs_pick_next q)"
  define e1 where "e1 = (tcb_entity (s t0))\<lparr>vruntime := key_vruntime k0 + d\<rparr>"
  let ?k1 = "RunQueueKey (key_vruntime k0 + d) (key_tid k0)"
  have t0: "tcb_pid (s t0) = key_tid k0" "vruntime (tcb_entity (s t0)) = key_vruntime k0"
    using con Some(1) by (auto simp: cfs_consistent_def)
  have q1: "cfs_tasks q1 = m" "min_vruntime q1 = key_vruntime k0" using Some(5) by (simp_all add: q1_def)
  have "t0 \<noteq> t" using r ne Some(5) by (auto simp: cfs_round_def Let_def split: prod.splits)
  then have ktm: "(k, t) \<in> set m" using kt Some(1) by auto
  then have lt: "k0 < k" "key_tid k0 \<noteq> key_tid k" using Some(3,4) by auto
  then have "key_vruntime k0 \<le> key_vruntime k" by (auto simp: less_key_iff)
  note nw = charge_no_wrap [OF this d(2,3,1)]
  have place: "place_entity q1 False e1 = e1"
    using nw(2) by (simp add: place_entity_def Let_def q1 e1_def max_def)
  have fresh: "key_tid k0 \<notin> set (queued_tids q1)" using Some(4) q1 by auto
  have enq: "cfs_enqueue (key_tid k0) t0 False e1 q1 = (e1, q')" and s': "s' = s(t0 := (s t0)\<lparr>tcb_entity := e1\<rparr>)"
    using r Some(5) t0 place
    by (auto simp: cfs_round_def Let_def q1_def e1_def cfs_enqueue_def split: prod.splits)
  have q': "cfs_tasks q' = bt_insert ?k1 t0 m"
    using enq place by (auto simp: cfs_enqueue_def Let_def q1 e1_def)
  have sm: "bt_sorted m" using inv Some(1) by (simp add: cfs_inv_def)
  have set': "set (cfs_tasks q') = insert (?k1, t0) (set m)"
    using Some(4) unfolding q' set_bt_insert [OF sm] by auto
  have inv1: "cfs_inv q1" unfolding q1_def by (rule cfs_inv_pick_next [OF inv])
  have "cfs_inv q'" using cfs_inv_enqueue [OF inv1 fresh, of t0 False e1] enq by simp
  moreover have "cfs_consistent s' q'"
  proof -
    have "t' \<noteq> t0" if "(k', t') \<in> set m" for k' t'
      using that con Some(1) bspec [OF Some(4) that] t0(1) unfolding cfs_consistent_def by fastforce
    then show ?thesis using con t0 Some(1) by (auto simp: cfs_consistent_def set' s' e1_def)
  qed
  moreover have "wait_bound k q' < wait_bound k q"
  proof -
    have "?k1 \<notin> fst ` set m" using Some(4) by force
    from bt_insert_fresh [OF this, of t0 "wait_share k"]
    have "wait_bound k q' = wait_share k (?k1, t0) + sum_list (map (wait_share k) m)"
      by (simp add: wait_bound_def q')
    moreover have "wait_share k (?k1, t0) < wait_share k (k0, t0)"
      using lt nw d(1) by (auto simp: wait_share_def less_key_iff word_less_nat_alt word_le_nat_alt)
    ultimately show ?thesis by (simp add: wait_bound_def Some(1))
  qed
  ultimately show ?thesis using ktm by (simp add: set')
qed

lemma cfs_rounds_serve:
  assumes "cfs_inv q" "cfs_consistent s q" "(k, t) \<in> set (cfs_tasks q)"
    and "\<forall>d \<in> set ds. 1 \<le> d \<and> d \<le> D" "unat (key_vruntime k) + unat D < 2 ^ 64"
    and "wait_bound k q < length ds"
  shows "Some t \<in> set (take (wait_bound k q + 1) (cfs_rounds ds (s, q)))"
  using assms
proof (induction ds arbitrary: s q)
  case (Cons d ds)
  obtain r s' q' where r: "cfs_round d (s, q) = (r, s', q')" by (cases "cfs_round d (s, q)")
  show ?case
  proof (cases "r = Some t")
    case True then show ?thesis using r by simp
  next
    case False
    have d: "1 \<le> d" "d \<le> D" using Cons.prems(4) by simp_all
    from cfs_round_step [OF Cons.prems(1-3) d Cons.prems(5) r False]
    have st: "cfs_inv q'" "cfs_consistent s' q'" "(k, t) \<in> set (cfs_tasks q')" "wait_bound k q' < wait_bound k q"
      by auto
    have "Some t \<in> set (take (wait_bound k q' + 1) (cfs_rounds ds (s', q')))"
      using Cons.IH [OF st(1-3)] Cons.prems(4-6) st(4) by simp
    then have "Some t \<in> set (take (wait_bound k q) (cfs_rounds ds (s', q')))"
      using subsetD [OF set_take_subset_set_take [of "wait_bound k q' + 1" "wait_bound k q"]] st(4) by simp
    then show ?thesis using r by simp
  qed
qed simp

section \<open>Charging CPU time\<close>

lemma valid_nice_range: "is_valid_nice n \<Longrightarrow> n \<in> set (map word_of_int [- 20..19])"
proof -
  assume "is_valid_nice n"
  moreover have "word_of_int (sint n) = n" by simp
  ultimately show ?thesis unfolding is_valid_nice_def set_map set_upto
    by (metis atLeastAtMost_iff image_eqI)
qed

lemma nice_index_table:
  "list_all (\<lambda>n. nice_index n = nat (sint n + 20) \<and> clamp_nice n = n) (map word_of_int [- 20..19])"
  by code_simp

lemma nice_index_valid:
  assumes "is_valid_nice n" shows "nice_index n = nat (sint n + 20)" "nice_index n < 40" "clamp_nice n = n"
  using nice_index_table valid_nice_range [OF assms] assms by (auto simp: list_all_iff is_valid_nice_def)

lemma clamp_nice_valid: "is_valid_nice (clamp_nice n)"
  by (simp add: is_valid_nice_def clamp_nice_def)

lemma weight_tables:
  "length NICE_TO_WEIGHT = 40" "length NICE_TO_INV_WEIGHT = 40"
  "sorted (map unat NICE_TO_INV_WEIGHT)" "sorted (rev (map unat NICE_TO_WEIGHT))"
  "\<forall>v \<in> set NICE_TO_INV_WEIGHT. unat v < 2 ^ 29"
  by (simp_all add: NICE_TO_WEIGHT_def NICE_TO_INV_WEIGHT_def)

lemma weight_inverse_table:
  "list_all2 (\<lambda>w v. 2 ^ 32 \<le> unat w * unat v + 40 \<and> unat w * unat v \<le> 2 ^ 32 + 40
     \<and> 0 < unat w \<and> (w = 1024 \<longrightarrow> v = 2 ^ 22)) NICE_TO_WEIGHT NICE_TO_INV_WEIGHT"
  by (simp add: NICE_TO_WEIGHT_def NICE_TO_INV_WEIGHT_def)

lemma weight_inverse:
  assumes "i < 40"
  shows "2 ^ 32 \<le> unat (NICE_TO_WEIGHT ! i) * unat (NICE_TO_INV_WEIGHT ! i) + 40"
    and "unat (NICE_TO_WEIGHT ! i) * unat (NICE_TO_INV_WEIGHT ! i) \<le> 2 ^ 32 + 40"
    and "0 < unat (NICE_TO_WEIGHT ! i)"
    and "NICE_TO_WEIGHT ! i = 1024 \<Longrightarrow> NICE_TO_INV_WEIGHT ! i = 2 ^ 22"
  using list_all2_nthD [OF weight_inverse_table, of i] assms weight_tables(1) by auto

lemma calc_delta_value:
  assumes n: "is_valid_nice n" and d: "unat d < 2 ^ 35"
  shows "\<exists>x. calc_delta_vruntime (entity_new n) d = Ret x
    \<and> unat x = unat d * unat (NICE_TO_INV_WEIGHT ! nice_index n) div 2 ^ 22"
proof -
  let ?i = "nice_index n" and ?v = "NICE_TO_INV_WEIGHT ! nice_index n"
  have i: "?i < 40" by (rule nice_index_valid(2) [OF n])
  have w: "weight (entity_new n) = NICE_TO_WEIGHT ! ?i"
    using nice_index_valid(3) [OF n] by (simp add: entity_new_def nice_to_weight_def)
  show ?thesis
  proof (cases "NICE_TO_WEIGHT ! ?i = 1024")
    case True
    then have "?v = 2 ^ 22" by (rule weight_inverse(4) [OF i])
    then have "unat d * unat ?v div 2 ^ 22 = unat d" by simp
    then show ?thesis using True w by (simp add: calc_delta_vruntime_def NICE_0_WEIGHT_def)
  next
    case False
    have "unat ?v < 2 ^ 29" using weight_tables(2,5) i by (metis nth_mem)
    then have "unat d * unat ?v < 2 ^ 35 * 2 ^ 29" using d by (intro mult_strict_mono) auto
    then have "unat (d * ?v) = unat d * unat ?v" by (simp add: unat_word_ariths)
    moreover have "nice (entity_new n) = n" by (simp add: entity_new_def)
    ultimately show ?thesis using False w i weight_tables(2)
      by (simp add: calc_delta_vruntime_def NICE_0_WEIGHT_def drop_bit_eq_div unat_div_distrib)
  qed
qed

section \<open>Properties\<close>

text \<open>(C9) No starvation: while the tasks of a run queue stay ready and every turn charges between 1 and \<open>D\<close>
  units of virtual runtime, each queued task gets the CPU within \<open>wait_bound + 1\<close> turns, a bound that only
  depends on how far the virtual runtimes of the tasks ahead of it lie behind its own (and the sum of its
  own and \<open>D\<close> does not overflow).\<close>

theorem cfs_no_starvation:
  assumes "cfs_reach q" "cfs_consistent s q" "(k, t) \<in> set (cfs_tasks q)"
    and "\<forall>d \<in> set ds. 1 \<le> d \<and> d \<le> D" "unat (key_vruntime k) + unat D < 2 ^ 64"
    and "wait_bound k q < length ds"
  shows "Some t \<in> set (take (wait_bound k q + 1) (cfs_rounds ds (s, q)))"
  using cfs_rounds_serve [OF cfs_reach_inv [OF assms(1)] assms(2-6)] .

definition demo_tasks :: tasks where
  "demo_tasks t = \<lparr>tcb_pid = t, tcb_tgid = t, tcb_running_on_cpu = TASK_NOT_RUNNING, tcb_on_cpu = False,
     tcb_status = Ready, tcb_entity = (entity_new 0)\<lparr>vruntime := if t = 8 then 2 else 0\<rparr>, tcb_ra = 0x80200000\<rparr>"

definition demo_queue :: cfs_run_queue where
  "demo_queue = snd (cfs_enqueue 8 8 False (tcb_entity (demo_tasks 8))
     (snd (cfs_enqueue 7 7 False (tcb_entity (demo_tasks 7)) cfs_new)))"

lemma demo_queue_tasks: "cfs_tasks demo_queue = [(RunQueueKey 0 7, 7), (RunQueueKey 2 8, 8)]"
  by (simp add: demo_queue_def cfs_enqueue_def cfs_new_def place_entity_def demo_tasks_def Let_def
      less_key_iff)

lemma demo_queue_reach: "cfs_reach demo_queue"
  unfolding demo_queue_def
  by (intro cfs_reach.Enqueue cfs_reach.New) (simp_all add: cfs_new_def cfs_enqueue_def Let_def)

theorem cfs_no_starvation_witness:
  "wait_bound (RunQueueKey 2 8) demo_queue = 3
   \<and> Some 8 \<in> set (take 4 (cfs_rounds (replicate 5 1) (demo_tasks, demo_queue)))"
proof -
  have b: "wait_bound (RunQueueKey 2 8) demo_queue = 3"
    by (simp add: wait_bound_def demo_queue_tasks wait_share_def less_key_iff)
  have "cfs_consistent demo_tasks demo_queue"
    by (simp add: cfs_consistent_def demo_queue_tasks demo_tasks_def)
  from cfs_no_starvation [OF demo_queue_reach this, of "RunQueueKey 2 8" 8 "replicate 5 1" 1] b
  show ?thesis by (simp add: demo_queue_tasks)
qed

text \<open>On every reachable queue the emptiness test and the counter are exact, \<open>pick_next\<close> returns nothing only
  from an empty queue, and otherwise removes exactly one task whose virtual runtime is the least in the queue
  and which becomes the new minimum: the minimum never decreases, and no task placed later runs with less.\<close>

theorem cfs_pick_least:
  assumes "cfs_reach q"
  shows "cfs_len q = length (cfs_iter q)
    \<and> (case cfs_pick_next q of
         (None, q') \<Rightarrow> cfs_is_empty q \<and> q' = q
       | (Some t, q') \<Rightarrow> cfs_len q = Suc (cfs_len q') \<and> (\<exists>k. cfs_tasks q = (k, t) # cfs_tasks q'
           \<and> min_vruntime q \<le> min_vruntime q' \<and> min_vruntime q' = key_vruntime k
           \<and> (\<forall>e \<in> set (cfs_tasks q'). key_vruntime k \<le> key_vruntime (fst e))
           \<and> (\<forall>b e. key_vruntime k \<le> vruntime (place_entity q' b e))))"
proof -
  note inv = cfs_reach_inv [OF assms]
  then have l: "cfs_nr_running q = length (cfs_tasks q)" by (simp add: cfs_inv_def)
  from inv show ?thesis
  proof (cases rule: cfs_pick_next_cases)
    case None
    then show ?thesis using l by (simp add: cfs_len_def cfs_iter_def cfs_is_empty_def)
  next
    case (Some k t m)
    have "key_vruntime k \<le> vruntime (place_entity (snd (cfs_pick_next q)) b e)" for b e
      using place_entity_ge [of "snd (cfs_pick_next q)" b e] Some(5) by simp
    then show ?thesis using Some l
      by (auto simp: cfs_len_def cfs_iter_def less_key_iff)
  qed
qed

theorem cfs_pick_least_witness:
  "cfs_reach demo_queue \<and> cfs_len demo_queue = 2 \<and> fst (cfs_pick_next demo_queue) = Some 7"
  using cfs_pick_least [OF demo_queue_reach] demo_queue_reach
  by (auto simp: cfs_iter_def demo_queue_tasks cfs_is_empty_def cfs_len_def split: prod.splits option.splits)

text \<open>For every valid nice value and up to 34 seconds of CPU time at once, charging never panics, the charge
  times the weight is 1024 times the CPU time up to rounding and a relative error of 40 / 2^32, and a task with
  a smaller nice value (a larger weight) is charged no more than one with a larger nice value.\<close>

theorem vruntime_charge_follows_weight:
  assumes "is_valid_nice a" "is_valid_nice b" "sint a \<le> sint b" "unat d < 2 ^ 35"
  shows "\<exists>x y. calc_delta_vruntime (entity_new a) d = Ret x \<and> calc_delta_vruntime (entity_new b) d = Ret y
    \<and> x \<le> y \<and> nice_to_weight b \<le> nice_to_weight a
    \<and> unat x * unat (nice_to_weight a) * 2 ^ 22 \<le> unat d * (2 ^ 32 + 40)
    \<and> unat d * (2 ^ 32 - 40) < (unat x + 1) * unat (nice_to_weight a) * 2 ^ 22"
proof -
  let ?i = "nice_index a" and ?j = "nice_index b"
  let ?w = "unat (NICE_TO_WEIGHT ! nice_index a)" and ?v = "unat (NICE_TO_INV_WEIGHT ! nice_index a)"
  have ij: "?i \<le> ?j" "?i < 40" "?j < 40" using nice_index_valid [OF assms(1)] nice_index_valid [OF assms(2)] assms(3)
    by auto
  obtain x y where x: "calc_delta_vruntime (entity_new a) d = Ret x" "unat x = unat d * ?v div 2 ^ 22"
    and y: "calc_delta_vruntime (entity_new b) d = Ret y"
      "unat y = unat d * unat (NICE_TO_INV_WEIGHT ! nice_index b) div 2 ^ 22"
    using calc_delta_value assms by blast
  have w: "nice_to_weight a = NICE_TO_WEIGHT ! ?i" "nice_to_weight b = NICE_TO_WEIGHT ! ?j"
    using nice_index_valid(3) assms by (simp_all add: nice_to_weight_def)
  have "?v \<le> unat (NICE_TO_INV_WEIGHT ! ?j)"
    using sorted_nth_mono [OF weight_tables(3) ij(1)] ij weight_tables(2) by simp
  then have "x \<le> y" unfolding word_le_nat_alt x y by (intro div_le_mono mult_le_mono) auto
  moreover have "NICE_TO_WEIGHT ! ?j \<le> NICE_TO_WEIGHT ! ?i"
    using sorted_rev_nth_mono [OF weight_tables(4) ij(1)] ij weight_tables(1) by (simp add: word_le_nat_alt)
  moreover have "unat x * ?w * 2 ^ 22 \<le> unat d * (2 ^ 32 + 40)"
  proof -
    have "unat x * 2 ^ 22 \<le> unat d * ?v" unfolding x(2) by (rule div_times_less_eq_dividend)
    then have "unat x * 2 ^ 22 * ?w \<le> unat d * (?w * ?v)"
      using mult_le_mono1 [of "unat x * 2 ^ 22" "unat d * ?v" ?w] by (simp add: ac_simps)
    also have "\<dots> \<le> unat d * (2 ^ 32 + 40)" using weight_inverse(2) [OF ij(2)] by (intro mult_le_mono) auto
    finally show ?thesis by (simp add: ac_simps)
  qed
  moreover have "unat d * (2 ^ 32 - 40) < (unat x + 1) * ?w * 2 ^ 22"
  proof -
    have "unat d * ?v < (unat x + 1) * 2 ^ 22"
      unfolding x(2) using dividend_less_div_times [of "2 ^ 22" "unat d * ?v"] by (simp add: algebra_simps)
    then have lt: "unat d * ?v * ?w < (unat x + 1) * 2 ^ 22 * ?w"
      using weight_inverse(3) [OF ij(2)] by (rule mult_strict_right_mono)
    have "unat d * (2 ^ 32 - 40) \<le> unat d * (?w * ?v)"
      using weight_inverse(1) [OF ij(2)] by (intro mult_le_mono) auto
    also have "\<dots> = unat d * ?v * ?w" by (simp only: ac_simps)
    also note lt
    also have "(unat x + 1) * 2 ^ 22 * ?w = (unat x + 1) * ?w * 2 ^ 22" by (simp only: ac_simps)
    finally show ?thesis .
  qed
  ultimately show ?thesis using x(1) y(1) w by auto
qed

theorem vruntime_charge_follows_weight_witness:
  "\<exists>x y. calc_delta_vruntime (entity_new (- 10)) 1000 = Ret x \<and> calc_delta_vruntime (entity_new 10) 1000 = Ret y
    \<and> x \<le> y"
  using vruntime_charge_follows_weight [of "- 10" 10 1000] by (auto simp: is_valid_nice_def)

text \<open>The accounting is not exact.  \<open>pick_next\<close> subtracts the weight of nice 0 whatever the weight of the task
  it removes: a queue that is empty again can keep a positive total weight, which shortens every later time
  slice.  Enqueuing a task whose key is already in the queue counts it twice, after which the queue says it is
  not empty but has nothing to pick.  An entity created with a nice value outside -20..19 panics when charged.\<close>

theorem cfs_accounting_drifts:
  "(let q = snd (cfs_pick_next (snd (cfs_enqueue 1 1 True (entity_new (- 20)) cfs_new)))
    in cfs_is_empty q \<and> total_weight q = 87737
       \<and> calc_time_slice 1024 (q\<lparr>cfs_nr_running := 2, total_weight := total_weight q + 2048\<rparr>) = 750000)
   \<and> calc_time_slice 1024 (cfs_new\<lparr>cfs_nr_running := 2, total_weight := 2048\<rparr>) = 3000000
   \<and> (let (e, q1) = cfs_enqueue 1 t False (entity_new 0) cfs_new;
          q = snd (cfs_pick_next (snd (cfs_enqueue 1 t False e q1)))
      in \<not> cfs_is_empty q \<and> fst (cfs_pick_next q) = None)
   \<and> calc_delta_vruntime (entity_new 30) d = Panic"
  by (simp add: Let_def cfs_pick_next_def cfs_enqueue_def place_entity_def cfs_new_def cfs_is_empty_def
      calc_time_slice_def sat_sub_def sat_add_def entity_new_def entity_default_def nice_to_weight_def
      clamp_nice_def nice_index_def NICE_TO_WEIGHT_def NICE_TO_INV_WEIGHT_def cfs_consts
      calc_delta_vruntime_def max_def word_le_nat_alt)

end
