(* ===== verification/Sched_Class.thy ===== *)
theory Sched_Class
  imports Cfs
begin

text \<open>
  The scheduling classes of \<open>task/sched_class.rs\<close>: the real-time queue (an array of FIFOs with a bitmap of the
  non-empty ones) and the idle queue, and the contract that the real-time, fair and idle queues all meet
  towards the task manager.
\<close>

section \<open>The contract of a run queue\<close>

text \<open>Picking never panics, gives nothing only when nothing is queued, and otherwise takes exactly one queued
  task out.\<close>

locale run_queue =
  fixes inv :: "'q \<Rightarrow> bool"
    and contents :: "'q \<Rightarrow> task_ref multiset"
    and pick :: "'q \<Rightarrow> (task_ref option \<times> 'q) outcome"
  assumes pick_total: "inv q \<Longrightarrow> \<exists>r q'. pick q = Ret (r, q')"
    and pick_None: "inv q \<Longrightarrow> pick q = Ret (None, q') \<Longrightarrow> q' = q \<and> contents q = {#}"
    and pick_Some: "inv q \<Longrightarrow> pick q = Ret (Some t, q') \<Longrightarrow> inv q' \<and> contents q = add_mset t (contents q')"
begin

lemma pick_cases:
  assumes "inv q"
  obtains (None) "pick q = Ret (None, q)" "contents q = {#}"
  | (Some) t q' where "pick q = Ret (Some t, q')" "inv q'" "contents q = add_mset t (contents q')"
proof -
  from pick_total [OF assms] obtain r q' where p: "pick q = Ret (r, q')" by blast
  show thesis
  proof (cases r)
    case None
    then show thesis using that(1) p pick_None [OF assms] by blast
  next
    case (Some t)
    then show thesis using that(2) p pick_Some [OF assms] by blast
  qed
qed

lemma pick_served_iff:
  assumes "inv q" shows "(\<exists>t q'. pick q = Ret (Some t, q')) \<longleftrightarrow> contents q \<noteq> {#}"
  using assms by (cases rule: pick_cases) auto

end

section \<open>The real-time queue\<close>

definition MAX_RT_PRIO :: u8 where "MAX_RT_PRIO = 99"
definition RT_PRIO_LEVELS :: nat where "RT_PRIO_LEVELS = 100"
definition RR_TIMESLICE_NS :: u64 where "RR_TIMESLICE_NS = 100000000"

record rt_run_queue =
  queues :: "task_ref list list"
  rt_bitmap :: u128
  rt_nr_running :: nat

definition rt_new :: rt_run_queue where
  "rt_new = \<lparr>queues = replicate RT_PRIO_LEVELS [], rt_bitmap = 0, rt_nr_running = 0\<rparr>"

definition rt_is_empty :: "rt_run_queue \<Rightarrow> bool" where "rt_is_empty q \<longleftrightarrow> rt_nr_running q = 0"
definition rt_len :: "rt_run_queue \<Rightarrow> nat" where "rt_len q = rt_nr_running q"

definition rt_prio :: "sched_entity \<Rightarrow> nat" where "rt_prio e = unat (min (rt_priority e) MAX_RT_PRIO)"

definition rt_enqueue :: "task_ref \<Rightarrow> sched_entity \<Rightarrow> rt_run_queue \<Rightarrow> rt_run_queue" where
  "rt_enqueue task e q =
     (let prio = rt_prio e in
      if prio = 0 then q
      else q\<lparr>queues := (queues q)[prio := queues q ! prio @ [task]],
             rt_bitmap := rt_bitmap q OR push_bit prio 1,
             rt_nr_running := rt_nr_running q + 1\<rparr>)"

definition rt_dequeue :: "task_ref \<Rightarrow> sched_entity \<Rightarrow> rt_run_queue \<Rightarrow> rt_run_queue" where
  "rt_dequeue task e q =
     (let prio = rt_prio e in
      if prio = 0 then q
      else if task \<in> set (queues q ! prio) then
        let queue = remove1 task (queues q ! prio);
            q = q\<lparr>queues := (queues q)[prio := queue], rt_nr_running := rt_nr_running q - 1\<rparr>
        in if queue = [] then q\<lparr>rt_bitmap := rt_bitmap q AND NOT (push_bit prio 1)\<rparr> else q
      else q)"

definition rt_pick_next :: "rt_run_queue \<Rightarrow> (task_ref option \<times> rt_run_queue) outcome" where
  "rt_pick_next q =
     (if rt_bitmap q = 0 then Ret (None, q)
      else
        let highest_prio = 127 - leading_zeros (rt_bitmap q) in
        if highest_prio \<ge> length (queues q) then Panic
        else
          case queues q ! highest_prio of
            [] \<Rightarrow> Ret (None, q)
          | task # queue \<Rightarrow>
              let q = q\<lparr>queues := (queues q)[highest_prio := queue], rt_nr_running := rt_nr_running q - 1\<rparr>
              in Ret (Some task,
                      if queue = [] then q\<lparr>rt_bitmap := rt_bitmap q AND NOT (push_bit highest_prio 1)\<rparr> else q))"

definition rt_peek_next :: "rt_run_queue \<Rightarrow> task_ref option outcome" where
  "rt_peek_next q =
     (if rt_bitmap q = 0 then Ret None
      else
        let highest_prio = 127 - leading_zeros (rt_bitmap q) in
        if highest_prio \<ge> length (queues q) then Panic
        else Ret (case queues q ! highest_prio of [] \<Rightarrow> None | task # _ \<Rightarrow> Some task))"

definition requeue_rr :: "task_ref \<Rightarrow> sched_entity \<Rightarrow> rt_run_queue \<Rightarrow> rt_run_queue" where
  "requeue_rr task e q =
     (let prio = rt_prio e in
      if prio = 0 then q
      else q\<lparr>queues := (queues q)[prio := queues q ! prio @ [task]], rt_bitmap := rt_bitmap q OR push_bit prio 1\<rparr>)"

definition rt_should_preempt :: "sched_entity \<Rightarrow> sched_entity \<Rightarrow> bool" where
  "rt_should_preempt cur wake =
     (if \<not> is_realtime (policy cur) then True else rt_priority wake > rt_priority cur)"

fun find_in_queues :: "(task_ref \<Rightarrow> bool) \<Rightarrow> task_ref list list \<Rightarrow> task_ref option" where
  "find_in_queues P [] = None"
| "find_in_queues P (queue # qs) = (case find P queue of Some t \<Rightarrow> Some t | None \<Rightarrow> find_in_queues P qs)"

definition rt_find_by_pid :: "tasks \<Rightarrow> nat \<Rightarrow> rt_run_queue \<Rightarrow> task_ref option" where
  "rt_find_by_pid s pid q = find_in_queues (\<lambda>t. tcb_pid (s t) = pid) (queues q)"

definition rt_find_by_tgid :: "tasks \<Rightarrow> nat \<Rightarrow> rt_run_queue \<Rightarrow> task_ref option" where
  "rt_find_by_tgid s tgid q = find_in_queues (\<lambda>t. tcb_tgid (s t) = tgid) (queues q)"

definition rt_iter :: "rt_run_queue \<Rightarrow> task_ref list" where "rt_iter q = concat (queues q)"

section \<open>The idle queue\<close>

record idle_run_queue =
  idle_queue :: "task_ref list"

definition idle_new :: idle_run_queue where "idle_new = \<lparr>idle_queue = []\<rparr>"
definition idle_is_empty :: "idle_run_queue \<Rightarrow> bool" where "idle_is_empty q \<longleftrightarrow> idle_queue q = []"
definition idle_len :: "idle_run_queue \<Rightarrow> nat" where "idle_len q = length (idle_queue q)"

definition idle_enqueue :: "task_ref \<Rightarrow> idle_run_queue \<Rightarrow> idle_run_queue" where
  "idle_enqueue task q = q\<lparr>idle_queue := idle_queue q @ [task]\<rparr>"

definition idle_dequeue :: "task_ref \<Rightarrow> idle_run_queue \<Rightarrow> idle_run_queue" where
  "idle_dequeue task q = q\<lparr>idle_queue := remove1 task (idle_queue q)\<rparr>"

definition idle_pick_next :: "idle_run_queue \<Rightarrow> task_ref option \<times> idle_run_queue" where
  "idle_pick_next q =
     (case idle_queue q of [] \<Rightarrow> (None, q) | task # queue \<Rightarrow> (Some task, q\<lparr>idle_queue := queue\<rparr>))"

definition idle_find_by_pid :: "tasks \<Rightarrow> nat \<Rightarrow> idle_run_queue \<Rightarrow> task_ref option" where
  "idle_find_by_pid s pid q = find (\<lambda>t. tcb_pid (s t) = pid) (idle_queue q)"

definition idle_find_by_tgid :: "tasks \<Rightarrow> nat \<Rightarrow> idle_run_queue \<Rightarrow> task_ref option" where
  "idle_find_by_tgid s tgid q = find (\<lambda>t. tcb_tgid (s t) = tgid) (idle_queue q)"

definition idle_iter :: "idle_run_queue \<Rightarrow> task_ref list" where "idle_iter q = idle_queue q"

section \<open>Classes\<close>

datatype sched_class = RtClass | CfsClass | IdleClass

definition get_sched_class :: "sched_entity \<Rightarrow> sched_class" where
  "get_sched_class e =
     (case policy e of Fifo \<Rightarrow> RtClass | RoundRobin \<Rightarrow> RtClass | IdlePolicy \<Rightarrow> IdleClass
      | Normal \<Rightarrow> CfsClass | Batch \<Rightarrow> CfsClass)"

section \<open>Lemmas\<close>

text \<open>The bitmap shows exactly the non-empty levels, level 0 is unused, and the counter is exact.\<close>

definition rt_inv :: "rt_run_queue \<Rightarrow> bool" where
  "rt_inv q \<longleftrightarrow> length (queues q) = RT_PRIO_LEVELS \<and> queues q ! 0 = []
     \<and> (\<forall>p < 128. bit (rt_bitmap q) p \<longleftrightarrow> p < RT_PRIO_LEVELS \<and> queues q ! p \<noteq> [])
     \<and> rt_nr_running q = length (rt_iter q)"

lemma rt_prio_less: "rt_prio e < 100"
proof -
  have "min (rt_priority e) 99 \<le> (99 :: u8)" by simp
  then show ?thesis by (simp add: rt_prio_def MAX_RT_PRIO_def word_le_nat_alt del: min.cobounded2)
qed

lemma length_concat_update:
  "p < length qs \<Longrightarrow> length (concat (qs[p := x])) + length (qs ! p) = length (concat qs) + length x"
  by (induction qs arbitrary: p) (auto split: nat.splits)

lemma mset_concat_update:
  "p < length qs \<Longrightarrow> mset (concat (qs[p := x])) + mset (qs ! p) = mset (concat qs) + mset x"
  by (induction qs arbitrary: p) (auto split: nat.splits)

lemma rt_inv_new: "rt_inv rt_new"
  by (simp add: rt_inv_def rt_new_def rt_iter_def RT_PRIO_LEVELS_def)

lemma rt_inv_enqueue:
  assumes "rt_inv q"
  shows "rt_inv (rt_enqueue t e q)"
    and "rt_prio e \<noteq> 0 \<Longrightarrow> mset (rt_iter (rt_enqueue t e q)) = add_mset t (mset (rt_iter q))"
proof -
  let ?p = "rt_prio e"
  have p: "?p < length (queues q)" using rt_prio_less [of e] assms by (simp add: rt_inv_def RT_PRIO_LEVELS_def)
  have b: "bit (rt_bitmap q OR push_bit ?p 1) j \<longleftrightarrow> bit (rt_bitmap q) j \<or> j = ?p" for j
    using rt_prio_less [of e] by (intro bit_or_push_bit) simp
  show "rt_inv (rt_enqueue t e q)"
    using assms p b length_concat_update [OF p, of "queues q ! ?p @ [t]"]
    by (auto simp: rt_inv_def rt_enqueue_def Let_def rt_iter_def nth_list_update simp del: push_bit_of_1)
  show "mset (rt_iter (rt_enqueue t e q)) = add_mset t (mset (rt_iter q))" if "?p \<noteq> 0"
    using mset_concat_update [OF p, of "queues q ! ?p @ [t]"] that
    by (simp add: rt_iter_def rt_enqueue_def Let_def)
qed

text \<open>Taking one task out of a level and clearing its bit when the level becomes empty.\<close>

definition rt_shrink :: "nat \<Rightarrow> task_ref list \<Rightarrow> rt_run_queue \<Rightarrow> rt_run_queue" where
  "rt_shrink p x q =
     (let q = q\<lparr>queues := (queues q)[p := x], rt_nr_running := rt_nr_running q - 1\<rparr>
      in if x = [] then q\<lparr>rt_bitmap := rt_bitmap q AND NOT (push_bit p 1)\<rparr> else q)"

lemma queues_rt_shrink [simp]: "queues (rt_shrink p x q) = (queues q)[p := x]"
  by (simp add: rt_shrink_def Let_def)

lemma rt_inv_shrink:
  assumes "rt_inv q" "p < 100" "mset (queues q ! p) = add_mset t (mset x)"
  shows "rt_inv (rt_shrink p x q)" "mset (rt_iter q) = add_mset t (mset (rt_iter (rt_shrink p x q)))"
proof -
  have p: "p < length (queues q)" using assms(1,2) by (simp add: rt_inv_def RT_PRIO_LEVELS_def)
  have l: "length (queues q ! p) = Suc (length x)" using arg_cong [OF assms(3), of size] by simp
  have b: "bit (rt_bitmap q AND NOT (push_bit p 1)) j \<longleftrightarrow> bit (rt_bitmap q) j \<and> j \<noteq> p" for j
    using assms(2) by (intro bit_and_not_push_bit) simp
  have p0: "p \<noteq> 0" using assms(1) l by (metis length_0_conv nat.distinct(1) rt_inv_def)
  have c: "length (concat ((queues q)[p := x])) = length (concat (queues q)) - 1"
    using length_concat_update [OF p, of x] l by simp
  have ne: "queues q ! p \<noteq> []" using l by auto
  show "rt_inv (rt_shrink p x q)"
    using assms(1,2) p p0 b c ne
    by (auto simp: rt_inv_def rt_shrink_def Let_def rt_iter_def nth_list_update simp del: push_bit_of_1)
  show "mset (rt_iter q) = add_mset t (mset (rt_iter (rt_shrink p x q)))"
    using mset_concat_update [OF p, of x] assms(3) by (simp add: rt_iter_def)
qed

lemma rt_inv_dequeue:
  assumes "rt_inv q" shows "rt_inv (rt_dequeue t e q)"
proof (cases "rt_prio e \<noteq> 0 \<and> t \<in> set (queues q ! rt_prio e)")
  case True
  then have "rt_dequeue t e q = rt_shrink (rt_prio e) (remove1 t (queues q ! rt_prio e)) q"
    by (simp add: rt_dequeue_def rt_shrink_def Let_def)
  moreover have "mset (queues q ! rt_prio e) = add_mset t (mset (remove1 t (queues q ! rt_prio e)))"
    using True by simp
  ultimately show ?thesis using rt_inv_shrink(1) [OF assms rt_prio_less] by simp
next
  case False
  then show ?thesis using assms by (auto simp: rt_dequeue_def Let_def)
qed

text \<open>What picking does: nothing on an empty queue, else it takes the head of the highest non-empty level.\<close>

lemma rt_pick_cases:
  assumes "rt_inv q"
  obtains (Empty) "\<forall>p < RT_PRIO_LEVELS. queues q ! p = []" "rt_pick_next q = Ret (None, q)"
  | (Level) p t x where "p < RT_PRIO_LEVELS" "queues q ! p = t # x" "rt_pick_next q = Ret (Some t, rt_shrink p x q)"
      "\<forall>j < RT_PRIO_LEVELS. p < j \<longrightarrow> queues q ! j = []"
proof (cases "rt_bitmap q = 0")
  case True
  then have "\<forall>p < RT_PRIO_LEVELS. queues q ! p = []"
    using assms by (auto simp: rt_inv_def RT_PRIO_LEVELS_def)
  then show thesis using Empty True by (simp add: rt_pick_next_def)
next
  case False
  let ?p = "127 - leading_zeros (rt_bitmap q)"
  have "bit (rt_bitmap q) ?p" using leading_zeros_spec(2) [OF False] by simp
  moreover have "?p < 128" by simp
  ultimately have p: "?p < RT_PRIO_LEVELS" "queues q ! ?p \<noteq> []" using assms by (auto simp: rt_inv_def)
  then obtain t x where tx: "queues q ! ?p = t # x" by (cases "queues q ! ?p") auto
  have "queues q ! j = []" if "j < RT_PRIO_LEVELS" "?p < j" for j
    using leading_zeros_spec(3) [OF False, of j] that assms by (auto simp: rt_inv_def RT_PRIO_LEVELS_def)
  moreover have "rt_pick_next q = Ret (Some t, rt_shrink ?p x q)"
    using False p tx assms by (simp add: rt_pick_next_def rt_shrink_def rt_inv_def Let_def)
  ultimately show thesis using Level [OF p(1) tx] by blast
qed

lemma rt_iter_empty:
  assumes "rt_inv q" "\<forall>p < RT_PRIO_LEVELS. queues q ! p = []" shows "rt_iter q = []"
  using assms by (auto simp: rt_iter_def rt_inv_def in_set_conv_nth)

interpretation rt: run_queue rt_inv "\<lambda>q. mset (rt_iter q)" rt_pick_next
proof unfold_locales
  fix q assume inv: "rt_inv q"
  then show "\<exists>r q'. rt_pick_next q = Ret (r, q')" by (cases rule: rt_pick_cases) auto
  show "q' = q \<and> mset (rt_iter q) = {#}" if "rt_pick_next q = Ret (None, q')" for q'
    using inv that rt_iter_empty [OF inv] by (cases rule: rt_pick_cases) auto
  show "rt_inv q' \<and> mset (rt_iter q) = add_mset t (mset (rt_iter q'))"
    if "rt_pick_next q = Ret (Some t, q')" for t q'
    using inv
  proof (cases rule: rt_pick_cases)
    case (Level p t1 x)
    then show ?thesis using rt_inv_shrink [OF inv, of p t1 x] that by (simp add: RT_PRIO_LEVELS_def)
  qed (use that in simp)
qed

interpretation cfs: run_queue cfs_inv "\<lambda>q. mset (cfs_iter q)" "\<lambda>q. Ret (cfs_pick_next q)"
proof unfold_locales
  fix q assume inv: "cfs_inv q"
  show "\<exists>r q'. Ret (cfs_pick_next q) = Ret (r, q')" by (cases "cfs_pick_next q") simp
  show "q' = q \<and> mset (cfs_iter q) = {#}" if "Ret (cfs_pick_next q) = Ret (None, q')" for q'
    using inv that by (cases rule: cfs_pick_next_cases) (auto simp: cfs_iter_def)
  show "cfs_inv q' \<and> mset (cfs_iter q) = add_mset t (mset (cfs_iter q'))"
    if p: "Ret (cfs_pick_next q) = Ret (Some t, q')" for t q'
  proof -
    have "cfs_inv q'" using cfs_inv_pick_next [OF inv] p by simp
    moreover from inv have "mset (cfs_iter q) = add_mset t (mset (cfs_iter q'))"
      using p by (cases rule: cfs_pick_next_cases [where q = q]) (auto simp: cfs_iter_def)
    ultimately show ?thesis ..
  qed
qed

interpretation idle: run_queue "\<lambda>_. True" "\<lambda>q. mset (idle_iter q)" "\<lambda>q. Ret (idle_pick_next q)"
  by unfold_locales (auto simp: idle_pick_next_def idle_iter_def split: list.splits)

section \<open>Histories of the real-time queue\<close>

inductive rt_reach :: "rt_run_queue \<Rightarrow> bool" where
  New: "rt_reach rt_new"
| Enqueue: "rt_reach q \<Longrightarrow> rt_reach (rt_enqueue t e q)"
| Dequeue: "rt_reach q \<Longrightarrow> rt_reach (rt_dequeue t e q)"
| Pick: "rt_reach q \<Longrightarrow> rt_pick_next q = Ret (r, q') \<Longrightarrow> rt_reach q'"

lemma rt_reach_inv: "rt_reach q \<Longrightarrow> rt_inv q"
proof (induction rule: rt_reach.induct)
  case (Pick q r q')
  show ?case
  proof (cases r)
    case None then show ?thesis using rt.pick_None [OF Pick.IH] Pick by blast
  next
    case (Some t) then show ?thesis using rt.pick_Some [OF Pick.IH] Pick by blast
  qed
qed (simp_all add: rt_inv_new rt_inv_enqueue rt_inv_dequeue)

section \<open>Properties\<close>


definition demo_rt :: rt_run_queue where
  "demo_rt = rt_enqueue 3 (entity_new_rt RoundRobin 10) (rt_enqueue 2 (entity_new_rt Fifo 50)
     (rt_enqueue 1 (entity_new_rt Fifo 10) rt_new))"


text \<open>\<open>requeue_rr\<close> does not count the task it puts back: a queue that holds only a task whose time slice
  expired says it is empty, although \<open>pick_next\<close> returns the task.  A real-time entity of priority 0 is dropped
  by \<open>enqueue\<close>.\<close>

theorem rt_requeue_uncounted:
  "(let q = requeue_rr t (entity_new_rt RoundRobin 1) rt_new
    in rt_is_empty q \<and> (\<exists>q'. rt_pick_next q = Ret (Some t, q')))
   \<and> rt_enqueue t (entity_default\<lparr>policy := Fifo\<rparr>) q = q"
proof -
  have lz: "127 - leading_zeros (2 :: u128) = 1"
    using leading_zeros_spec(2) [of "2 :: u128"] bit_push_bit_1 [of 1, where 'a = 128] by simp
  show ?thesis
    by (simp add: requeue_rr_def rt_prio_def MAX_RT_PRIO_def entity_new_rt_def entity_default_def rt_new_def
        RT_PRIO_LEVELS_def rt_is_empty_def rt_pick_next_def Let_def rt_enqueue_def lz del: diff_is_0_eq)
qed

end
