(* ===== verification/Task_Manager.thy ===== *)
theory Task_Manager
  imports Sched_Class Timer
begin

text \<open>
  The task managers of \<open>task/manager.rs\<close>: one per CPU, with the three run queues, the queue of sleeping tasks and
  the activity bitmap; sleeping and waking, wait queues, and timeouts.  A manager held by another CPU is one
  whose \<open>try_lock\<close> fails: the parameter \<open>free\<close> says, for the n-th attempt and a CPU, whether the lock is free.
  \<open>Weak::upgrade\<close> succeeds for the tasks that are still alive.
\<close>

section \<open>The activity bitmap\<close>

definition SYSTEM_TASK_LIMIT :: nat where "SYSTEM_TASK_LIMIT = 128"

definition at_new :: "u64 list" where "at_new = replicate ((SYSTEM_TASK_LIMIT + 63) div 64) 0"

definition check_active :: "nat \<Rightarrow> u64 list \<Rightarrow> bool outcome" where
  "check_active pid bm =
     (if pid div 64 < length bm then Ret (bm ! (pid div 64) AND push_bit (pid mod 64) 1 \<noteq> 0) else Panic)"

definition check_inactive :: "nat \<Rightarrow> u64 list \<Rightarrow> bool outcome" where
  "check_inactive pid bm =
     (if pid div 64 < length bm then Ret (bm ! (pid div 64) AND push_bit (pid mod 64) 1 = 0) else Panic)"

definition mark_active :: "nat \<Rightarrow> u64 list \<Rightarrow> u64 list outcome" where
  "mark_active pid bm =
     (if pid div 64 < length bm then Ret (bm[pid div 64 := bm ! (pid div 64) OR push_bit (pid mod 64) 1]) else Panic)"

definition mark_inactive :: "nat \<Rightarrow> u64 list \<Rightarrow> u64 list outcome" where
  "mark_inactive pid bm =
     (if pid div 64 < length bm
      then Ret (bm[pid div 64 := bm ! (pid div 64) AND NOT (push_bit (pid mod 64) 1)]) else Panic)"

section \<open>One manager\<close>

record task_manager =
  rt_rq :: rt_run_queue
  cfs_rq :: cfs_run_queue
  idle_rq :: idle_run_queue
  interruptible_queue :: "task_ref list"
  active_tracker :: "u64 list"

definition tm_new :: task_manager where
  "tm_new = \<lparr>rt_rq = rt_new, cfs_rq = cfs_new, idle_rq = idle_new, interruptible_queue = [], active_tracker = at_new\<rparr>"

definition tm_add :: "task_ref \<Rightarrow> tasks \<times> task_manager \<Rightarrow> tasks \<times> task_manager" where
  "tm_add task = (\<lambda>(s, m).
     let e = tcb_entity (s task) in
     case get_sched_class e of
       RtClass \<Rightarrow> (s, m\<lparr>rt_rq := rt_enqueue task e (rt_rq m)\<rparr>)
     | CfsClass \<Rightarrow>
         let is_new = (sum_exec_runtime e = 0);
             (e, q) = cfs_enqueue (tcb_pid (s task)) task is_new e (cfs_rq m)
         in (s(task := (s task)\<lparr>tcb_entity := e\<rparr>), m\<lparr>cfs_rq := q\<rparr>)
     | IdleClass \<Rightarrow> (s, m\<lparr>idle_rq := idle_enqueue task (idle_rq m)\<rparr>))"

definition fetch_from :: "tasks \<Rightarrow> task_ref \<Rightarrow> task_manager \<Rightarrow> (task_ref option \<times> task_manager) outcome" where
  "fetch_from s task m =
     bind_outcome (mark_active (tcb_pid (s task)) (active_tracker m))
       (\<lambda>bm. Ret (Some task, m\<lparr>active_tracker := bm\<rparr>))"

definition tm_fetch :: "tasks \<Rightarrow> task_manager \<Rightarrow> (task_ref option \<times> task_manager) outcome" where
  "tm_fetch s m =
     bind_outcome (rt_pick_next (rt_rq m)) (\<lambda>(r, q).
       let m = m\<lparr>rt_rq := q\<rparr> in
       case r of
         Some task \<Rightarrow> fetch_from s task m
       | None \<Rightarrow>
           (case cfs_pick_next (cfs_rq m) of
              (Some task, q) \<Rightarrow> fetch_from s task (m\<lparr>cfs_rq := q\<rparr>)
            | (None, q) \<Rightarrow>
                (case idle_pick_next (idle_rq m) of
                   (Some task, q) \<Rightarrow> fetch_from s task (m\<lparr>idle_rq := q\<rparr>)
                 | (None, q) \<Rightarrow> Ret (None, m))))"

definition steal_from_cfs :: "task_manager \<Rightarrow> task_ref option \<times> task_manager" where
  "steal_from_cfs m =
     (if cfs_len (cfs_rq m) \<ge> 2 then case cfs_pick_next (cfs_rq m) of (r, q) \<Rightarrow> (r, m\<lparr>cfs_rq := q\<rparr>) else (None, m))"

definition steal_from_cfs_for_cpu :: "tasks \<Rightarrow> usize \<Rightarrow> task_manager \<Rightarrow> task_ref option \<times> task_manager" where
  "steal_from_cfs_for_cpu s target_cpu m =
     (if cfs_len (cfs_rq m) < 2 then (None, m)
      else case steal_for_cpu s target_cpu (cfs_rq m) of (r, q) \<Rightarrow> (r, m\<lparr>cfs_rq := q\<rparr>))"

definition total_count :: "task_manager \<Rightarrow> nat" where
  "total_count m = rt_len (rt_rq m) + cfs_len (cfs_rq m) + idle_len (idle_rq m)"

definition add_interruptible :: "task_ref \<Rightarrow> task_manager \<Rightarrow> task_manager" where
  "add_interruptible task m = m\<lparr>interruptible_queue := interruptible_queue m @ [task]\<rparr>"

definition drop_interruptible :: "task_ref \<Rightarrow> task_manager \<Rightarrow> task_manager" where
  "drop_interruptible task m = m\<lparr>interruptible_queue := filter (\<lambda>t. t \<noteq> task) (interruptible_queue m)\<rparr>"

definition find_by_pid :: "tasks \<Rightarrow> nat \<Rightarrow> task_manager \<Rightarrow> task_ref option" where
  "find_by_pid s pid m =
     (case rt_find_by_pid s pid (rt_rq m) of Some t \<Rightarrow> Some t | None \<Rightarrow>
      case cfs_find_by_pid s pid (cfs_rq m) of Some t \<Rightarrow> Some t | None \<Rightarrow>
      case idle_find_by_pid s pid (idle_rq m) of Some t \<Rightarrow> Some t | None \<Rightarrow>
      find (\<lambda>t. tcb_pid (s t) = pid) (interruptible_queue m))"

definition find_by_tgid :: "tasks \<Rightarrow> nat \<Rightarrow> task_manager \<Rightarrow> task_ref option" where
  "find_by_tgid s tgid m =
     (case rt_find_by_tgid s tgid (rt_rq m) of Some t \<Rightarrow> Some t | None \<Rightarrow>
      case cfs_find_by_tgid s tgid (cfs_rq m) of Some t \<Rightarrow> Some t | None \<Rightarrow>
      case idle_find_by_tgid s tgid (idle_rq m) of Some t \<Rightarrow> Some t | None \<Rightarrow>
      find (\<lambda>t. tcb_tgid (s t) = tgid) (interruptible_queue m))"

definition ready_count :: "task_manager \<Rightarrow> 16 word" where
  "ready_count m = of_nat (rt_len (rt_rq m) + cfs_len (cfs_rq m) + idle_len (idle_rq m))"

definition interruptible_count :: "task_manager \<Rightarrow> 16 word" where
  "interruptible_count m = of_nat (length (interruptible_queue m))"

datatype wait_queue_error = AlreadyWaken

definition try_wake_interruptible ::
  "task_ref \<Rightarrow> tasks \<times> task_manager \<Rightarrow> (wait_queue_error + unit) \<times> tasks \<times> task_manager" where
  "try_wake_interruptible task = (\<lambda>(s, m).
     let m = drop_interruptible task m in
     if find_by_pid s (tcb_pid (s task)) m = None then (Inr (), tm_add task (s, m)) else (Inl AlreadyWaken, s, m))"

definition tm_wake_interruptible :: "task_ref \<Rightarrow> tasks \<times> task_manager \<Rightarrow> tasks \<times> task_manager" where
  "tm_wake_interruptible task w = (case try_wake_interruptible task w of (_, w) \<Rightarrow> w)"

text \<open>The two cleaning loops of \<open>do_oom_local\<close>: \<open>clean\<close> stands for the address-space method the loop calls on
  the tasks that are marked active; the result is what was cleaned, how much was released and the address
  spaces.\<close>

fun oom_clean ::
  "tasks \<Rightarrow> u64 list \<Rightarrow> (task_ref \<Rightarrow> 'v \<Rightarrow> nat \<times> 'v) \<Rightarrow> nat \<Rightarrow> task_ref list \<Rightarrow> nat list \<times> nat \<times> 'v \<Rightarrow>
   (nat list \<times> nat \<times> 'v) outcome" where
  "oom_clean s bm clean req [] acc = Ret acc"
| "oom_clean s bm clean req (task # ts) (cleaned, local_released, v) =
     bind_outcome (check_active (tcb_pid (s task)) bm) (\<lambda>active.
       if active then
         let (released, v) = clean task v;
             (cleaned, local_released) =
               (if released > 0 then (cleaned @ [tcb_pid (s task)], local_released + released)
                else (cleaned, local_released))
         in if local_released \<ge> req then Ret (cleaned, local_released, v)
            else oom_clean s bm clean req ts (cleaned, local_released, v)
       else oom_clean s bm clean req ts (cleaned, local_released, v))"

fun mark_all_inactive :: "nat list \<Rightarrow> u64 list \<Rightarrow> u64 list outcome" where
  "mark_all_inactive [] bm = Ret bm"
| "mark_all_inactive (pid # pids) bm = bind_outcome (mark_inactive pid bm) (mark_all_inactive pids)"

definition do_oom_local ::
  "tasks \<Rightarrow> (task_ref \<Rightarrow> 'v \<Rightarrow> nat \<times> 'v) \<Rightarrow> (task_ref \<Rightarrow> 'v \<Rightarrow> nat \<times> 'v) \<Rightarrow> nat \<Rightarrow> task_manager \<Rightarrow> 'v \<Rightarrow>
   (nat \<times> task_manager \<times> 'v) outcome" where
  "do_oom_local s deep shallow req m v =
     bind_outcome (oom_clean s (active_tracker m) deep req (interruptible_queue m) ([], 0, v))
       (\<lambda>(cleaned, local_released, v).
          if local_released \<ge> req then
            bind_outcome (mark_all_inactive (rev cleaned) (active_tracker m))
              (\<lambda>bm. Ret (local_released, m\<lparr>active_tracker := bm\<rparr>, v))
          else
            bind_outcome (oom_clean s (active_tracker m) shallow req (cfs_iter (cfs_rq m)) (cleaned, local_released, v))
              (\<lambda>(cleaned, local_released, v).
                 bind_outcome (mark_all_inactive (rev cleaned) (active_tracker m))
                   (\<lambda>bm. Ret (local_released, m\<lparr>active_tracker := bm\<rparr>, v))))"

section \<open>All managers\<close>

definition MAX_CPU_NUM :: nat where "MAX_CPU_NUM = 4"

text \<open>\<open>sw_clock\<close> numbers the attempts to take a lock.\<close>

record sched_world =
  sw_tasks :: tasks
  sw_managers :: "task_manager list"
  sw_clock :: nat

definition on_manager :: "nat \<Rightarrow> (tasks \<times> task_manager \<Rightarrow> tasks \<times> task_manager) \<Rightarrow> sched_world \<Rightarrow> sched_world" where
  "on_manager cpu f w =
     (case f (sw_tasks w, sw_managers w ! cpu) of
        (s, m) \<Rightarrow> w\<lparr>sw_tasks := s, sw_managers := (sw_managers w)[cpu := m]\<rparr>)"

definition add_task :: "(nat \<Rightarrow> nat \<Rightarrow> bool) \<Rightarrow> nat \<Rightarrow> task_ref \<Rightarrow> sched_world \<Rightarrow> sched_world" where
  "add_task free current_cpu task w =
     (let last = unat (last_cpu (tcb_entity (sw_tasks w task))) in
      if last < MAX_CPU_NUM \<and> last \<noteq> current_cpu then
        let locked = free (sw_clock w) last;
            w = w\<lparr>sw_clock := sw_clock w + 1\<rparr>
        in if locked then on_manager last (tm_add task) w else on_manager current_cpu (tm_add task) w
      else on_manager current_cpu (tm_add task) w)"

definition add_task_to_cpu :: "nat \<Rightarrow> task_ref \<Rightarrow> nat \<Rightarrow> sched_world \<Rightarrow> sched_world" where
  "add_task_to_cpu current_cpu task cpu_id w =
     (if cpu_id < MAX_CPU_NUM then on_manager cpu_id (tm_add task) w else on_manager current_cpu (tm_add task) w)"

definition fetch_task :: "nat \<Rightarrow> sched_world \<Rightarrow> (task_ref option \<times> sched_world) outcome" where
  "fetch_task cpu_id w =
     (if cpu_id \<ge> MAX_CPU_NUM then Panic
      else bind_outcome (tm_fetch (sw_tasks w) (sw_managers w ! cpu_id))
             (\<lambda>(r, m). Ret (r, w\<lparr>sw_managers := (sw_managers w)[cpu_id := m]\<rparr>)))"

fun do_oom_loop ::
  "tasks \<Rightarrow> (task_ref \<Rightarrow> 'v \<Rightarrow> nat \<times> 'v) \<Rightarrow> (task_ref \<Rightarrow> 'v \<Rightarrow> nat \<times> 'v) \<Rightarrow> nat \<Rightarrow> nat \<Rightarrow> task_manager list \<Rightarrow> 'v \<Rightarrow>
   (nat \<times> task_manager list \<times> 'v) outcome" where
  "do_oom_loop s deep shallow req released [] v = Ret (released, [], v)"
| "do_oom_loop s deep shallow req released (m # ms) v =
     (if released \<ge> req then Ret (released, m # ms, v)
      else bind_outcome (do_oom_local s deep shallow (req - released) m v) (\<lambda>(r, m, v).
             bind_outcome (do_oom_loop s deep shallow req (released + r) ms v) (\<lambda>(released, ms, v).
               Ret (released, m # ms, v))))"

definition do_oom ::
  "tasks \<Rightarrow> (task_ref \<Rightarrow> 'v \<Rightarrow> nat \<times> 'v) \<Rightarrow> (task_ref \<Rightarrow> 'v \<Rightarrow> nat \<times> 'v) \<Rightarrow> nat \<Rightarrow> task_manager list \<Rightarrow> 'v \<Rightarrow>
   ((unit + unit) \<times> task_manager list \<times> 'v) outcome" where
  "do_oom s deep shallow req ms v =
     bind_outcome (do_oom_loop s deep shallow req 0 ms v) (\<lambda>(released, ms, v).
       Ret (if released \<ge> req then Inr () else Inl (), ms, v))"

fun find_in_managers :: "(task_manager \<Rightarrow> task_ref option) \<Rightarrow> task_manager list \<Rightarrow> task_ref option" where
  "find_in_managers f [] = None"
| "find_in_managers f (m # ms) = (case f m of Some t \<Rightarrow> Some t | None \<Rightarrow> find_in_managers f ms)"

definition find_task_by_pid :: "task_ref option \<Rightarrow> nat \<Rightarrow> sched_world \<Rightarrow> task_ref option" where
  "find_task_by_pid current pid w =
     (case current of
        Some t \<Rightarrow> if tcb_pid (sw_tasks w t) = pid then Some t
                   else find_in_managers (find_by_pid (sw_tasks w) pid) (sw_managers w)
      | None \<Rightarrow> find_in_managers (find_by_pid (sw_tasks w) pid) (sw_managers w))"

definition find_task_by_tgid :: "task_ref option \<Rightarrow> nat \<Rightarrow> sched_world \<Rightarrow> task_ref option" where
  "find_task_by_tgid current tgid w =
     (case current of
        Some t \<Rightarrow> if tcb_tgid (sw_tasks w t) = tgid then Some t
                   else find_in_managers (find_by_tgid (sw_tasks w) tgid) (sw_managers w)
      | None \<Rightarrow> find_in_managers (find_by_tgid (sw_tasks w) tgid) (sw_managers w))"

definition sleep_interruptible :: "nat \<Rightarrow> task_ref \<Rightarrow> sched_world \<Rightarrow> sched_world" where
  "sleep_interruptible cpu_id task w = on_manager cpu_id (\<lambda>(s, m). (s, add_interruptible task m)) w"

text \<open>One pass of \<open>wake_interruptible\<close> over the managers: whether it woke the task, and whether no lock was
  refused.\<close>

fun wake_pass ::
  "(nat \<Rightarrow> nat \<Rightarrow> bool) \<Rightarrow> task_ref \<Rightarrow> nat list \<Rightarrow> bool \<Rightarrow> sched_world \<Rightarrow> bool \<times> bool \<times> sched_world" where
  "wake_pass free task [] all_checked w = (False, all_checked, w)"
| "wake_pass free task (cpu # cpus) all_checked w =
     (let locked = free (sw_clock w) cpu;
          w = w\<lparr>sw_clock := sw_clock w + 1\<rparr>
      in if locked then
           case try_wake_interruptible task (sw_tasks w, sw_managers w ! cpu) of
             (r, s, m) \<Rightarrow>
               let w = w\<lparr>sw_tasks := s, sw_managers := (sw_managers w)[cpu := m]\<rparr> in
               (case r of Inr _ \<Rightarrow> (True, all_checked, w) | Inl _ \<Rightarrow> wake_pass free task cpus all_checked w)
         else wake_pass free task cpus False w)"

partial_function (option) wake_interruptible ::
  "(nat \<Rightarrow> nat \<Rightarrow> bool) \<Rightarrow> task_ref \<Rightarrow> sched_world \<Rightarrow> sched_world option" where
  "wake_interruptible free task w =
     (case wake_pass free task [0..<length (sw_managers w)] True w of
        (woken, all_checked, w) \<Rightarrow> if woken \<or> all_checked then Some w else wake_interruptible free task w)"

definition procs_count :: "sched_world \<Rightarrow> 16 word" where
  "procs_count w = fold (\<lambda>m total. total + (ready_count m + interruptible_count m)) (sw_managers w) 0"

section \<open>Wait queues\<close>

record wait_queue =
  wq_inner :: "task_ref list"

definition wq_new :: wait_queue where "wq_new = \<lparr>wq_inner = []\<rparr>"

definition wq_add_task :: "task_ref \<Rightarrow> wait_queue \<Rightarrow> wait_queue" where
  "wq_add_task task q = q\<lparr>wq_inner := wq_inner q @ [task]\<rparr>"

definition wq_pop_task :: "wait_queue \<Rightarrow> task_ref option \<times> wait_queue" where
  "wq_pop_task q = (case wq_inner q of [] \<Rightarrow> (None, q) | t # ts \<Rightarrow> (Some t, q\<lparr>wq_inner := ts\<rparr>))"

definition wq_contains :: "task_ref \<Rightarrow> wait_queue \<Rightarrow> bool" where
  "wq_contains task q \<longleftrightarrow> list_ex (\<lambda>t. t = task) (wq_inner q)"

definition wq_is_empty :: "wait_queue \<Rightarrow> bool" where "wq_is_empty q \<longleftrightarrow> wq_inner q = []"

text \<open>Waking one task that is still alive: an interruptible task becomes ready and is handed to the manager of
  the current CPU, or if that refuses to the first manager that accepts it; a task in another state is
  skipped.  The result says whether the task counts.\<close>

definition wake_one ::
  "(nat \<Rightarrow> nat \<Rightarrow> bool) \<Rightarrow> nat \<Rightarrow> task_ref \<Rightarrow> sched_world \<Rightarrow> (bool \<times> sched_world) option" where
  "wake_one free cpu task w =
     (case tcb_status (sw_tasks w task) of
        Interruptible \<Rightarrow>
          let s = (sw_tasks w)(task := (sw_tasks w task)\<lparr>tcb_status := Ready\<rparr>) in
          (case try_wake_interruptible task (s, sw_managers w ! cpu) of
             (r, s, m) \<Rightarrow>
               let w = w\<lparr>sw_tasks := s, sw_managers := (sw_managers w)[cpu := m]\<rparr> in
               (case r of
                  Inr _ \<Rightarrow> Some (True, w)
                | Inl _ \<Rightarrow> map_option (\<lambda>w. (True, w)) (wake_interruptible free task w)))
      | _ \<Rightarrow> Some (False, w))"

fun wake_loop ::
  "(nat \<Rightarrow> nat \<Rightarrow> bool) \<Rightarrow> (task_ref \<Rightarrow> bool) \<Rightarrow> nat \<Rightarrow> nat \<Rightarrow> nat \<Rightarrow> task_ref list \<Rightarrow> sched_world \<Rightarrow>
   (nat \<times> task_ref list \<times> sched_world) option" where
  "wake_loop free alive cpu limit cnt [] w = Some (cnt, [], w)"
| "wake_loop free alive cpu limit cnt (t # ts) w =
     (if \<not> alive t then wake_loop free alive cpu limit cnt ts w
      else Option.bind (wake_one free cpu t w) (\<lambda>(counts, w).
        if \<not> counts then wake_loop free alive cpu limit cnt ts w
        else if cnt + 1 = limit then Some (cnt + 1, ts, w)
        else wake_loop free alive cpu limit (cnt + 1) ts w))"

definition wake_at_most ::
  "(nat \<Rightarrow> nat \<Rightarrow> bool) \<Rightarrow> (task_ref \<Rightarrow> bool) \<Rightarrow> nat \<Rightarrow> nat \<Rightarrow> wait_queue \<Rightarrow> sched_world \<Rightarrow>
   (nat \<times> wait_queue \<times> sched_world) option" where
  "wake_at_most free alive cpu limit q w =
     (if limit = 0 then Some (0, q, w)
      else map_option (\<lambda>(cnt, ts, w). (cnt, q\<lparr>wq_inner := ts\<rparr>, w)) (wake_loop free alive cpu limit 0 (wq_inner q) w))"

definition wake_all ::
  "(nat \<Rightarrow> nat \<Rightarrow> bool) \<Rightarrow> (task_ref \<Rightarrow> bool) \<Rightarrow> nat \<Rightarrow> wait_queue \<Rightarrow> sched_world \<Rightarrow>
   (nat \<times> wait_queue \<times> sched_world) option" where
  "wake_all free alive cpu q w = wake_at_most free alive cpu (2 ^ 64 - 1) q w"

section \<open>Timeouts\<close>

record timeout_waiter =
  tw_task :: task_ref
  tw_timeout :: time_spec

text \<open>The order of waiters is the reverse of the order of their timeouts, so that the greatest element of the
  \<open>BinaryHeap\<close> is the earliest timeout.  The heap is a list; \<open>pop\<close> takes a greatest element out (of several
  equal ones the one pushed first).\<close>

definition waiter_cmp :: "timeout_waiter \<Rightarrow> timeout_waiter \<Rightarrow> ordering" where
  "waiter_cmp a b = (case ts_cmp (tw_timeout a) (tw_timeout b) of Less \<Rightarrow> Greater | Equal \<Rightarrow> Equal | Greater \<Rightarrow> Less)"

definition heap_push :: "timeout_waiter \<Rightarrow> timeout_waiter list \<Rightarrow> timeout_waiter list" where
  "heap_push x h = h @ [x]"

fun heap_max :: "timeout_waiter \<Rightarrow> timeout_waiter list \<Rightarrow> timeout_waiter" where
  "heap_max x [] = x"
| "heap_max x (y # ys) = heap_max (if waiter_cmp y x = Greater then y else x) ys"

fun heap_pop :: "timeout_waiter list \<Rightarrow> (timeout_waiter \<times> timeout_waiter list) option" where
  "heap_pop [] = None"
| "heap_pop (x # xs) = Some (heap_max x xs, remove1 (heap_max x xs) (x # xs))"

definition wait_with_timeout :: "task_ref \<Rightarrow> time_spec \<Rightarrow> timeout_waiter list \<Rightarrow> timeout_waiter list" where
  "wait_with_timeout task timeout h = heap_push \<lparr>tw_task = task, tw_timeout = timeout\<rparr> h"

partial_function (option) wake_expired ::
  "(nat \<Rightarrow> nat \<Rightarrow> bool) \<Rightarrow> (task_ref \<Rightarrow> bool) \<Rightarrow> nat \<Rightarrow> time_spec \<Rightarrow> timeout_waiter list \<Rightarrow> sched_world \<Rightarrow>
   (timeout_waiter list \<times> sched_world) option" where
  "wake_expired free alive cpu now h w =
     (case heap_pop h of
        None \<Rightarrow> Some (h, w)
      | Some (x, h) \<Rightarrow>
          if tw_timeout x > now then Some (heap_push x h, w)
          else if \<not> alive (tw_task x) then wake_expired free alive cpu now h w
          else Option.bind (wake_one free cpu (tw_task x) w) (\<lambda>(_, w). wake_expired free alive cpu now h w))"

section \<open>The queues of one manager\<close>

definition tm_ready :: "task_manager \<Rightarrow> task_ref multiset" where
  "tm_ready m = mset (rt_iter (rt_rq m)) + mset (cfs_iter (cfs_rq m)) + mset (idle_iter (idle_rq m))"

definition tm_pids :: "tasks \<Rightarrow> task_manager \<Rightarrow> nat multiset" where
  "tm_pids s m = image_mset (tcb_pid \<circ> s) (tm_ready m + mset (interruptible_queue m))"

text \<open>Each queue is well formed, keys carry the process id of their task, and no process id is queued twice
  in all four queues together.\<close>

definition tm_inv :: "tasks \<Rightarrow> task_manager \<Rightarrow> bool" where
  "tm_inv s m \<longleftrightarrow> rt_inv (rt_rq m) \<and> cfs_inv (cfs_rq m)
     \<and> (\<forall>(k, t) \<in> set (cfs_tasks (cfs_rq m)). key_tid k = tcb_pid (s t))
     \<and> (\<forall>p. count (tm_pids s m) p \<le> 1) \<and> length (active_tracker m) = 2"

text \<open>A task the manager can put into a run queue: a real-time one has a priority.\<close>

definition enqueuable :: "tcb \<Rightarrow> bool" where
  "enqueuable b \<longleftrightarrow> (get_sched_class (tcb_entity b) = RtClass \<longrightarrow> rt_prio (tcb_entity b) \<noteq> 0)"

lemma tm_pids_cong: "(\<And>t. tcb_pid (s' t) = tcb_pid (s t)) \<Longrightarrow> tm_pids s' m = tm_pids s m"
  by (simp add: tm_pids_def comp_def)

lemma tm_inv_cong:
  assumes "\<And>t. tcb_pid (s' t) = tcb_pid (s t)" shows "tm_inv s' m = tm_inv s m"
  by (simp add: tm_inv_def tm_pids_cong [of s' s, OF assms] assms)

lemma or_else_None: "(case x of None \<Rightarrow> y | Some t \<Rightarrow> Some t) = None \<longleftrightarrow> x = None \<and> y = None"
  by (cases x) auto

lemma find_in_queues_None: "find_in_queues P qs = None \<longleftrightarrow> (\<forall>t \<in> set (concat qs). \<not> P t)"
  by (induction qs) (auto simp: or_else_None find_None_iff)

lemma find_by_pid_queues_None:
  "rt_find_by_pid s pid q = None \<longleftrightarrow> (\<forall>t \<in> set (rt_iter q). tcb_pid (s t) \<noteq> pid)"
  "cfs_find_by_pid s pid c = None \<longleftrightarrow> (\<forall>t \<in> set (cfs_iter c). tcb_pid (s t) \<noteq> pid)"
  "idle_find_by_pid s pid i = None \<longleftrightarrow> (\<forall>t \<in> set (idle_iter i). tcb_pid (s t) \<noteq> pid)"
  "find (\<lambda>t. tcb_pid (s t) = pid) ts = None \<longleftrightarrow> (\<forall>t \<in> set ts. tcb_pid (s t) \<noteq> pid)"
  unfolding rt_find_by_pid_def find_in_queues_None rt_iter_def cfs_find_by_pid_def cfs_iter_def
    idle_find_by_pid_def idle_iter_def find_None_iff by blast+

lemma pid_in_tm_pids: "pid \<in># tm_pids s m \<longleftrightarrow>
    (\<exists>t. (t \<in># tm_ready m \<or> t \<in> set (interruptible_queue m)) \<and> tcb_pid (s t) = pid)"
  by (simp add: tm_pids_def image_iff Bex_def) blast

lemma find_by_pid_None: "find_by_pid s pid m = None \<longleftrightarrow> pid \<notin># tm_pids s m"
proof -
  have "find_by_pid s pid m = None \<longleftrightarrow>
      (\<forall>t. t \<in># tm_ready m \<or> t \<in> set (interruptible_queue m) \<longrightarrow> tcb_pid (s t) \<noteq> pid)"
    unfolding find_by_pid_def or_else_None find_by_pid_queues_None tm_ready_def by (simp, blast)
  then show ?thesis unfolding pid_in_tm_pids by blast
qed

lemma tm_invD:
  assumes "tm_inv s m"
  shows "rt_inv (rt_rq m)" "cfs_inv (cfs_rq m)" "\<forall>(k, t) \<in> set (cfs_tasks (cfs_rq m)). key_tid k = tcb_pid (s t)"
    "\<forall>p. count (tm_pids s m) p \<le> 1" "length (active_tracker m) = 2"
  using assms by (simp_all add: tm_inv_def)

lemma queued_tids_pids:
  assumes "tm_inv s m" shows "set (queued_tids (cfs_rq m)) \<subseteq> set_mset (tm_pids s m)"
proof
  fix p assume "p \<in> set (queued_tids (cfs_rq m))"
  then obtain k t where kt: "(k, t) \<in> set (cfs_tasks (cfs_rq m))" "p = key_tid k" by auto
  then have p: "p = (tcb_pid \<circ> s) t" using bspec [OF tm_invD(3) [OF assms] kt(1)] by simp
  have "t \<in> set (cfs_iter (cfs_rq m))" using imageI [OF kt(1), of snd] by (simp add: cfs_iter_def)
  then have "t \<in># tm_ready m + mset (interruptible_queue m)" by (simp add: tm_ready_def)
  then show "p \<in># tm_pids s m" unfolding p tm_pids_def set_image_mset by (rule imageI)
qed

lemma count_add_fresh:
  "(\<forall>p. count M p \<le> 1) \<Longrightarrow> x \<notin># M \<Longrightarrow> \<forall>p. count (add_mset x M) p \<le> (1 :: nat)"
  by (auto simp: not_in_iff)

text \<open>The effect of \<open>add\<close> on a task whose process id is not queued.\<close>

definition tm_added :: "tasks \<Rightarrow> task_manager \<Rightarrow> task_ref \<Rightarrow> tasks \<Rightarrow> task_manager \<Rightarrow> bool" where
  "tm_added s m t s' m' \<longleftrightarrow> tm_inv s' m' \<and> (\<forall>u. tcb_pid (s' u) = tcb_pid (s u)) \<and> (\<forall>u. u \<noteq> t \<longrightarrow> s' u = s u)
     \<and> tcb_status (s' t) = tcb_status (s t) \<and> interruptible_queue m' = interruptible_queue m
     \<and> (enqueuable (s t) \<longrightarrow> tm_ready m' = add_mset t (tm_ready m))"

lemma tm_addedI:
  assumes inv: "tm_inv s m" and fresh: "tcb_pid (s t) \<notin># tm_pids s m"
    and pid: "\<And>u. tcb_pid (s' u) = tcb_pid (s u)" and other: "\<And>u. u \<noteq> t \<Longrightarrow> s' u = s u"
    and st: "tcb_status (s' t) = tcb_status (s t)"
    and r: "tm_ready m' = add_mset t (tm_ready m)" and i: "interruptible_queue m' = interruptible_queue m"
    and a: "active_tracker m' = active_tracker m" and q: "rt_inv (rt_rq m')" "cfs_inv (cfs_rq m')"
    and k: "\<forall>(k, u) \<in> set (cfs_tasks (cfs_rq m')). key_tid k = tcb_pid (s u)"
  shows "tm_added s m t s' m'"
proof -
  have "tm_pids s m' = add_mset (tcb_pid (s t)) (tm_pids s m)" by (simp add: tm_pids_def r i)
  moreover have "\<forall>p. count (tm_pids s m) p \<le> 1" using inv by (simp add: tm_inv_def)
  ultimately have "tm_inv s m'" using count_add_fresh [OF _ fresh] inv q k a by (simp add: tm_inv_def)
  then show ?thesis using tm_inv_cong [of s' s m', OF pid] pid other st r i by (simp add: tm_added_def)
qed

lemma tm_add_rt:
  assumes inv: "tm_inv s m" and fresh: "tcb_pid (s t) \<notin># tm_pids s m"
  shows "tm_added s m t s (m\<lparr>rt_rq := rt_enqueue t (tcb_entity (s t)) (rt_rq m)\<rparr>)
    \<or> rt_prio (tcb_entity (s t)) = 0"
proof (cases "rt_prio (tcb_entity (s t)) = 0")
  case False
  have rt: "rt_inv (rt_rq m)" using inv by (simp add: tm_inv_def)
  have "tm_added s m t s (m\<lparr>rt_rq := rt_enqueue t (tcb_entity (s t)) (rt_rq m)\<rparr>)"
    using rt_inv_enqueue [OF rt, where t = t and e = "tcb_entity (s t)"] False tm_invD [OF inv]
    by (intro tm_addedI [OF inv fresh]) (simp_all add: tm_ready_def)
  then show ?thesis ..
qed simp

lemma tm_add_cfs:
  assumes inv: "tm_inv s m" and fresh: "tcb_pid (s t) \<notin># tm_pids s m"
    and enq: "cfs_enqueue (tcb_pid (s t)) t b (tcb_entity (s t)) (cfs_rq m) = (e', q')"
  shows "tm_added s m t (s(t := (s t)\<lparr>tcb_entity := e'\<rparr>)) (m\<lparr>cfs_rq := q'\<rparr>)"
proof -
  have ci: "cfs_inv (cfs_rq m)" using inv by (simp add: tm_inv_def)
  have fr: "tcb_pid (s t) \<notin> set (queued_tids (cfs_rq m))" using queued_tids_pids [OF inv] fresh by blast
  obtain k where k: "cfs_tasks q' = bt_insert k t (cfs_tasks (cfs_rq m))" "key_tid k = tcb_pid (s t)"
    using enq by (auto simp: cfs_enqueue_def Let_def)
  have "k \<notin> fst ` set (cfs_tasks (cfs_rq m))" using fr k(2) by force
  then have ms: "mset (cfs_tasks q') = add_mset (k, t) (mset (cfs_tasks (cfs_rq m)))"
    unfolding k(1) by (rule mset_bt_insert)
  have "cfs_inv q'" using cfs_inv_enqueue [OF ci fr, of t b "tcb_entity (s t)"] enq by simp
  moreover have "set (cfs_tasks q') = insert (k, t) (set (cfs_tasks (cfs_rq m)))"
    using arg_cong [OF ms, of set_mset] by simp
  then have "\<forall>(k, u) \<in> set (cfs_tasks q'). key_tid k = tcb_pid (s u)" using inv k(2) by (auto simp: tm_inv_def)
  moreover have "mset (cfs_iter q') = add_mset t (mset (cfs_iter (cfs_rq m)))" using ms by (simp add: cfs_iter_def)
  moreover have "rt_inv (rt_rq m)" using inv by (simp add: tm_inv_def)
  ultimately show ?thesis by (intro tm_addedI [OF inv fresh]) (simp_all add: tm_ready_def)
qed

lemma tm_add_spec:
  assumes inv: "tm_inv s m" and fresh: "tcb_pid (s t) \<notin># tm_pids s m" and add: "tm_add t (s, m) = (s', m')"
  shows "tm_added s m t s' m'"
proof (cases "get_sched_class (tcb_entity (s t))")
  case RtClass
  then have eq: "s' = s" "m' = m\<lparr>rt_rq := rt_enqueue t (tcb_entity (s t)) (rt_rq m)\<rparr>"
    using add by (auto simp: tm_add_def Let_def)
  show ?thesis
  proof (cases "rt_prio (tcb_entity (s t)) = 0")
    case True
    then have "m' = m" by (simp add: eq rt_enqueue_def)
    then show ?thesis using True RtClass inv by (simp add: eq(1) tm_added_def enqueuable_def)
  next
    case False
    then show ?thesis using tm_add_rt [OF inv fresh] unfolding eq by simp
  qed
next
  case CfsClass
  let ?e = "tcb_entity (s t)"
  obtain e' q' where enq: "cfs_enqueue (tcb_pid (s t)) t (sum_exec_runtime ?e = 0) ?e (cfs_rq m) = (e', q')"
    by (rule prod.exhaust)
  have "s' = s(t := (s t)\<lparr>tcb_entity := e'\<rparr>)" "m' = m\<lparr>cfs_rq := q'\<rparr>"
    using add CfsClass enq by (simp_all add: tm_add_def Let_def)
  then show ?thesis using tm_add_cfs [OF inv fresh enq] by simp
next
  case IdleClass
  then have eq: "s' = s" "m' = m\<lparr>idle_rq := idle_enqueue t (idle_rq m)\<rparr>" using add by (auto simp: tm_add_def Let_def)
  show ?thesis unfolding eq using tm_invD [OF inv]
    by (intro tm_addedI [OF inv fresh]) (simp_all add: tm_ready_def idle_iter_def idle_enqueue_def)
qed

lemma mark_active_ok:
  assumes "pid < 128" "length bm = 2"
  shows "\<exists>bm'. mark_active pid bm = Ret bm' \<and> length bm' = 2 \<and> check_active pid bm' = Ret True"
proof -
  have "pid div 64 < length bm" using assms by simp
  moreover have "(w OR push_bit (pid mod 64) 1) AND push_bit (pid mod 64) 1 \<noteq> 0" for w :: u64
    using and_push_bit_eq_0 [of "pid mod 64" "w OR push_bit (pid mod 64) 1"] bit_or_push_bit [of "pid mod 64" w] by simp
  ultimately show ?thesis using assms(2)
    by (simp add: mark_active_def check_active_def del: push_bit_of_1)
qed

lemma fetch_from_ok:
  assumes "tcb_pid (s t) < 128" "length (active_tracker m) = 2"
  shows "\<exists>bm. fetch_from s t m = Ret (Some t, m\<lparr>active_tracker := bm\<rparr>) \<and> length bm = 2
    \<and> check_active (tcb_pid (s t)) bm = Ret True"
  using mark_active_ok [OF assms] by (auto simp: fetch_from_def)

text \<open>\<open>fetch\<close> serves the classes in order; \<open>fetched\<close> says which queue the task came from.\<close>

definition fetched :: "tasks \<Rightarrow> task_manager \<Rightarrow> task_ref \<Rightarrow> task_manager \<Rightarrow> bool" where
  "fetched s m t m' \<longleftrightarrow> tm_ready m = add_mset t (tm_ready m') \<and> interruptible_queue m' = interruptible_queue m
     \<and> check_active (tcb_pid (s t)) (active_tracker m') = Ret True
     \<and> (rt_iter (rt_rq m) \<noteq> [] \<longrightarrow> rt_pick_next (rt_rq m) = Ret (Some t, rt_rq m'))
     \<and> (rt_iter (rt_rq m) = [] \<and> cfs_iter (cfs_rq m) \<noteq> [] \<longrightarrow> cfs_pick_next (cfs_rq m) = (Some t, cfs_rq m'))
     \<and> (rt_iter (rt_rq m) = [] \<and> cfs_iter (cfs_rq m) = [] \<longrightarrow> idle_pick_next (idle_rq m) = (Some t, idle_rq m'))"

lemma tm_inv_fetched:
  assumes inv: "tm_inv s m" and f: "fetched s m t m'"
    and q: "rt_inv (rt_rq m')" "cfs_inv (cfs_rq m')" "set (cfs_tasks (cfs_rq m')) \<subseteq> set (cfs_tasks (cfs_rq m))"
    and a: "length (active_tracker m') = 2"
  shows "tm_inv s m'"
proof -
  have "tm_pids s m = add_mset (tcb_pid (s t)) (tm_pids s m')" using f by (simp add: tm_pids_def fetched_def)
  then have "count (tm_pids s m') p \<le> count (tm_pids s m) p" for p by simp
  then have "\<forall>p. count (tm_pids s m') p \<le> 1" using tm_invD(4) [OF inv] le_trans by blast
  then show ?thesis using q a tm_invD(3) [OF inv] by (auto simp: tm_inv_def)
qed

lemma fetch_branch:
  assumes inv: "tm_inv s m" and bound: "\<forall>p \<in># tm_pids s m. p < 128"
    and m1: "tm_ready m = add_mset t (tm_ready m1)" "interruptible_queue m1 = interruptible_queue m"
      "active_tracker m1 = active_tracker m" "rt_inv (rt_rq m1)" "cfs_inv (cfs_rq m1)"
      "set (cfs_tasks (cfs_rq m1)) \<subseteq> set (cfs_tasks (cfs_rq m))"
    and order: "rt_iter (rt_rq m) \<noteq> [] \<longrightarrow> rt_pick_next (rt_rq m) = Ret (Some t, rt_rq m1)"
      "rt_iter (rt_rq m) = [] \<and> cfs_iter (cfs_rq m) \<noteq> [] \<longrightarrow> cfs_pick_next (cfs_rq m) = (Some t, cfs_rq m1)"
      "rt_iter (rt_rq m) = [] \<and> cfs_iter (cfs_rq m) = [] \<longrightarrow> idle_pick_next (idle_rq m) = (Some t, idle_rq m1)"
  shows "\<exists>m'. fetch_from s t m1 = Ret (Some t, m') \<and> fetched s m t m' \<and> tm_inv s m'"
proof -
  have "tcb_pid (s t) \<in># tm_pids s m" unfolding pid_in_tm_pids using m1(1) by auto
  then have small: "tcb_pid (s t) < 128" using bound by blast
  have "length (active_tracker m1) = 2" using tm_invD(5) [OF inv] m1(3) by simp
  from fetch_from_ok [of s t m1, OF small this] obtain bm where
    f: "fetch_from s t m1 = Ret (Some t, m1\<lparr>active_tracker := bm\<rparr>)" "length bm = 2"
      "check_active (tcb_pid (s t)) bm = Ret True" by blast
  have fd: "fetched s m t (m1\<lparr>active_tracker := bm\<rparr>)"
    using m1(1,2) order f(3) by (simp add: fetched_def tm_ready_def)
  have "tm_inv s (m1\<lparr>active_tracker := bm\<rparr>)"
    by (rule tm_inv_fetched [OF inv fd]) (use m1(4-6) f(2) in simp_all)
  then show ?thesis using f(1) fd by blast
qed

lemma cfs_pick_subset:
  "cfs_pick_next q = (r, q') \<Longrightarrow> set (cfs_tasks q') \<subseteq> set (cfs_tasks q)"
  by (cases "cfs_tasks q") (auto simp: cfs_pick_next_def split: prod.splits)

lemma tm_fetch_spec:
  assumes inv: "tm_inv s m" and bound: "\<forall>p \<in># tm_pids s m. p < 128"
  shows "tm_fetch s m = Ret (None, m) \<and> tm_ready m = {#}
    \<or> (\<exists>t m'. tm_fetch s m = Ret (Some t, m') \<and> fetched s m t m' \<and> tm_inv s m')"
  using tm_invD(1) [OF inv]
proof (cases rule: rt.pick_cases)
  case (Some t q)
  have "\<exists>m'. fetch_from s t (m\<lparr>rt_rq := q\<rparr>) = Ret (Some t, m') \<and> fetched s m t m' \<and> tm_inv s m'"
    by (rule fetch_branch [OF inv bound]) (use Some tm_invD(2) [OF inv] in \<open>auto simp: tm_ready_def\<close>)
  then show ?thesis using Some(1) by (auto simp: tm_fetch_def)
next
  case rt0: None
  from tm_invD(2) [OF inv] show ?thesis
  proof (cases rule: cfs.pick_cases)
    case (Some t q)
    then have p: "cfs_pick_next (cfs_rq m) = (Some t, q)" by simp
    have "\<exists>m'. fetch_from s t (m\<lparr>cfs_rq := q\<rparr>) = Ret (Some t, m') \<and> fetched s m t m' \<and> tm_inv s m'"
      by (rule fetch_branch [OF inv bound])
         (use rt0 Some p tm_invD(1) [OF inv] cfs_pick_subset [OF p] in \<open>auto simp: tm_ready_def\<close>)
    then show ?thesis using rt0 p by (auto simp: tm_fetch_def)
  next
    case cfs0: None
    from TrueI show ?thesis
    proof (cases rule: idle.pick_cases [where q = "idle_rq m"])
      case (Some t q)
      then have p: "idle_pick_next (idle_rq m) = (Some t, q)" by simp
      have "\<exists>m'. fetch_from s t (m\<lparr>idle_rq := q\<rparr>) = Ret (Some t, m') \<and> fetched s m t m' \<and> tm_inv s m'"
        by (rule fetch_branch [OF inv bound])
           (use rt0 cfs0 Some p tm_invD(1,2) [OF inv] in \<open>auto simp: tm_ready_def\<close>)
      then show ?thesis using rt0 cfs0 p by (auto simp: tm_fetch_def)
    qed (use rt0 cfs0 in \<open>auto simp: tm_fetch_def tm_ready_def\<close>)
  qed
qed

text \<open>Waking: the task leaves the sleeping queue and, unless its process id is still queued, becomes ready.\<close>

lemma drop_interruptible_pids:
  "tm_pids s m = tm_pids s (drop_interruptible t m)
     + image_mset (tcb_pid \<circ> s) (mset (filter (\<lambda>u. u = t) (interruptible_queue m)))"
proof -
  let ?iq = "mset (interruptible_queue m)"
  have "image_mset (tcb_pid \<circ> s) ?iq = image_mset (tcb_pid \<circ> s) (filter_mset (\<lambda>u. u \<noteq> t) ?iq)
      + image_mset (tcb_pid \<circ> s) (filter_mset (\<lambda>u. u = t) ?iq)"
    using arg_cong [OF multiset_partition [of ?iq "\<lambda>u. u \<noteq> t"], of "image_mset (tcb_pid \<circ> s)"]
    by (simp only: image_mset_union not_not)
  then show ?thesis by (simp add: tm_pids_def drop_interruptible_def tm_ready_def)
qed

lemma tm_inv_drop: "tm_inv s m \<Longrightarrow> tm_inv s (drop_interruptible t m)"
proof -
  assume inv: "tm_inv s m"
  have "count (tm_pids s (drop_interruptible t m)) p \<le> count (tm_pids s m) p" for p
    using arg_cong [OF drop_interruptible_pids [of s m t], of "\<lambda>M. count M p"] by simp
  then have "\<forall>p. count (tm_pids s (drop_interruptible t m)) p \<le> 1"
    using tm_invD(4) [OF inv] le_trans by blast
  then show ?thesis using inv by (simp add: tm_inv_def) (simp add: drop_interruptible_def)
qed

lemma try_wake_spec:
  assumes inv: "tm_inv s m" and w: "try_wake_interruptible t (s, m) = (r, s', m')"
  shows "tm_inv s' m'" "\<And>u. u \<noteq> t \<Longrightarrow> s' u = s u" "tcb_status (s' t) = tcb_status (s t)"
    "interruptible_queue m' = filter (\<lambda>u. u \<noteq> t) (interruptible_queue m)"
    "r = Inr () \<longleftrightarrow> tcb_pid (s t) \<notin># tm_pids s (drop_interruptible t m)"
    "enqueuable (s t) \<Longrightarrow> tm_ready m' = (if r = Inr () then add_mset t (tm_ready m) else tm_ready m)"
proof -
  let ?m = "drop_interruptible t m"
  have d: "tm_inv s ?m" by (rule tm_inv_drop [OF inv])
  have rd: "tm_ready ?m = tm_ready m" by (simp add: tm_ready_def drop_interruptible_def)
  have iq: "interruptible_queue ?m = filter (\<lambda>u. u \<noteq> t) (interruptible_queue m)"
    by (simp add: drop_interruptible_def)
  have "tm_inv s' m' \<and> (\<forall>u. u \<noteq> t \<longrightarrow> s' u = s u) \<and> tcb_status (s' t) = tcb_status (s t)
      \<and> interruptible_queue m' = filter (\<lambda>u. u \<noteq> t) (interruptible_queue m)
      \<and> (r = Inr () \<longleftrightarrow> tcb_pid (s t) \<notin># tm_pids s ?m)
      \<and> (enqueuable (s t) \<longrightarrow> tm_ready m' = (if r = Inr () then add_mset t (tm_ready m) else tm_ready m))"
  proof (cases "tcb_pid (s t) \<in># tm_pids s ?m")
    case True
    then have "find_by_pid s (tcb_pid (s t)) ?m \<noteq> None" by (simp add: find_by_pid_None)
    then have "r = Inl AlreadyWaken" "s' = s" "m' = ?m"
      using w by (auto simp: try_wake_interruptible_def Let_def)
    then show ?thesis using d rd iq True by simp
  next
    case False
    then have "find_by_pid s (tcb_pid (s t)) ?m = None" by (simp add: find_by_pid_None)
    then have r: "r = Inr ()" and a: "tm_add t (s, ?m) = (s', m')"
      using w by (auto simp: try_wake_interruptible_def Let_def)
    from tm_add_spec [OF d False a] show ?thesis using r False rd iq by (simp add: tm_added_def)
  qed
  then show "tm_inv s' m'" "\<And>u. u \<noteq> t \<Longrightarrow> s' u = s u" "tcb_status (s' t) = tcb_status (s t)"
    "interruptible_queue m' = filter (\<lambda>u. u \<noteq> t) (interruptible_queue m)"
    "r = Inr () \<longleftrightarrow> tcb_pid (s t) \<notin># tm_pids s (drop_interruptible t m)"
    "enqueuable (s t) \<Longrightarrow> tm_ready m' = (if r = Inr () then add_mset t (tm_ready m) else tm_ready m)" by auto
qed

section \<open>Histories of one manager\<close>

text \<open>What can happen to one manager: a task that is not queued is made ready or put to sleep, a task is
  fetched, any task is woken, and control blocks change in everything but the process id.\<close>

inductive tm_reach :: "tasks \<Rightarrow> task_manager \<Rightarrow> bool" where
  New: "tm_reach s tm_new"
| Add: "tm_reach s m \<Longrightarrow> tcb_pid (s t) \<notin># tm_pids s m \<Longrightarrow> tm_add t (s, m) = (s', m') \<Longrightarrow> tm_reach s' m'"
| Fetch: "tm_reach s m \<Longrightarrow> \<forall>p \<in># tm_pids s m. p < 128 \<Longrightarrow> tm_fetch s m = Ret (r, m') \<Longrightarrow> tm_reach s m'"
| Sleep: "tm_reach s m \<Longrightarrow> tcb_pid (s t) \<notin># tm_pids s m \<Longrightarrow> tm_reach s (add_interruptible t m)"
| Wake: "tm_reach s m \<Longrightarrow> try_wake_interruptible t (s, m) = (r, s', m') \<Longrightarrow> tm_reach s' m'"
| Update: "tm_reach s m \<Longrightarrow> (\<And>t. tcb_pid (s' t) = tcb_pid (s t)) \<Longrightarrow> tm_reach s' m"

lemma tm_reach_inv: "tm_reach s m \<Longrightarrow> tm_inv s m"
proof (induction rule: tm_reach.induct)
  case (New s)
  show ?case
    by (simp add: tm_inv_def tm_new_def rt_inv_new cfs_inv_new tm_pids_def tm_ready_def at_new_def
        SYSTEM_TASK_LIMIT_def) (simp add: rt_iter_def rt_new_def cfs_iter_def cfs_new_def idle_iter_def idle_new_def)
next
  case (Add s m t s' m')
  from tm_add_spec [OF Add.IH Add.hyps(2,3)] show ?case by (simp add: tm_added_def)
next
  case (Fetch s m r m')
  from tm_fetch_spec [OF Fetch.IH Fetch.hyps(2)] show ?case using Fetch.IH unfolding Fetch.hyps(3) by fastforce
next
  case (Sleep s m t)
  have "tm_pids s (add_interruptible t m) = add_mset (tcb_pid (s t)) (tm_pids s m)"
    by (simp add: tm_pids_def add_interruptible_def tm_ready_def)
  moreover note count_add_fresh [OF tm_invD(4) [OF Sleep.IH] Sleep.hyps(2)]
  ultimately show ?case using tm_invD [OF Sleep.IH] by (simp add: tm_inv_def) (simp add: add_interruptible_def)
next
  case (Wake s m t r s' m')
  show ?case by (rule try_wake_spec(1) [OF Wake.IH Wake.hyps(2)])
next
  case (Update s m s')
  show ?case using tm_inv_cong [of s' s m, OF Update.hyps(2)] Update.IH by simp
qed

section \<open>Waking terminates\<close>

lemma tm_add_status: "tm_add t (s, m) = (s', m') \<Longrightarrow> tcb_status (s' u) = tcb_status (s u)"
  by (auto simp: tm_add_def Let_def split: sched_class.splits prod.splits)

lemma try_wake_status:
  "try_wake_interruptible t (s, m) = (r, s', m') \<Longrightarrow> tcb_status (s' u) = tcb_status (s u)"
  by (auto simp: try_wake_interruptible_def Let_def tm_add_status split: if_splits)

lemma wake_pass_keeps:
  "wake_pass free t cpus ac w = (woken, ac', w') \<Longrightarrow>
     length (sw_managers w') = length (sw_managers w) \<and> (\<forall>u. tcb_status (sw_tasks w' u) = tcb_status (sw_tasks w u))
     \<and> (woken \<or> sw_clock w' = sw_clock w + length cpus)
     \<and> (woken \<or> ac' \<or> \<not> ac \<or> (\<exists>n \<ge> sw_clock w. \<exists>c. \<not> free n c))"
proof (induction cpus arbitrary: ac w)
  case (Cons cpu cpus)
  show ?case
  proof (cases "free (sw_clock w) cpu")
    case False
    then show ?thesis using Cons.IH [of False "w\<lparr>sw_clock := sw_clock w + 1\<rparr>"] Cons.prems by (auto simp: Let_def)
  next
    case True
    obtain r s m where r: "try_wake_interruptible t (sw_tasks w, sw_managers w ! cpu) = (r, s, m)"
      by (metis prod.exhaust)
    let ?w = "w\<lparr>sw_clock := sw_clock w + 1, sw_tasks := s, sw_managers := (sw_managers w)[cpu := m]\<rparr>"
    note st = try_wake_status [OF r]
    show ?thesis
    proof (cases r)
      case (Inl e)
      then have "wake_pass free t cpus ac ?w = (woken, ac', w')" using Cons.prems True r by (simp add: Let_def)
      from Cons.IH [OF this] show ?thesis using st by (auto simp: Suc_le_eq intro: less_imp_le)
    next
      case (Inr u)
      then show ?thesis using Cons.prems True r st by (auto simp: Let_def)
    qed
  qed
qed simp

text \<open>The retry loop ends as soon as the locks are free from some attempt on.\<close>

definition eventually_free :: "(nat \<Rightarrow> nat \<Rightarrow> bool) \<Rightarrow> bool" where
  "eventually_free free \<longleftrightarrow> (\<exists>N. \<forall>n \<ge> N. \<forall>c. free n c)"

lemma wake_interruptible_total:
  assumes "\<forall>n \<ge> N. \<forall>c. free n c" "sw_managers w \<noteq> []"
  shows "\<exists>w'. wake_interruptible free t w = Some w' \<and> length (sw_managers w') = length (sw_managers w)
    \<and> (\<forall>u. tcb_status (sw_tasks w' u) = tcb_status (sw_tasks w u))"
  using assms(2)
proof (induction "N - sw_clock w" arbitrary: w rule: less_induct)
  case less
  obtain woken ac w1 where p: "wake_pass free t [0..<length (sw_managers w)] True w = (woken, ac, w1)"
    by (metis prod.exhaust)
  note k = wake_pass_keeps [OF p]
  show ?case
  proof (cases "woken \<or> ac")
    case True
    then show ?thesis using p k by (simp add: wake_interruptible.simps [of free t w])
  next
    case False
    then obtain n c where "n \<ge> sw_clock w" "\<not> free n c" using k by auto
    then have "sw_clock w < N" using assms(1) by (meson le_trans not_le)
    moreover have "sw_clock w1 > sw_clock w" using k False less.prems by simp
    ultimately have "N - sw_clock w1 < N - sw_clock w" by simp
    moreover have "sw_managers w1 \<noteq> []" using k less.prems by (metis length_0_conv)
    ultimately obtain w' where "wake_interruptible free t w1 = Some w'"
        "length (sw_managers w') = length (sw_managers w1)"
        "\<forall>u. tcb_status (sw_tasks w' u) = tcb_status (sw_tasks w1 u)" using less.hyps by blast
    then show ?thesis using p k False by (simp add: wake_interruptible.simps [of free t w])
  qed
qed

lemma wake_one_total:
  assumes "eventually_free free" "sw_managers w \<noteq> []"
  shows "\<exists>w'. wake_one free cpu t w = Some (tcb_status (sw_tasks w t) = Interruptible, w')
    \<and> sw_managers w' \<noteq> [] \<and> (\<forall>u. u \<noteq> t \<longrightarrow> tcb_status (sw_tasks w' u) = tcb_status (sw_tasks w u))
    \<and> tcb_status (sw_tasks w' t)
        = (if tcb_status (sw_tasks w t) = Interruptible then Ready else tcb_status (sw_tasks w t))"
proof (cases "tcb_status (sw_tasks w t) = Interruptible")
  case False
  then show ?thesis using assms(2) by (cases "tcb_status (sw_tasks w t)") (simp_all add: wake_one_def)
next
  case True
  let ?s = "(sw_tasks w)(t := (sw_tasks w t)\<lparr>tcb_status := Ready\<rparr>)"
  obtain r s m where r: "try_wake_interruptible t (?s, sw_managers w ! cpu) = (r, s, m)" by (metis prod.exhaust)
  let ?w = "w\<lparr>sw_tasks := s, sw_managers := (sw_managers w)[cpu := m]\<rparr>"
  have st: "tcb_status (s u) = (if u = t then Ready else tcb_status (sw_tasks w u))" for u
    using try_wake_status [OF r, of u] by simp
  from assms(1) obtain N where "\<forall>n \<ge> N. \<forall>c. free n c" by (auto simp: eventually_free_def)
  from wake_interruptible_total [OF this, of ?w t] assms(2) obtain w' where
    w': "wake_interruptible free t ?w = Some w'" "length (sw_managers w') = length (sw_managers w)"
      "\<forall>u. tcb_status (sw_tasks w' u) = tcb_status (s u)" by auto
  then have "sw_managers w' \<noteq> []" using assms(2) by (metis length_0_conv)
  then show ?thesis using True r w' st assms(2) by (cases r) (simp_all add: wake_one_def Let_def)
qed

lemma wake_loop_total:
  assumes "eventually_free free" "sw_managers w \<noteq> []" "cnt < limit" "distinct ts"
  shows "\<exists>taken rest w'. wake_loop free alive cpu limit cnt ts w
      = Some (cnt + length (filter (\<lambda>t. alive t \<and> tcb_status (sw_tasks w t) = Interruptible) taken), rest, w')
    \<and> ts = taken @ rest
    \<and> cnt + length (filter (\<lambda>t. alive t \<and> tcb_status (sw_tasks w t) = Interruptible) taken) \<le> limit
    \<and> (cnt + length (filter (\<lambda>t. alive t \<and> tcb_status (sw_tasks w t) = Interruptible) taken) = limit \<or> rest = [])"
  using assms
proof (induction ts arbitrary: cnt w)
  case (Cons t ts)
  let ?c = "\<lambda>w t. alive t \<and> tcb_status (sw_tasks w t) = Interruptible"
  have cons: ?case if "wake_loop free alive cpu limit cnt (t # ts) w = wake_loop free alive cpu limit cnt' ts w1"
    and "cnt' < limit" "cnt' = (if ?c w t then cnt + 1 else cnt)" "sw_managers w1 \<noteq> []"
    and st: "\<forall>u \<in> set ts. tcb_status (sw_tasks w1 u) = tcb_status (sw_tasks w u)" for cnt' w1
  proof -
    from Cons.IH [OF Cons.prems(1) that(4,2)] Cons.prems(4) obtain taken rest w' where
      l: "wake_loop free alive cpu limit cnt' ts w1 = Some (cnt' + length (filter (?c w1) taken), rest, w')"
        "ts = taken @ rest" "cnt' + length (filter (?c w1) taken) \<le> limit"
        "cnt' + length (filter (?c w1) taken) = limit \<or> rest = []" by auto
    have "filter (?c w1) taken = filter (?c w) taken" using st l(2) by (intro filter_cong) auto
    then show ?thesis using l that(1,3) by (intro exI [of _ "t # taken"] exI [of _ rest] exI [of _ w']) auto
  qed
  obtain w1 where w1: "wake_one free cpu t w = Some (tcb_status (sw_tasks w t) = Interruptible, w1)"
    "sw_managers w1 \<noteq> []" "\<forall>u. u \<noteq> t \<longrightarrow> tcb_status (sw_tasks w1 u) = tcb_status (sw_tasks w u)"
    using wake_one_total [OF Cons.prems(1,2), of cpu t] by blast
  then have st: "\<forall>u \<in> set ts. tcb_status (sw_tasks w1 u) = tcb_status (sw_tasks w u)"
    using Cons.prems(4) by auto
  show ?case
  proof (cases "?c w t")
    case False
    show ?thesis
    proof (cases "alive t")
      case True
      then show ?thesis using cons [of cnt w1] w1 False Cons.prems(3) st by simp
    next
      case False
      then show ?thesis using cons [of cnt w] Cons.prems(2,3) by simp
    qed
  next
    case c: True
    show ?thesis
    proof (cases "cnt + 1 = limit")
      case True
      then show ?thesis using w1(1) c by (intro exI [of _ "[t]"] exI [of _ ts] exI [of _ w1]) simp
    next
      case False
      then show ?thesis using cons [of "cnt + 1" w1] w1 c Cons.prems(3) st by simp
    qed
  qed
qed auto

lemma wake_at_most_total:
  assumes "eventually_free free" "sw_managers w \<noteq> []" "distinct (wq_inner q)"
  shows "\<exists>taken cnt q' w'. wake_at_most free alive cpu limit q w = Some (cnt, q', w')
    \<and> wq_inner q = taken @ wq_inner q'
    \<and> cnt = length (filter (\<lambda>t. alive t \<and> tcb_status (sw_tasks w t) = Interruptible) taken)
    \<and> cnt \<le> limit \<and> (cnt = limit \<or> wq_inner q' = [])"
proof (cases "limit = 0")
  case True
  then show ?thesis by (intro exI [of _ "[]"]) (simp add: wake_at_most_def)
next
  case False
  then have "0 < limit" by simp
  from wake_loop_total [OF assms(1,2) this assms(3), of alive cpu, unfolded add_0] obtain taken rest w' where
    l: "wake_loop free alive cpu limit 0 (wq_inner q) w =
        Some (length (filter (\<lambda>t. alive t \<and> tcb_status (sw_tasks w t) = Interruptible) taken), rest, w')"
      "wq_inner q = taken @ rest"
      "length (filter (\<lambda>t. alive t \<and> tcb_status (sw_tasks w t) = Interruptible) taken) \<le> limit"
      "length (filter (\<lambda>t. alive t \<and> tcb_status (sw_tasks w t) = Interruptible) taken) = limit \<or> rest = []"
    by blast
  from l(1) False have "wake_at_most free alive cpu limit q w =
      Some (length (filter (\<lambda>t. alive t \<and> tcb_status (sw_tasks w t) = Interruptible) taken), q\<lparr>wq_inner := rest\<rparr>, w')"
    by (simp add: wake_at_most_def)
  moreover have "wq_inner q = taken @ wq_inner (q\<lparr>wq_inner := rest\<rparr>)" using l(2) by simp
  moreover have "length (filter (\<lambda>t. alive t \<and> tcb_status (sw_tasks w t) = Interruptible) taken) = limit
      \<or> wq_inner (q\<lparr>wq_inner := rest\<rparr>) = []" using l(4) by simp
  ultimately show ?thesis using l(3) by blast
qed

section \<open>The timeout heap\<close>

text \<open>What \<open>wake_expired\<close> relies on: popping takes out an element with the earliest timeout.\<close>

locale timeout_heap =
  fixes elems :: "'h \<Rightarrow> 'w multiset"
    and push :: "'w \<Rightarrow> 'h \<Rightarrow> 'h"
    and pop :: "'h \<Rightarrow> ('w \<times> 'h) option"
    and deadline :: "'w \<Rightarrow> 'k::linorder"
  assumes elems_push: "elems (push x h) = add_mset x (elems h)"
    and pop_None: "pop h = None \<Longrightarrow> elems h = {#}"
    and pop_Some: "pop h = Some (x, h') \<Longrightarrow> elems h = add_mset x (elems h') \<and> (\<forall>y \<in># elems h'. deadline x \<le> deadline y)"
begin

lemma nothing_expired:
  assumes "pop h = Some (x, h')" "now < deadline x"
  shows "filter_mset (\<lambda>y. now < deadline y) (elems h) = elems (push x h')"
proof -
  have "\<forall>y \<in># elems h'. now < deadline y" using pop_Some [OF assms(1)] assms(2) by (meson less_le_trans)
  then have "filter_mset (\<lambda>y. now < deadline y) (elems h') = elems h'" by (simp add: filter_mset_eq_conv)
  then show ?thesis using pop_Some [OF assms(1)] assms(2) by (simp add: elems_push)
qed

lemma one_expired:
  assumes "pop h = Some (x, h')" "\<not> now < deadline x"
  shows "filter_mset (\<lambda>y. now < deadline y) (elems h) = filter_mset (\<lambda>y. now < deadline y) (elems h')"
    and "size (elems h') < size (elems h)"
  using pop_Some [OF assms(1)] assms(2) by simp_all

end

lemma waiter_cmp_Greater: "waiter_cmp a b = Greater \<longleftrightarrow> tw_timeout a < tw_timeout b"
  by (auto simp: waiter_cmp_def less_time_spec_def split: ordering.splits)

lemma heap_max_spec:
  "heap_max x ys \<in> set (x # ys) \<and> (\<forall>y \<in> set (x # ys). tw_timeout (heap_max x ys) \<le> tw_timeout y)"
proof (induction x ys rule: heap_max.induct)
  case (2 x y ys)
  let ?z = "if waiter_cmp y x = Greater then y else x"
  have "tw_timeout ?z \<le> tw_timeout x" "tw_timeout ?z \<le> tw_timeout y" "?z \<in> {x, y}"
    by (auto simp: waiter_cmp_Greater)
  moreover have "heap_max x (y # ys) = heap_max ?z ys" by simp
  ultimately show ?case using 2 by (auto intro: order_trans)
qed simp

interpretation heap: timeout_heap mset heap_push heap_pop tw_timeout
proof unfold_locales
  show "mset (heap_push x h) = add_mset x (mset h)" for x h by (simp add: heap_push_def)
  show "heap_pop h = None \<Longrightarrow> mset h = {#}" for h by (cases h) auto
  fix h x h' assume p: "heap_pop h = Some (x, h')"
  then obtain a as where h: "h = a # as" "x = heap_max a as" "h' = remove1 x h" by (cases h) auto
  have x: "x \<in> set h" "\<forall>y \<in> set h. tw_timeout x \<le> tw_timeout y" using heap_max_spec [of a as] h by auto
  then have "mset h = add_mset x (mset h')" unfolding h(3) by simp
  moreover have "\<forall>y \<in># mset h'. tw_timeout x \<le> tw_timeout y"
    using x(2) unfolding h(3) by (auto dest: in_diffD)
  ultimately show "mset h = add_mset x (mset h') \<and> (\<forall>y \<in># mset h'. tw_timeout x \<le> tw_timeout y)" ..
qed

text \<open>The statuses after waking the expired waiters of a set.\<close>

definition expiry :: "(task_ref \<Rightarrow> bool) \<Rightarrow> time_spec \<Rightarrow> timeout_waiter set \<Rightarrow> tasks \<Rightarrow> tasks \<Rightarrow> bool" where
  "expiry alive now X s s' \<longleftrightarrow> (\<forall>u. tcb_status (s' u) =
     (if tcb_status (s u) = Interruptible \<and> alive u \<and> (\<exists>x \<in> X. tw_task x = u \<and> tw_timeout x \<le> now)
      then Ready else tcb_status (s u)))"

lemma expiry_insert: "expiry alive now {x} s s1 \<Longrightarrow> expiry alive now X s1 s' \<Longrightarrow> expiry alive now (insert x X) s s'"
proof -
  assume e: "expiry alive now {x} s s1" "expiry alive now X s1 s'"
  show ?thesis unfolding expiry_def
  proof
    fix u
    from e(1) [unfolded expiry_def, rule_format, of u] e(2) [unfolded expiry_def, rule_format, of u]
    show "tcb_status (s' u) = (if tcb_status (s u) = Interruptible \<and> alive u
        \<and> (\<exists>y \<in> insert x X. tw_task y = u \<and> tw_timeout y \<le> now) then Ready else tcb_status (s u))"
      by (cases "tw_task x = u \<and> tw_timeout x \<le> now") (simp_all split: if_splits)
  qed
qed

lemma expiry_none: "(\<forall>x \<in> X. now < tw_timeout x) \<Longrightarrow> expiry alive now X s s"
  unfolding expiry_def by (meson leD)

lemma wake_expired_one:
  assumes "eventually_free free" "sw_managers w \<noteq> []" "heap_pop h = Some (x, h1)" "\<not> now < tw_timeout x"
  shows "\<exists>w1. wake_expired free alive cpu now h w = wake_expired free alive cpu now h1 w1
    \<and> sw_managers w1 \<noteq> [] \<and> expiry alive now {x} (sw_tasks w) (sw_tasks w1)"
proof (cases "alive (tw_task x)")
  case True
  from wake_one_total [OF assms(1,2), of cpu "tw_task x"] obtain w1 where
    w1: "wake_one free cpu (tw_task x) w = Some (tcb_status (sw_tasks w (tw_task x)) = Interruptible, w1)"
    "sw_managers w1 \<noteq> []" "\<forall>u. u \<noteq> tw_task x \<longrightarrow> tcb_status (sw_tasks w1 u) = tcb_status (sw_tasks w u)"
    "tcb_status (sw_tasks w1 (tw_task x)) = (if tcb_status (sw_tasks w (tw_task x)) = Interruptible then Ready
       else tcb_status (sw_tasks w (tw_task x)))" by blast
  have "expiry alive now {x} (sw_tasks w) (sw_tasks w1)"
    unfolding expiry_def
  proof
    fix u
    show "tcb_status (sw_tasks w1 u) =
       (if tcb_status (sw_tasks w u) = Interruptible \<and> alive u \<and> (\<exists>y \<in> {x}. tw_task y = u \<and> tw_timeout y \<le> now)
        then Ready else tcb_status (sw_tasks w u))"
      using w1(3,4) True assms(4) by (cases "u = tw_task x") auto
  qed
  moreover have "wake_expired free alive cpu now h w = wake_expired free alive cpu now h1 w1"
    using w1(1) True assms(3,4) by (simp add: wake_expired.simps [of free alive cpu now h w])
  ultimately show ?thesis using w1(2) by blast
next
  case False
  moreover from this have "expiry alive now {x} (sw_tasks w) (sw_tasks w)" by (simp add: expiry_def)
  ultimately show ?thesis using assms(2-4)
    by (intro exI [of _ w]) (simp add: wake_expired.simps [of free alive cpu now h w])
qed

lemma wake_expired_total:
  assumes "eventually_free free" "sw_managers w \<noteq> []"
  shows "\<exists>h' w'. wake_expired free alive cpu now h w = Some (h', w')
    \<and> mset h' = filter_mset (\<lambda>x. now < tw_timeout x) (mset h) \<and> expiry alive now (set h) (sw_tasks w) (sw_tasks w')"
  using assms(2)
proof (induction "size (mset h)" arbitrary: h w rule: less_induct)
  case less
  show ?case
  proof (cases "heap_pop h")
    case None
    then have "h = []" using heap.pop_None by simp
    then show ?thesis by (simp add: wake_expired.simps expiry_none)
  next
    case (Some xh)
    then obtain x h1 where p: "heap_pop h = Some (x, h1)" by (cases xh) auto
    have set_h: "set h = insert x (set h1)" using heap.pop_Some [OF p] by (metis set_mset_add_mset_insert set_mset_mset)
    show ?thesis
    proof (cases "now < tw_timeout x")
      case True
      have "\<forall>y \<in> set h. now < tw_timeout y"
        using heap.pop_Some [OF p] True set_h by (auto intro: less_le_trans)
      then show ?thesis using heap.nothing_expired [OF p True] p True
        by (simp add: wake_expired.simps [of free alive cpu now h w] expiry_none)
    next
      case False
      note ex = heap.one_expired [OF p False]
      from wake_expired_one [OF assms(1) less.prems p False] obtain w1 where
        w1: "wake_expired free alive cpu now h w = wake_expired free alive cpu now h1 w1" "sw_managers w1 \<noteq> []"
          "expiry alive now {x} (sw_tasks w) (sw_tasks w1)" by blast
      from less.hyps [OF ex(2) w1(2)] obtain h' w' where
        "wake_expired free alive cpu now h1 w1 = Some (h', w')"
        "mset h' = filter_mset (\<lambda>x. now < tw_timeout x) (mset h1)"
        "expiry alive now (set h1) (sw_tasks w1) (sw_tasks w')" by blast
      then show ?thesis using w1(1) ex(1) expiry_insert [OF w1(3)] unfolding set_h by simp
    qed
  qed
qed

section \<open>Properties\<close>


lemma demo_add_reach: "tm_reach (fst (tm_add 5 (demo_tasks, tm_new))) (snd (tm_add 5 (demo_tasks, tm_new)))"
  by (rule tm_reach.Add [OF tm_reach.New, of demo_tasks 5]) (simp_all add: tm_pids_def tm_ready_def tm_new_def
      rt_iter_def rt_new_def cfs_iter_def cfs_new_def idle_iter_def idle_new_def)


text \<open>A task that sleeps in a manager becomes ready when it is woken there: \<open>try_wake_interruptible\<close> succeeds,
  takes it out of the sleeping queue, adds it (and nothing else) to the ready tasks, and the other sleepers
  stay as they are.\<close>

theorem wake_makes_ready:
  assumes "tm_reach s m" "t \<in> set (interruptible_queue m)" "enqueuable (s t)"
  shows "\<exists>s' m'. try_wake_interruptible t (s, m) = (Inr (), s', m') \<and> tm_ready m' = add_mset t (tm_ready m)
    \<and> interruptible_queue m' = filter (\<lambda>u. u \<noteq> t) (interruptible_queue m)"
proof -
  note inv = tm_reach_inv [OF assms(1)]
  obtain r s' m' where w: "try_wake_interruptible t (s, m) = (r, s', m')" by (metis prod.exhaust)
  have "t \<in> set (filter (\<lambda>u. u = t) (interruptible_queue m))" using assms(2) by simp
  then have "tcb_pid (s t) \<in># image_mset (tcb_pid \<circ> s) (mset (filter (\<lambda>u. u = t) (interruptible_queue m)))"
    by (metis comp_apply imageI set_image_mset set_mset_mset)
  then have "Suc (count (tm_pids s (drop_interruptible t m)) (tcb_pid (s t))) \<le> count (tm_pids s m) (tcb_pid (s t))"
    using drop_interruptible_pids [of s m t] by (metis Suc_eq_plus1 add_left_mono count_greater_eq_one_iff count_union)
  then have "count (tm_pids s (drop_interruptible t m)) (tcb_pid (s t)) = 0"
    using tm_invD(4) [OF inv] by (metis Suc_le_mono le_trans le_zero_eq One_nat_def)
  then have "r = Inr ()" using try_wake_spec(5) [OF inv w] by (simp add: count_eq_zero_iff)
  then show ?thesis using w try_wake_spec(4,6) [OF inv w] assms(3) by simp
qed

theorem wake_makes_ready_witness:
  "\<exists>s' m'. try_wake_interruptible 5 (demo_tasks, add_interruptible 5 tm_new) = (Inr (), s', m') \<and> tm_ready m' = {#5#}"
proof -
  have e: "tm_ready tm_new = {#}" "interruptible_queue tm_new = []"
    by (simp_all add: tm_ready_def tm_new_def rt_iter_def rt_new_def cfs_iter_def cfs_new_def idle_iter_def idle_new_def)
  have "tm_reach demo_tasks (add_interruptible 5 tm_new)"
    by (rule tm_reach.Sleep [OF tm_reach.New]) (simp add: tm_pids_def e)
  from wake_makes_ready [OF this, of 5] e show ?thesis
    by (auto simp: add_interruptible_def enqueuable_def demo_tasks_def entity_new_def entity_default_def
        get_sched_class_def tm_ready_def)
qed

text \<open>When the locks of the managers are free from some moment on, \<open>wake_at_most\<close> returns; it takes waiters
  from the front of the queue, counts exactly those that are alive and interruptible, never more than the
  limit, and stops early only with the limit reached.\<close>

theorem wake_at_most_fifo:
  assumes "eventually_free free" "sw_managers w \<noteq> []" "distinct (wq_inner q)"
  shows "\<exists>taken cnt q' w'. wake_at_most free alive cpu limit q w = Some (cnt, q', w')
    \<and> wq_inner q = taken @ wq_inner q'
    \<and> cnt = length (filter (\<lambda>t. alive t \<and> tcb_status (sw_tasks w t) = Interruptible) taken)
    \<and> cnt \<le> limit \<and> (cnt = limit \<or> wq_inner q' = [])"
  using wake_at_most_total [OF assms] .

definition demo_world :: sched_world where
  "demo_world = \<lparr>sw_tasks = (\<lambda>t. (demo_tasks t)\<lparr>tcb_status := Interruptible\<rparr>), sw_managers = replicate MAX_CPU_NUM tm_new,
     sw_clock = 0\<rparr>"

theorem wake_at_most_fifo_witness:
  "\<exists>q' w'. wake_at_most (\<lambda>_ _. True) (\<lambda>t. t \<noteq> 4) 0 2 \<lparr>wq_inner = [4, 5, 6, 7]\<rparr> demo_world = Some (2, q', w')
     \<and> wq_inner q' = [7]"
proof -
  have "eventually_free (\<lambda>_ _. True)" by (simp add: eventually_free_def)
  moreover have "sw_managers demo_world \<noteq> []" by (simp add: demo_world_def MAX_CPU_NUM_def)
  ultimately obtain taken cnt q' w' where r:
    "wake_at_most (\<lambda>_ _. True) (\<lambda>t. t \<noteq> 4) 0 2 \<lparr>wq_inner = [4, 5, 6, 7]\<rparr> demo_world = Some (cnt, q', w')"
    "wq_inner \<lparr>wq_inner = [4, 5, 6, 7]\<rparr> = taken @ wq_inner q'"
    "cnt = length (filter (\<lambda>t. t \<noteq> 4 \<and> tcb_status (sw_tasks demo_world t) = Interruptible) taken)" "cnt \<le> 2"
    "cnt = 2 \<or> wq_inner q' = []"
    using wake_at_most_fifo [of "\<lambda>_ _. True" demo_world "\<lparr>wq_inner = [4, 5, 6, 7]\<rparr>" "\<lambda>t. t \<noteq> 4" 0 2]
    by fastforce
  have "tcb_status (sw_tasks demo_world t) = Interruptible" for t by (simp add: demo_world_def)
  then have c: "cnt = length (filter (\<lambda>t. t \<noteq> 4) taken)" using r(3) by simp
  then have "cnt = 2" using r(2,4,5) by auto
  moreover have "wq_inner q' = [7]"
    using r(2) c \<open>cnt = 2\<close> by (auto simp: Cons_eq_append_conv)
  ultimately show ?thesis using r(1) by blast
qed




end
