(* ===== verification/Fd_Table.thy ===== *)
theory Fd_Table
  imports Prelude
begin

text \<open>
  The file descriptor table of \<open>fs/file_descriptor.rs\<close> and the system calls of \<open>syscall/fs.rs\<close> that only
  work on it (\<open>close\<close>, \<open>dup\<close>, \<open>dup2\<close>, \<open>dup3\<close>, \<open>fcntl\<close>) together with the close-on-exec pass of \<open>task/task.rs\<close>.
  The interface is a table that behaves like the POSIX one: a map from small numbers to descriptors whose
  free entries are handed out lowest first.  An open file (\<open>Arc<dyn File>\<close>) is any value \<open>'f\<close>.
\<close>

section \<open>Descriptors\<close>

definition SUCCESS :: int where "SUCCESS = 0"
definition EBADF :: int where "EBADF = - 9"
definition EINVAL :: int where "EINVAL = - 22"
definition EMFILE :: int where "EMFILE = - 24"

lemmas errno_defs = SUCCESS_def EBADF_def EINVAL_def EMFILE_def

record 'f file_descriptor =
  fd_cloexec :: bool
  fd_nonblock :: bool
  fd_file :: 'f

definition fd_new :: "bool \<Rightarrow> bool \<Rightarrow> 'f \<Rightarrow> 'f file_descriptor" where
  "fd_new cloexec nonblock file = \<lparr>fd_cloexec = cloexec, fd_nonblock = nonblock, fd_file = file\<rparr>"

definition set_cloexec :: "bool \<Rightarrow> 'f file_descriptor \<Rightarrow> 'f file_descriptor" where
  "set_cloexec flag d = d\<lparr>fd_cloexec := flag\<rparr>"

definition get_cloexec :: "'f file_descriptor \<Rightarrow> bool" where "get_cloexec d = fd_cloexec d"
definition get_nonblock :: "'f file_descriptor \<Rightarrow> bool" where "get_nonblock d = fd_nonblock d"

text \<open>\<open>truncate_size\<close> dispatches to the file after its two checks.\<close>

definition fd_truncate_size ::
  "('f \<Rightarrow> bool) \<Rightarrow> ('f \<Rightarrow> usize \<Rightarrow> int + unit) \<Rightarrow> isize \<Rightarrow> 'f file_descriptor \<Rightarrow> int + unit" where
  "fd_truncate_size writable trunc new_size d =
     (if sint new_size < 0 \<or> \<not> writable (fd_file d) then Inl EINVAL else trunc (fd_file d) new_size)"

section \<open>The table\<close>

record 'f fd_table =
  inner :: "'f file_descriptor option list"
  recycled :: "u8 list"
  soft_limit :: nat
  hard_limit :: nat

definition DEFAULT_FD_LIMIT :: nat where "DEFAULT_FD_LIMIT = 128"
definition SYSTEM_FD_LIMIT :: nat where "SYSTEM_FD_LIMIT = 256"

definition fdt_new :: "'f file_descriptor option list \<Rightarrow> 'f fd_table" where
  "fdt_new fds = \<lparr>inner = fds, recycled = [], soft_limit = DEFAULT_FD_LIMIT, hard_limit = SYSTEM_FD_LIMIT\<rparr>"

definition set_soft_limit :: "nat \<Rightarrow> 'f fd_table \<Rightarrow> 'f fd_table" where
  "set_soft_limit limit t =
     (let t = (if limit < length (inner t)
               then t\<lparr>inner := take limit (inner t), recycled := filter (\<lambda>fd. unat fd < limit) (recycled t)\<rparr>
               else t)
      in t\<lparr>soft_limit := limit\<rparr>)"

definition set_hard_limit :: "nat \<Rightarrow> 'f fd_table \<Rightarrow> 'f fd_table" where
  "set_hard_limit limit t =
     (let t = (if limit < length (inner t)
               then t\<lparr>inner := take limit (inner t), recycled := filter (\<lambda>fd. unat fd < limit) (recycled t)\<rparr>
               else t)
      in t\<lparr>hard_limit := limit\<rparr>)"

definition get_ref :: "nat \<Rightarrow> 'f fd_table \<Rightarrow> int + 'f file_descriptor" where
  "get_ref fd t =
     (if fd \<ge> length (inner t) then Inl EBADF
      else case inner t ! fd of Some d \<Rightarrow> Inr d | None \<Rightarrow> Inl EBADF)"

text \<open>A mutable reference is the descriptor together with the write-back of a changed one.\<close>

definition get_refmut ::
  "nat \<Rightarrow> 'f fd_table \<Rightarrow> int + 'f file_descriptor \<times> ('f file_descriptor \<Rightarrow> 'f fd_table)" where
  "get_refmut fd t =
     (if fd \<ge> length (inner t) then Inl EBADF
      else case inner t ! fd of
             Some d \<Rightarrow> Inr (d, \<lambda>d'. t\<lparr>inner := (inner t)[fd := Some d']\<rparr>)
           | None \<Rightarrow> Inl EBADF)"

definition fdt_remove :: "nat \<Rightarrow> 'f fd_table \<Rightarrow> (int + 'f file_descriptor) \<times> 'f fd_table" where
  "fdt_remove fd t =
     (if fd \<ge> length (inner t) then (Inl EBADF, t)
      else case inner t ! fd of
             Some d \<Rightarrow> (Inr d, t\<lparr>inner := (inner t)[fd := None], recycled := recycled t @ [of_nat fd]\<rparr>)
           | None \<Rightarrow> (Inl EBADF, t))"

definition fdt_check :: "nat \<Rightarrow> 'f fd_table \<Rightarrow> int + unit" where
  "fdt_check fd t = (if fd \<ge> length (inner t) \<or> inner t ! fd = None then Inl EBADF else Inr ())"

text \<open>Rust's \<open>iter().min()\<close>.\<close>

fun iter_min :: "'a::linorder list \<Rightarrow> 'a option" where
  "iter_min [] = None"
| "iter_min (x # xs) = Some (fold min xs x)"

definition find_min :: "'f fd_table \<Rightarrow> u8 option \<times> 'f fd_table" where
  "find_min t =
     (case iter_min (recycled t) of
        Some m \<Rightarrow> (Some m, t\<lparr>recycled := remove1 m (recycled t)\<rparr>)
      | None \<Rightarrow> (None, t))"

definition fdt_insert :: "'f file_descriptor \<Rightarrow> 'f fd_table \<Rightarrow> ((int + nat) \<times> 'f fd_table) outcome" where
  "fdt_insert d t =
     (case find_min t of
        (Some fd, t) \<Rightarrow>
          if unat fd < length (inner t) then Ret (Inr (unat fd), t\<lparr>inner := (inner t)[unat fd := Some d]\<rparr>)
          else Panic
      | (None, t) \<Rightarrow>
          let current = length (inner t) in
          if current = soft_limit t then Ret (Inl EMFILE, t)
          else Ret (Inr current, t\<lparr>inner := inner t @ [Some d]\<rparr>))"

definition insert_at :: "'f file_descriptor \<Rightarrow> nat \<Rightarrow> 'f fd_table \<Rightarrow> (int + nat) \<times> 'f fd_table" where
  "insert_at d pos t =
     (let current = length (inner t) in
      if pos < current then
        let t = (if inner t ! pos = None
                 then t\<lparr>recycled := filter (\<lambda>fd. unat fd \<noteq> pos) (recycled t)\<rparr> else t)
        in (Inr pos, t\<lparr>inner := (inner t)[pos := Some d]\<rparr>)
      else if pos \<ge> soft_limit t then (Inl EMFILE, t)
      else (Inr pos, t\<lparr>recycled := recycled t @ map of_nat (rev [current..<pos]),
                       inner := inner t @ replicate (pos - current) None @ [Some d]\<rparr>))"

definition try_insert_at ::
  "'f file_descriptor \<Rightarrow> nat \<Rightarrow> 'f fd_table \<Rightarrow> ((int + nat) \<times> 'f fd_table) outcome" where
  "try_insert_at d hint t =
     (if hint \<ge> soft_limit t then Ret (Inl EMFILE, t)
      else
        let current = length (inner t) in
        if hint < current then
          case inner t ! hint of
            Some _ \<Rightarrow>
              (case find (\<lambda>fd. unat fd > hint) (recycled t) of
                 Some fd \<Rightarrow>
                   if unat fd < current
                   then Ret (Inr (unat fd), t\<lparr>inner := (inner t)[unat fd := Some d]\<rparr>) else Panic
               | None \<Rightarrow>
                   if current = soft_limit t then Ret (Inl EMFILE, t)
                   else Ret (Inr current, t\<lparr>inner := inner t @ [Some d]\<rparr>))
          | None \<Rightarrow>
              Ret (Inr hint, t\<lparr>recycled := filter (\<lambda>fd. unat fd \<noteq> hint) (recycled t),
                               inner := (inner t)[hint := Some d]\<rparr>)
        else if hint \<ge> soft_limit t then Ret (Inl EMFILE, t)
        else Ret (Inr hint, t\<lparr>recycled := recycled t @ map of_nat [current..<hint],
                              inner := inner t @ replicate (hint - current) None @ [Some d]\<rparr>))"

definition fdt_take :: "nat \<Rightarrow> 'f fd_table \<Rightarrow> 'f file_descriptor option \<times> 'f fd_table" where
  "fdt_take fd t =
     (if fd \<ge> length (inner t) then (None, t)
      else (inner t ! fd, t\<lparr>inner := (inner t)[fd := None]\<rparr>))"

section \<open>System calls on the table\<close>

definition sys_close :: "nat \<Rightarrow> 'f fd_table \<Rightarrow> int \<times> 'f fd_table" where
  "sys_close fd t = (case fdt_remove fd t of (Inr _, t) \<Rightarrow> (SUCCESS, t) | (Inl errno, t) \<Rightarrow> (errno, t))"

definition sys_dup :: "nat \<Rightarrow> 'f fd_table \<Rightarrow> (int \<times> 'f fd_table) outcome" where
  "sys_dup oldfd t =
     (case get_ref oldfd t of
        Inl errno \<Rightarrow> Ret (errno, t)
      | Inr d \<Rightarrow>
          bind_outcome (fdt_insert d t)
            (\<lambda>(r, t). Ret (case r of Inr fd \<Rightarrow> int fd | Inl errno \<Rightarrow> errno, t)))"

definition sys_dup2 :: "nat \<Rightarrow> nat \<Rightarrow> 'f fd_table \<Rightarrow> int \<times> 'f fd_table" where
  "sys_dup2 oldfd newfd t =
     (case get_ref oldfd t of
        Inl errno \<Rightarrow> (errno, t)
      | Inr d \<Rightarrow>
          (case insert_at (set_cloexec False d) newfd t of
             (Inr fd, t) \<Rightarrow> (int fd, t) | (Inl errno, t) \<Rightarrow> (errno, t)))"

text \<open>\<open>OpenFlags\<close>: the bits that have a name (\<open>from_bits\<close> accepts no other), and those the calls below test.\<close>

definition OPEN_FLAGS_ALL :: u32 where
  "OPEN_FLAGS_ALL = 0x1 OR 0x2 OR 0x40 OR 0x80 OR 0x100 OR 0x200 OR 0x400 OR 0x800 OR 0x1000 OR 0x101000
     OR 0x10000 OR 0x20000 OR 0x80000 OR 0x2000 OR 0x4000 OR 0x8000 OR 0x40000 OR 0x200000 OR 0x410000"

definition O_RDONLY :: u32 where "O_RDONLY = 0"
definition O_RDWR :: u32 where "O_RDWR = 0x2"
definition O_NONBLOCK :: u32 where "O_NONBLOCK = 0x800"
definition O_CLOEXEC :: u32 where "O_CLOEXEC = 0x80000"

lemmas open_flag_defs = OPEN_FLAGS_ALL_def O_RDONLY_def O_RDWR_def O_NONBLOCK_def O_CLOEXEC_def

definition sys_dup3 :: "nat \<Rightarrow> nat \<Rightarrow> u32 \<Rightarrow> 'f fd_table \<Rightarrow> int \<times> 'f fd_table" where
  "sys_dup3 oldfd newfd flags t =
     (if oldfd = newfd then (EINVAL, t)
      else if flags AND NOT OPEN_FLAGS_ALL \<noteq> 0 \<or> (flags \<noteq> O_CLOEXEC \<and> flags \<noteq> O_RDONLY) then (EINVAL, t)
      else
        let is_cloexec = (flags = O_CLOEXEC) in
        case get_ref oldfd t of
          Inl errno \<Rightarrow> (errno, t)
        | Inr d \<Rightarrow>
            (case insert_at (set_cloexec is_cloexec d) newfd t of
               (Inr fd, t) \<Rightarrow> (int fd, t) | (Inl errno, t) \<Rightarrow> (errno, t)))"

text \<open>The commands of \<open>fcntl\<close>; a number without a command is \<open>ILLEAGAL\<close>.\<close>

datatype fcntl_command =
    DUPFD | GETFD | SETFD | GETFL | SETFL | GETLK | SETLK | SETLKW | SETOWN | GETOWN | SETSIG | GETSIG |
    SETOWN_EX | GETOWN_EX | GETOWNER_UIDS | OFD_GETLK | OFD_SETLK | OFD_SETLKW | SETLEASE | GETLEASE |
    NOTIFY | CANCELLK | DUPFD_CLOEXEC | SETPIPE_SZ | GETPIPE_SZ | ADD_SEALS | GET_SEALS | GET_RW_HINT |
    SET_RW_HINT | GET_FILE_RW_HINT | SET_FILE_RW_HINT | ILLEAGAL

definition fcntl_numbers :: "(u32 \<times> fcntl_command) list" where
  "fcntl_numbers =
    [(0, DUPFD), (1, GETFD), (2, SETFD), (3, GETFL), (4, SETFL), (5, GETLK), (6, SETLK), (7, SETLKW), (8,
     SETOWN), (9, GETOWN), (10, SETSIG), (11, GETSIG), (15, SETOWN_EX), (16, GETOWN_EX), (17,
     GETOWNER_UIDS), (36, OFD_GETLK), (37, OFD_SETLK), (38, OFD_SETLKW), (1024, SETLEASE), (1025,
     GETLEASE), (1026, NOTIFY), (1029, CANCELLK), (1030, DUPFD_CLOEXEC), (1031, SETPIPE_SZ), (1032,
     GETPIPE_SZ), (1033, ADD_SEALS), (1034, GET_SEALS), (1035, GET_RW_HINT), (1036, SET_RW_HINT), (1037,
     GET_FILE_RW_HINT), (1038, SET_FILE_RW_HINT)]"

definition fcntl_from_primitive :: "u32 \<Rightarrow> fcntl_command" where
  "fcntl_from_primitive cmd = (case map_of fcntl_numbers cmd of Some c \<Rightarrow> c | None \<Rightarrow> ILLEAGAL)"

definition sys_fcntl :: "nat \<Rightarrow> u32 \<Rightarrow> usize \<Rightarrow> 'f fd_table \<Rightarrow> (int \<times> 'f fd_table) outcome" where
  "sys_fcntl fd cmd arg t =
     (let dup = (\<lambda>d. bind_outcome (try_insert_at d (unat arg) t)
            (\<lambda>(r, t). Ret (case r of Inr fd \<Rightarrow> int fd | Inl errno \<Rightarrow> errno, t)))
      in case fcntl_from_primitive cmd of
        DUPFD \<Rightarrow> (case get_ref fd t of Inl errno \<Rightarrow> Ret (errno, t) | Inr d \<Rightarrow> dup d)
      | DUPFD_CLOEXEC \<Rightarrow> (case get_ref fd t of Inl errno \<Rightarrow> Ret (errno, t) | Inr d \<Rightarrow> dup (set_cloexec True d))
      | GETFD \<Rightarrow>
          Ret (case get_ref fd t of Inl errno \<Rightarrow> errno | Inr d \<Rightarrow> if get_cloexec d then 1 else 0, t)
      | SETFD \<Rightarrow>
          Ret (case get_refmut fd t of
                 Inl errno \<Rightarrow> (errno, t)
               | Inr (d, put) \<Rightarrow> (SUCCESS, put (set_cloexec (arg AND 1 \<noteq> 0) d)))
      | GETFL \<Rightarrow>
          Ret (case get_ref fd t of
                 Inl errno \<Rightarrow> errno
               | Inr d \<Rightarrow> uint (if get_nonblock d then O_RDWR OR O_NONBLOCK else O_RDWR), t)
      | _ \<Rightarrow> Ret (SUCCESS, t))"

text \<open>The pass of \<open>load_elf\<close> that closes the close-on-exec descriptors.\<close>

definition close_on_exec :: "'f fd_table \<Rightarrow> 'f fd_table" where
  "close_on_exec t =
     t\<lparr>inner := map (\<lambda>fd. case fd of Some d \<Rightarrow> if get_cloexec d then None else fd | None \<Rightarrow> None) (inner t)\<rparr>"

section \<open>The interface: a POSIX descriptor table\<close>

text \<open>The specification of a descriptor table is a map and a limit.  Opening takes the lowest free number
  below the limit, closing frees a number, duplicating onto a number replaces what is there, and changing
  the limit closes what lies beyond it.\<close>

datatype 'd fd_event = Open 'd | Close nat | DupOnto 'd nat | Limit nat

datatype 'd fd_answer = Errno int | Fd nat | Closed 'd | Resized

type_synonym 'd fd_spec = "(nat \<Rightarrow> 'd option) \<times> nat"

fun spec_step :: "'d fd_event \<Rightarrow> 'd fd_spec \<Rightarrow> 'd fd_answer \<times> 'd fd_spec" where
  "spec_step (Open d) (m, l) =
     (case find (\<lambda>n. m n = None) [0..<l] of
        None \<Rightarrow> (Errno EMFILE, (m, l))
      | Some n \<Rightarrow> (Fd n, (m(n \<mapsto> d), l)))"
| "spec_step (Close n) (m, l) =
     (case m n of None \<Rightarrow> (Errno EBADF, (m, l)) | Some d \<Rightarrow> (Closed d, (m(n := None), l)))"
| "spec_step (DupOnto d n) (m, l) =
     (if n < l then (Fd n, (m(n \<mapsto> d), l)) else (Errno EMFILE, (m, l)))"
| "spec_step (Limit l') (m, l) = (Resized, (m |` {..<l'}, l'))"

fun spec_run :: "'d fd_event list \<Rightarrow> 'd fd_spec \<Rightarrow> 'd fd_answer list \<times> 'd fd_spec" where
  "spec_run [] s = ([], s)"
| "spec_run (e # es) s = (let (a, s) = spec_step e s; (as, s) = spec_run es s in (a # as, s))"

fun events_below :: "nat \<Rightarrow> 'd fd_event list \<Rightarrow> bool" where
  "events_below b es \<longleftrightarrow> list_all (\<lambda>e. case e of Limit l \<Rightarrow> l \<le> b | _ \<Rightarrow> True) es"

fun table_step ::
  "('d \<Rightarrow> 't \<Rightarrow> ((int + nat) \<times> 't) outcome) \<Rightarrow> (nat \<Rightarrow> 't \<Rightarrow> (int + 'd) \<times> 't) \<Rightarrow>
   ('d \<Rightarrow> nat \<Rightarrow> 't \<Rightarrow> (int + nat) \<times> 't) \<Rightarrow> (nat \<Rightarrow> 't \<Rightarrow> 't) \<Rightarrow>
   'd fd_event \<Rightarrow> 't \<Rightarrow> ('d fd_answer \<times> 't) outcome" where
  "table_step opn cls onto lim (Open d) t = bind_outcome (opn d t) (\<lambda>(r, t). Ret (case_sum Errno Fd r, t))"
| "table_step opn cls onto lim (Close n) t = (case cls n t of (q, t) \<Rightarrow> Ret (case_sum Errno Closed q, t))"
| "table_step opn cls onto lim (DupOnto d n) t = (case onto d n t of (r, t) \<Rightarrow> Ret (case_sum Errno Fd r, t))"
| "table_step opn cls onto lim (Limit l) t = Ret (Resized, lim l t)"

fun table_run ::
  "('e \<Rightarrow> 't \<Rightarrow> ('a \<times> 't) outcome) \<Rightarrow> 'e list \<Rightarrow> 't \<Rightarrow> ('a list \<times> 't) outcome" where
  "table_run step [] t = Ret ([], t)"
| "table_run step (e # es) t =
     bind_outcome (step e t) (\<lambda>(a, t). bind_outcome (table_run step es t) (\<lambda>(as, t). Ret (a # as, t)))"

locale descriptor_table =
  fixes inv :: "'t \<Rightarrow> bool"
    and view :: "'t \<Rightarrow> 'd fd_spec"
    and bound :: nat
    and opn :: "'d \<Rightarrow> 't \<Rightarrow> ((int + nat) \<times> 't) outcome"
    and cls :: "nat \<Rightarrow> 't \<Rightarrow> (int + 'd) \<times> 't"
    and onto :: "'d \<Rightarrow> nat \<Rightarrow> 't \<Rightarrow> (int + nat) \<times> 't"
    and lim :: "nat \<Rightarrow> 't \<Rightarrow> 't"
  assumes opn_ok: "inv t \<Longrightarrow>
      \<exists>r t'. opn d t = Ret (r, t') \<and> inv t' \<and> spec_step (Open d) (view t) = (case_sum Errno Fd r, view t')"
    and cls_ok: "inv t \<Longrightarrow> cls n t = (q, t') \<Longrightarrow>
      inv t' \<and> spec_step (Close n) (view t) = (case_sum Errno Closed q, view t')"
    and onto_ok: "inv t \<Longrightarrow> onto d n t = (r, t') \<Longrightarrow>
      inv t' \<and> spec_step (DupOnto d n) (view t) = (case_sum Errno Fd r, view t')"
    and lim_ok: "inv t \<Longrightarrow> l \<le> bound \<Longrightarrow> inv (lim l t) \<and> spec_step (Limit l) (view t) = (Resized, view (lim l t))"
begin

lemma table_step_refines:
  assumes "inv t" "events_below bound [e]"
  shows "\<exists>a t'. table_step opn cls onto lim e t = Ret (a, t') \<and> inv t' \<and> spec_step e (view t) = (a, view t')"
proof (cases e)
  case (Open d) then show ?thesis using opn_ok [OF assms(1), of d] by auto
next
  case (Close n) then show ?thesis using cls_ok [OF assms(1), of n] by (cases "cls n t") auto
next
  case (DupOnto d n) then show ?thesis using onto_ok [OF assms(1), of d n] by (cases "onto d n t") auto
next
  case (Limit l) then show ?thesis using lim_ok [OF assms(1), of l] assms(2) by auto
qed

lemma table_run_refines:
  assumes "inv t" "events_below bound es"
  shows "\<exists>as t'. table_run (table_step opn cls onto lim) es t = Ret (as, t') \<and> inv t'
    \<and> spec_run es (view t) = (as, view t')"
  using assms
proof (induction es arbitrary: t)
  case (Cons e es)
  from Cons.prems have "events_below bound [e]" "events_below bound es" by simp_all
  with table_step_refines [OF Cons.prems(1), of e] obtain a t1 where 1:
    "table_step opn cls onto lim e t = Ret (a, t1)" "inv t1" "spec_step e (view t) = (a, view t1)" by blast
  from Cons.IH [OF 1(2) \<open>events_below bound es\<close>] obtain as t2 where
    "table_run (table_step opn cls onto lim) es t1 = Ret (as, t2)" "inv t2"
    "spec_run es (view t1) = (as, view t2)" by blast
  then show ?case using 1 by simp
qed simp

end

section \<open>The kernel's table implements it\<close>

definition fd_view :: "'f fd_table \<Rightarrow> 'f file_descriptor fd_spec" where
  "fd_view t = (\<lambda>n. if n < length (inner t) then inner t ! n else None, soft_limit t)"

text \<open>The recycled list holds exactly the free numbers below the length of the table.  Descriptor numbers
  are recycled as bytes, so the table must not grow beyond 256 entries.\<close>

definition fdt_inv :: "'f fd_table \<Rightarrow> bool" where
  "fdt_inv t \<longleftrightarrow> length (inner t) \<le> soft_limit t \<and> soft_limit t \<le> 256 \<and> distinct (recycled t)
     \<and> unat ` set (recycled t) = {n. n < length (inner t) \<and> inner t ! n = None}"

lemma iter_min_spec:
  "iter_min xs = (if xs = [] then None else Some (Min (set xs)))"
  by (cases xs) (simp_all add: Min.set_eq_fold [symmetric] del: Min_insert)

lemma unat_of_nat_u8: "n < 256 \<Longrightarrow> unat (of_nat n :: u8) = n"
  by (simp add: unsigned_of_nat take_bit_nat_eq_self)

lemma of_nat_u8_eq: "n < 256 \<Longrightarrow> (w :: u8) = of_nat n \<longleftrightarrow> unat w = n"
  by (auto simp: unat_of_nat_u8)

lemma gap_bytes:
  assumes "b \<le> 256"
  shows "(w :: u8) \<in> of_nat ` {a..<b} \<longleftrightarrow> a \<le> unat w \<and> unat w < b"
    and "inj_on (of_nat :: nat \<Rightarrow> u8) {a..<b}"
proof -
  show "w \<in> of_nat ` {a..<b} \<longleftrightarrow> a \<le> unat w \<and> unat w < b"
    using assms by (auto simp: image_iff of_nat_u8_eq unat_of_nat_u8)
  show "inj_on (of_nat :: nat \<Rightarrow> u8) {a..<b}"
    using assms by (intro inj_onI) (metis atLeastLessThan_iff order_less_le_trans unat_of_nat_u8)
qed

lemma unat_image_iff: "unat (w :: u8) \<in> unat ` set xs \<longleftrightarrow> w \<in> set xs"
  by (auto simp: word_unat_eq_iff [symmetric])

lemma fdt_inv_recycled:
  assumes "fdt_inv t"
  shows "fd \<in> set (recycled t) \<longleftrightarrow> unat fd < length (inner t) \<and> inner t ! unat fd = None"
  using assms unat_image_iff [of fd "recycled t"] by (simp add: fdt_inv_def)

lemma fdt_invI:
  assumes "length (inner t) \<le> soft_limit t" "soft_limit t \<le> 256" "distinct (recycled t)"
    and "\<And>fd. fd \<in> set (recycled t) \<longleftrightarrow> unat fd < length (inner t) \<and> inner t ! unat fd = None"
  shows "fdt_inv t"
  unfolding fdt_inv_def
proof (intro conjI assms set_eqI)
  fix n
  show "n \<in> unat ` set (recycled t) \<longleftrightarrow> n \<in> {n. n < length (inner t) \<and> inner t ! n = None}"
  proof (cases "n < 256")
    case True
    then have "n = unat (of_nat n :: u8)" by (simp add: unat_of_nat_u8)
    then show ?thesis using assms(4) [of "of_nat n"] unat_image_iff [of "of_nat n"] by simp
  next
    case False
    then have "n \<notin> unat ` set (recycled t)" using unsigned_less [where ?'a = nat and ?'b = 8] by fastforce
    then show ?thesis using False assms(1,2) by auto
  qed
qed

lemma find_lowest:
  assumes "n < l" "P n" "\<And>k. k < n \<Longrightarrow> \<not> P k"
  shows "find P [0..<l] = Some n"
  unfolding find_Some_iff using assms by (intro exI [of _ n]) auto

lemma fdt_insert_ok:
  assumes inv: "fdt_inv t"
  shows "\<exists>r t'. fdt_insert d t = Ret (r, t') \<and> fdt_inv t'
    \<and> spec_step (Open d) (fd_view t) = (case_sum Errno Fd r, fd_view t')"
proof (cases "recycled t = []")
  case True
  note full = fdt_inv_recycled [OF inv]
  have used: "k < length (inner t) \<Longrightarrow> inner t ! k \<noteq> None" for k
    using inv True by (auto simp: fdt_inv_def)
  show ?thesis
  proof (cases "length (inner t) = soft_limit t")
    case l: True
    have "find (\<lambda>n. (if n < length (inner t) then inner t ! n else None) = None) [0..<soft_limit t] = None"
      using used l by (auto simp: find_None_iff)
    then show ?thesis using inv True l by (simp add: fdt_insert_def find_min_def iter_min_spec fd_view_def)
  next
    case False
    then have "find (\<lambda>n. (if n < length (inner t) then inner t ! n else None) = None) [0..<soft_limit t]
        = Some (length (inner t))"
      using used inv by (intro find_lowest) (auto simp: fdt_inv_def)
    moreover have "fdt_inv (t\<lparr>inner := inner t @ [Some d]\<rparr>)"
      using inv True False used
      by (intro fdt_invI) (auto simp: fdt_inv_def nth_append less_Suc_eq)
    ultimately show ?thesis using True False
      by (auto simp: fdt_insert_def find_min_def iter_min_spec fd_view_def Let_def nth_append fun_eq_iff)
  qed
next
  case False
  define m where "m = Min (set (recycled t))"
  have m: "m \<in> set (recycled t)" "\<And>x. x \<in> set (recycled t) \<Longrightarrow> m \<le> x"
    using False by (simp_all add: m_def)
  then have mm: "unat m < length (inner t)" "inner t ! unat m = None"
    using fdt_inv_recycled [OF inv] by blast+
  have low: "inner t ! k \<noteq> None" if "k < unat m" for k
  proof
    assume "inner t ! k = None"
    moreover have "unat (of_nat k :: u8) = k"
      using that unsigned_less [of m, where ?'a = nat] by (intro unat_of_nat_u8) simp
    ultimately have "of_nat k \<in> set (recycled t)"
      using that mm fdt_inv_recycled [OF inv] by simp
    then show False using m(2) that \<open>unat (of_nat k :: u8) = k\<close> by (metis leD word_le_nat_alt)
  qed
  have "find (\<lambda>n. (if n < length (inner t) then inner t ! n else None) = None) [0..<soft_limit t] = Some (unat m)"
    using mm low inv by (intro find_lowest) (auto simp: fdt_inv_def)
  moreover have "fdt_inv (t\<lparr>recycled := remove1 m (recycled t), inner := (inner t)[unat m := Some d]\<rparr>)"
    using inv fdt_inv_recycled [OF inv] mm(1)
    by (intro fdt_invI) (auto simp: fdt_inv_def nth_list_update word_unat_eq_iff [symmetric])
  ultimately show ?thesis using False mm
    by (auto simp: fdt_insert_def find_min_def iter_min_spec fd_view_def m_def [symmetric] nth_list_update
        fun_eq_iff)
qed

lemma fdt_remove_ok:
  assumes inv: "fdt_inv t" and eq: "fdt_remove n t = (q, t')"
  shows "fdt_inv t' \<and> spec_step (Close n) (fd_view t) = (case_sum Errno Closed q, fd_view t')"
proof (cases "n < length (inner t) \<and> inner t ! n \<noteq> None")
  case False
  then show ?thesis using assms by (auto simp: fdt_remove_def fd_view_def split: if_splits)
next
  case True
  then obtain d where d: "inner t ! n = Some d" by auto
  have n: "n < 256" using True inv by (simp add: fdt_inv_def)
  have "fdt_inv (t\<lparr>inner := (inner t)[n := None], recycled := recycled t @ [of_nat n]\<rparr>)"
    using inv fdt_inv_recycled [OF inv] True of_nat_u8_eq [OF n] unat_of_nat_u8 [OF n]
    by (intro fdt_invI) (auto simp: fdt_inv_def nth_list_update)
  then show ?thesis using eq True d by (auto simp: fdt_remove_def fd_view_def nth_list_update)
qed

lemma insert_at_ok:
  assumes inv: "fdt_inv t" and eq: "insert_at d n t = (r, t')"
  shows "fdt_inv t' \<and> spec_step (DupOnto d n) (fd_view t) = (case_sum Errno Fd r, fd_view t')"
proof (cases "n < length (inner t)")
  case True
  let ?t = "t\<lparr>recycled := filter (\<lambda>fd. unat fd \<noteq> n) (recycled t), inner := (inner t)[n := Some d]\<rparr>"
  have n: "n < soft_limit t" using True inv by (simp add: fdt_inv_def)
  have "inner t ! n \<noteq> None \<Longrightarrow> filter (\<lambda>fd. unat fd \<noteq> n) (recycled t) = recycled t"
    using fdt_inv_recycled [OF inv] by (auto simp: filter_id_conv)
  then have "t' = ?t" "r = Inr n"
    using eq True by (auto simp: insert_at_def Let_def split: if_splits)
  moreover have "fdt_inv ?t"
    using inv fdt_inv_recycled [OF inv] True
    by (intro fdt_invI) (auto simp: fdt_inv_def nth_list_update)
  ultimately show ?thesis using True n by (auto simp: fd_view_def nth_list_update)
next
  case False
  show ?thesis
  proof (cases "n < soft_limit t")
    case l: True
    let ?t = "t\<lparr>recycled := recycled t @ map of_nat (rev [length (inner t)..<n]),
      inner := inner t @ replicate (n - length (inner t)) None @ [Some d]\<rparr>"
    have eqs: "t' = ?t" "r = Inr n" using eq False l by (auto simp: insert_at_def Let_def)
    moreover have "fdt_inv ?t"
      using inv False l gap_bytes [where b = n and a = "length (inner t)"] fdt_inv_recycled [OF inv]
      by (intro fdt_invI) (auto simp: fdt_inv_def distinct_map nth_append unat_of_nat_u8)
    ultimately show ?thesis using False l
      by (auto simp: fd_view_def nth_append fun_eq_iff)
  next
    case False
    with \<open>\<not> n < length (inner t)\<close> show ?thesis using inv eq by (auto simp: insert_at_def fd_view_def)
  qed
qed

lemma set_soft_limit_ok:
  assumes inv: "fdt_inv t" and l: "l \<le> 256"
  shows "fdt_inv (set_soft_limit l t)
    \<and> spec_step (Limit l) (fd_view t) = (Resized, fd_view (set_soft_limit l t))"
proof
  show "fdt_inv (set_soft_limit l t)"
    using assms fdt_inv_recycled [OF inv]
    by (intro fdt_invI) (auto simp: fdt_inv_def set_soft_limit_def Let_def)
  show "spec_step (Limit l) (fd_view t) = (Resized, fd_view (set_soft_limit l t))"
    by (auto simp: fd_view_def set_soft_limit_def Let_def restrict_map_def fun_eq_iff)
qed

interpretation fdt: descriptor_table fdt_inv fd_view 256 fdt_insert fdt_remove insert_at set_soft_limit
  by unfold_locales (rule fdt_insert_ok fdt_remove_ok insert_at_ok set_soft_limit_ok; assumption)+

lemma fdt_inv_new:
  assumes "length ds \<le> DEFAULT_FD_LIMIT" shows "fdt_inv (fdt_new (map Some ds))"
  using assms by (auto simp: fdt_inv_def fdt_new_def DEFAULT_FD_LIMIT_def)

section \<open>Properties\<close>

text \<open>(C5) The kernel's descriptor table refines the POSIX table: starting from a fresh table of open
  descriptors, any sequence of \<open>insert\<close>, \<open>remove\<close>, \<open>insert_at\<close> and \<open>set_soft_limit\<close> (with limits up to 256) runs
  without panicking, gives exactly the answers of the specification (the lowest free number for every
  open, \<open>EMFILE\<close> at the limit, \<open>EBADF\<close> for a number that is not open) and ends in a table that shows exactly
  the specified descriptors.\<close>

theorem fd_table_refines_posix:
  assumes "length ds \<le> DEFAULT_FD_LIMIT" "events_below 256 es"
  shows "\<exists>as t. table_run (table_step fdt_insert fdt_remove insert_at set_soft_limit) es (fdt_new (map Some ds))
      = Ret (as, t)
    \<and> spec_run es (\<lambda>n. if n < length ds then Some (ds ! n) else None, DEFAULT_FD_LIMIT) = (as, fd_view t)"
proof -
  have "fd_view (fdt_new (map Some ds)) = (\<lambda>n. if n < length ds then Some (ds ! n) else None, DEFAULT_FD_LIMIT)"
    by (auto simp: fd_view_def fdt_new_def fun_eq_iff)
  with fdt.table_run_refines [OF fdt_inv_new [OF assms(1)] assms(2)] show ?thesis by metis
qed

definition demo_fds :: "string file_descriptor list" where
  "demo_fds = [fd_new False False ''tty'', fd_new False False ''tty'', fd_new False False ''tty'']"

theorem fd_table_refines_posix_witness:
  "let es = [Open (fd_new True False ''a''), Close 1, Open (fd_new False False ''b''), Close 9]
   in \<exists>t. table_run (table_step fdt_insert fdt_remove insert_at set_soft_limit) es (fdt_new (map Some demo_fds))
        = Ret ([Fd 3, Closed (fd_new False False ''tty''), Fd 1, Errno EBADF], t)"
  using fd_table_refines_posix [of demo_fds
      "[Open (fd_new True False ''a''), Close 1, Open (fd_new False False ''b''), Close 9]"]
  by (auto simp: demo_fds_def DEFAULT_FD_LIMIT_def upt_rec [of _ 128] nth_Cons')

text \<open>\<open>try_insert_at\<close> (\<open>fcntl F_DUPFD\<close>) on a table whose recycled list is exact never panics and never
  replaces an open descriptor: it fails with \<open>EMFILE\<close> and changes nothing, or it returns a number at or above
  the hint that was free, and only that entry changes.\<close>

theorem try_insert_at_no_replace:
  assumes "fdt_inv t"
  shows "\<exists>r t'. try_insert_at d hint t = Ret (r, t')
    \<and> (case r of
         Inl e \<Rightarrow> e = EMFILE \<and> t' = t
       | Inr n \<Rightarrow> hint \<le> n \<and> fst (fd_view t) n = None \<and> fst (fd_view t') = (fst (fd_view t))(n \<mapsto> d))"
proof (cases "hint < length (inner t) \<and> hint < soft_limit t \<and> inner t ! hint \<noteq> None")
  case True
  then obtain d0 where d0: "inner t ! hint = Some d0" by auto
  show ?thesis
  proof (cases "find (\<lambda>fd. unat fd > hint) (recycled t)")
    case None
    then show ?thesis using True d0
      by (auto simp: try_insert_at_def Let_def fd_view_def nth_append fun_eq_iff)
  next
    case (Some fd)
    then have "fd \<in> set (recycled t)" "unat fd > hint" by (auto simp: find_Some_iff)
    then show ?thesis using True d0 Some fdt_inv_recycled [OF assms, of fd]
      by (auto simp: try_insert_at_def Let_def fd_view_def fun_eq_iff nth_list_update)
  qed
next
  case False
  then show ?thesis using assms
    by (auto simp: try_insert_at_def Let_def fd_view_def fun_eq_iff nth_list_update nth_append fdt_inv_def)
qed

theorem try_insert_at_no_replace_witness:
  "\<exists>r t'. try_insert_at (hd demo_fds) 1 (fdt_new (map Some demo_fds)) = Ret (r, t')
     \<and> (case r of Inl e \<Rightarrow> e = EMFILE
        | Inr n \<Rightarrow> 1 \<le> n \<and> fst (fd_view (fdt_new (map Some demo_fds))) n = None)"
  using try_insert_at_no_replace [OF fdt_inv_new [of demo_fds], of "hd demo_fds" 1]
  by (fastforce simp: demo_fds_def DEFAULT_FD_LIMIT_def split: sum.splits)


end
