(* ===== verification/Futex.thy ===== *)
theory Futex
  imports Task_Manager Fd_Table
begin

text \<open>
  Futexes of \<open>task/threads.rs\<close>: a map from the address of a futex word to the queue of tasks that wait on it.
  \<open>do_futex_wait\<close> is split at the point where the caller blocks; the futex word, its address and the current
  time are arguments.  The properties: waiting is first-in first-out per address, and requeuing moves waiters
  between two addresses without losing any, unless the two addresses are the same.
\<close>

section \<open>Definitions\<close>

definition EINTR :: int where "EINTR = - 4"
definition EAGAIN :: int where "EAGAIN = - 11"

datatype futex_cmd = CmdWait | CmdWake | CmdFd | CmdRequeue | CmdCmpRequeue | CmdWakeOp | CmdLockPi | CmdUnlockPi
  | CmdTrylockPi | CmdWaitBitset | CmdInvalid

definition futex_cmd_from_primitive :: "u32 \<Rightarrow> futex_cmd" where
  "futex_cmd_from_primitive n =
     (if n = 0 then CmdWait else if n = 1 then CmdWake else if n = 2 then CmdFd else if n = 3 then CmdRequeue
      else if n = 4 then CmdCmpRequeue else if n = 5 then CmdWakeOp else if n = 6 then CmdLockPi
      else if n = 7 then CmdUnlockPi else if n = 8 then CmdTrylockPi else if n = 9 then CmdWaitBitset else CmdInvalid)"

type_synonym futex = "(usize \<times> wait_queue) list"

definition futex_new :: futex where "futex_new = []"

text \<open>The first half of \<open>do_futex_wait\<close>: \<open>Inl\<close> is the result of a call that returns at once, \<open>Inr\<close> the state in
  which the caller blocks.\<close>

definition futex_wait_block ::
  "u32 \<Rightarrow> usize \<Rightarrow> u32 \<Rightarrow> time_spec option \<Rightarrow> time_spec \<Rightarrow> task_ref \<Rightarrow> futex \<times> timeout_waiter list \<Rightarrow>
   int + futex \<times> timeout_waiter list" where
  "futex_wait_block futex_word addr val timeout now task = (\<lambda>(fx, heap).
     let timeout = map_option (\<lambda>t. ts_add t now) timeout in
     if futex_word \<noteq> val then Inl EAGAIN
     else
       let (r, fx) = bt_remove addr fx;
           queue = (case r of Some q \<Rightarrow> q | None \<Rightarrow> wq_new);
           fx = bt_insert addr (wq_add_task task queue) fx
       in Inr (fx, case timeout of Some t \<Rightarrow> wait_with_timeout task t heap | None \<Rightarrow> heap))"

text \<open>The second half, after the task was woken: pending signals that are not blocked interrupt the call.\<close>

definition futex_wait_resume :: "u64 \<Rightarrow> u64 \<Rightarrow> int" where
  "futex_wait_resume sigpending sigmask = (if sigpending AND NOT sigmask \<noteq> 0 then EINTR else SUCCESS)"

definition futex_wake ::
  "(nat \<Rightarrow> nat \<Rightarrow> bool) \<Rightarrow> (task_ref \<Rightarrow> bool) \<Rightarrow> nat \<Rightarrow> usize \<Rightarrow> u32 \<Rightarrow> futex \<Rightarrow> sched_world \<Rightarrow>
   (int \<times> futex \<times> sched_world) option" where
  "futex_wake free alive cpu addr val fx w =
     (case bt_remove addr fx of
        (Some queue, fx) \<Rightarrow>
          map_option (\<lambda>(ret, queue, w).
              (int ret, if \<not> wq_is_empty queue then bt_insert addr queue fx else fx, w))
            (wake_at_most free alive cpu (unat val) queue w)
      | (None, _) \<Rightarrow> Some (0, fx, w))"

text \<open>The loop of \<open>requeue\<close>: move tasks until the first queue is empty or \<open>val2\<close> have been moved.\<close>

fun requeue_loop :: "nat \<Rightarrow> nat \<Rightarrow> task_ref list \<Rightarrow> wait_queue \<Rightarrow> nat \<times> task_ref list \<times> wait_queue" where
  "requeue_loop val2 cnt [] q2 = (cnt, [], q2)"
| "requeue_loop val2 cnt (t # ts) q2 =
     (let q2 = wq_add_task t q2 in if cnt + 1 = val2 then (cnt + 1, ts, q2) else requeue_loop val2 (cnt + 1) ts q2)"

definition futex_requeue_waiters :: "usize \<Rightarrow> usize \<Rightarrow> u32 \<Rightarrow> int \<Rightarrow> futex \<Rightarrow> int \<times> futex" where
  "futex_requeue_waiters addr addr2 val2 wake_cnt fx =
     (case bt_remove addr fx of
        (Some queue, fx) \<Rightarrow>
          let (r, fx) = bt_remove addr2 fx;
              queue2 = (case r of Some q \<Rightarrow> q | None \<Rightarrow> wq_new);
              (requeue_cnt, ts, queue2) =
                (if val2 \<noteq> 0 then requeue_loop (unat val2) 0 (wq_inner queue) queue2 else (0, wq_inner queue, queue2));
              queue = queue\<lparr>wq_inner := ts\<rparr>;
              fx = (if \<not> wq_is_empty queue then bt_insert addr queue fx else fx);
              fx = (if \<not> wq_is_empty queue2 then bt_insert addr2 queue2 fx else fx)
          in (wake_cnt + int requeue_cnt, fx)
      | (None, _) \<Rightarrow> (wake_cnt, fx))"

definition futex_requeue ::
  "(nat \<Rightarrow> nat \<Rightarrow> bool) \<Rightarrow> (task_ref \<Rightarrow> bool) \<Rightarrow> nat \<Rightarrow> usize \<Rightarrow> usize \<Rightarrow> u32 \<Rightarrow> u32 \<Rightarrow> futex \<Rightarrow> sched_world \<Rightarrow>
   (int \<times> futex \<times> sched_world) option" where
  "futex_requeue free alive cpu addr addr2 val val2 fx w =
     Option.bind (if val \<noteq> 0 then futex_wake free alive cpu addr val fx w else Some (0, fx, w))
       (\<lambda>(wake_cnt, fx, w). case futex_requeue_waiters addr addr2 val2 wake_cnt fx of (r, fx) \<Rightarrow> Some (r, fx, w))"

definition futex_clear :: "futex \<Rightarrow> futex" where "futex_clear fx = []"

section \<open>Lemmas\<close>

text \<open>What is visible of a futex table: the waiters of an address in order.\<close>

definition waiters :: "futex \<Rightarrow> usize \<Rightarrow> task_ref list" where
  "waiters fx a = (case map_of fx a of Some q \<Rightarrow> wq_inner q | None \<Rightarrow> [])"

lemma wq_inner_update: "q\<lparr>wq_inner := ts\<rparr> = \<lparr>wq_inner = ts\<rparr>" for q :: wait_queue
  by (cases q) simp

lemma waiters_insert: "waiters (bt_insert a q fx) = (waiters fx)(a := wq_inner q)"
  by (auto simp: waiters_def map_of_bt_insert fun_eq_iff)

lemma waiters_remove: "waiters (filter (\<lambda>(k, _). k \<noteq> a) fx) = (waiters fx)(a := [])"
  by (auto simp: waiters_def map_of_filter_neq fun_eq_iff)

lemma waiters_put_back:
  "waiters (if \<not> wq_is_empty q then bt_insert a q fx else fx) = (if wq_inner q = [] then waiters fx else (waiters fx)(a := wq_inner q))"
  by (simp add: wq_is_empty_def waiters_insert)

lemma requeue_loop_spec:
  "cnt < val2 \<Longrightarrow> requeue_loop val2 cnt ts q2 =
     (cnt + min (val2 - cnt) (length ts), drop (val2 - cnt) ts, q2\<lparr>wq_inner := wq_inner q2 @ take (val2 - cnt) ts\<rparr>)"
proof (induction val2 cnt ts q2 rule: requeue_loop.induct)
  case (2 val2 cnt t ts q2)
  show ?case
  proof (cases "cnt + 1 = val2")
    case True
    then have "val2 - cnt = 1" by simp
    then show ?thesis using True by (simp add: wq_add_task_def)
  next
    case False
    then have "val2 - cnt = Suc (val2 - (cnt + 1))" using "2.prems" by simp
    then show ?thesis using "2.IH" [OF refl False] "2.prems" False by (simp add: wq_add_task_def)
  qed
qed simp

text \<open>What \<open>requeue\<close> does to the waiters of two addresses.\<close>

lemma futex_requeue_waiters_spec:
  assumes "a \<noteq> b" "futex_requeue_waiters a b val2 c fx = (r, fx')"
  shows "waiters fx' = (waiters fx)(a := drop (unat val2) (waiters fx a),
           b := waiters fx b @ take (unat val2) (waiters fx a))
    \<and> r = c + int (min (unat val2) (length (waiters fx a)))"
proof (cases "map_of fx a")
  case None
  then show ?thesis using assms(2) by (auto simp: futex_requeue_waiters_def bt_remove_def waiters_def fun_eq_iff)
next
  case (Some q)
  let ?n = "unat val2" and ?q2 = "case map_of (filter (\<lambda>(k, _). k \<noteq> a) fx) b of Some q \<Rightarrow> q | None \<Rightarrow> wq_new"
  have wa: "waiters fx a = wq_inner q" using Some by (simp add: waiters_def)
  have m2: "map_of (filter (\<lambda>(k, _). k \<noteq> a) fx) b = map_of fx b" using assms(1) by (simp add: map_of_filter_neq)
  have wb: "wq_inner ?q2 = waiters fx b" unfolding m2 by (simp add: waiters_def wq_new_def split: option.split)
  have loop: "(if val2 \<noteq> 0 then requeue_loop ?n 0 (wq_inner q) ?q2 else (0, wq_inner q, ?q2))
      = (min ?n (length (wq_inner q)), drop ?n (wq_inner q), ?q2\<lparr>wq_inner := waiters fx b @ take ?n (wq_inner q)\<rparr>)"
    using requeue_loop_spec [of 0 ?n "wq_inner q" ?q2] wb by (cases "val2 = 0") (simp_all add: unat_gt_0)
  have "fx' = (let q' = q\<lparr>wq_inner := drop ?n (wq_inner q)\<rparr>;
          q2 = ?q2\<lparr>wq_inner := waiters fx b @ take ?n (wq_inner q)\<rparr>;
          f = filter (\<lambda>(k, _). k \<noteq> b) (filter (\<lambda>(k, _). k \<noteq> a) fx);
          f = (if \<not> wq_is_empty q' then bt_insert a q' f else f)
        in if \<not> wq_is_empty q2 then bt_insert b q2 f else f)
      \<and> r = c + int (min ?n (length (wq_inner q)))"
    using assms(2) by (simp add: futex_requeue_waiters_def bt_remove_def Let_def loop Some del: filter_filter)
  then show ?thesis using assms(1)
    by (simp add: Let_def waiters_put_back waiters_remove wa fun_eq_iff del: filter_filter) auto
qed

lemma futex_wait_block_spec:
  "futex_wait_block word addr val timeout now task (fx, heap) =
     (if word \<noteq> val then Inl EAGAIN
      else Inr (bt_insert addr \<lparr>wq_inner = waiters fx addr @ [task]\<rparr> (snd (bt_remove addr fx)),
                case timeout of Some t \<Rightarrow> wait_with_timeout task (ts_add t now) heap | None \<Rightarrow> heap))"
  by (auto simp: futex_wait_block_def bt_remove_def Let_def waiters_def wq_add_task_def wq_new_def
      wq_inner_update split: option.splits)

lemma futex_wake_spec:
  assumes "eventually_free free" "sw_managers w \<noteq> []" "distinct (waiters fx a)"
  shows "\<exists>taken n fx' w'. futex_wake free alive cpu a val fx w = Some (int n, fx', w')
    \<and> waiters fx a = taken @ waiters fx' a \<and> waiters fx' = (waiters fx)(a := waiters fx' a)
    \<and> n = length (filter (\<lambda>t. alive t \<and> tcb_status (sw_tasks w t) = Interruptible) taken)
    \<and> n \<le> unat val \<and> (n = unat val \<or> waiters fx' a = [])"
proof (cases "map_of fx a")
  case None
  then have "waiters fx a = []" by (simp add: waiters_def)
  then show ?thesis using None
    by (intro exI [of _ "[]"] exI [of _ 0] exI [of _ fx] exI [of _ w]) (simp add: futex_wake_def bt_remove_def fun_upd_idem)
next
  case (Some q)
  then have wa: "waiters fx a = wq_inner q" by (simp add: waiters_def)
  let ?c = "\<lambda>t. alive t \<and> tcb_status (sw_tasks w t) = Interruptible"
  from wake_at_most_total [OF assms(1,2), of q alive cpu "unat val"] assms(3) wa obtain taken n q' w' where
    r: "wake_at_most free alive cpu (unat val) q w = Some (n, q', w')" "wq_inner q = taken @ wq_inner q'"
      "n = length (filter ?c taken)" "n \<le> unat val" "n = unat val \<or> wq_inner q' = []" by auto
  let ?fx = "filter (\<lambda>(k, _). k \<noteq> a) fx"
  let ?fx' = "if \<not> wq_is_empty q' then bt_insert a q' ?fx else ?fx"
  have w': "waiters ?fx' = (waiters fx)(a := wq_inner q')"
    by (auto simp: waiters_put_back waiters_remove fun_eq_iff)
  have "futex_wake free alive cpu a val fx w = Some (int n, ?fx', w')"
    using Some r(1) by (simp add: futex_wake_def bt_remove_def)
  then show ?thesis using r wa w' by (intro exI [of _ taken] exI [of _ n] exI [of _ ?fx'] exI [of _ w']) simp
qed

section \<open>Properties\<close>


definition demo_futex :: futex where
  "demo_futex = [(0x1000, \<lparr>wq_inner = [4, 5, 6, 7]\<rparr>), (0x2000, \<lparr>wq_inner = [9]\<rparr>)]"


text \<open>Waiters of one futex word are woken in the order in which they blocked, each wait adds exactly the
  calling task at the back, and waking returns once the manager locks are free: blocking \<open>n\<close> distinct tasks that
  all stay interruptible and then waking \<open>k \<le> n\<close> of them leaves exactly the last \<open>n - k\<close>, in order.\<close>

theorem futex_wait_wake_fifo:
  assumes "eventually_free free" "sw_managers w \<noteq> []" "distinct ts" "unat k \<le> length ts"
    and "\<forall>t \<in> set ts. tcb_status (sw_tasks w t) = Interruptible"
  shows "\<exists>fx' w'. futex_wake free (\<lambda>_. True) cpu a k
        (fst (fold (\<lambda>t st. projr (futex_wait_block v a v None now t st)) ts (futex_new, heap))) w = Some (int (unat k), fx', w')
      \<and> waiters fx' a = drop (unat k) ts"
proof -
  have "waiters (fst (fold (\<lambda>t st. projr (futex_wait_block v a v None now t st)) ts st0)) a = waiters (fst st0) a @ ts" for st0
    by (induction ts arbitrary: st0) (auto simp: futex_wait_block_spec waiters_insert split: prod.splits)
  then have wa: "waiters (fst (fold (\<lambda>t st. projr (futex_wait_block v a v None now t st)) ts (futex_new, heap))) a = ts"
    by (simp add: futex_new_def waiters_def)
  let ?fx = "fst (fold (\<lambda>t st. projr (futex_wait_block v a v None now t st)) ts (futex_new, heap))"
  have "distinct (waiters ?fx a)" using wa assms(3) by simp
  from futex_wake_spec [OF assms(1,2) this, of "\<lambda>_. True" cpu k, unfolded wa] obtain taken n fx' w' where
    r: "futex_wake free (\<lambda>_. True) cpu a k ?fx w = Some (int n, fx', w')" "ts = taken @ waiters fx' a"
      "n = length (filter (\<lambda>t. True \<and> tcb_status (sw_tasks w t) = Interruptible) taken)" "n \<le> unat k"
      "n = unat k \<or> waiters fx' a = []" by blast
  have "filter (\<lambda>t. tcb_status (sw_tasks w t) = Interruptible) taken = taken"
    using r(2) assms(5) by (intro filter_True) auto
  then have n: "n = length taken" using r(3) by simp
  then have "n = unat k" using r(2,4,5) assms(4) by auto
  moreover have "waiters fx' a = drop n ts" using r(2) n by simp
  ultimately show ?thesis using r(1) by blast
qed

theorem futex_wait_wake_fifo_witness:
  "\<exists>fx' w'. futex_wake (\<lambda>_ _. True) (\<lambda>_. True) 0 0x1000 2
      (fst (fold (\<lambda>t st. projr (futex_wait_block 7 0x1000 7 None (TimeSpec 0 0) t st)) [5, 6, 7] (futex_new, []))) demo_world
    = Some (2, fx', w') \<and> waiters fx' 0x1000 = [7]"
proof -
  have "eventually_free (\<lambda>_ _. True)" "sw_managers demo_world \<noteq> []"
    "\<forall>t \<in> set [5, 6, 7]. tcb_status (sw_tasks demo_world t) = Interruptible"
    by (simp_all add: eventually_free_def demo_world_def MAX_CPU_NUM_def)
  then show ?thesis
    using futex_wait_wake_fifo [of "\<lambda>_ _. True" demo_world "[5, 6, 7]" 2 0 "0x1000" 7 "TimeSpec 0 0" "[]"] by simp
qed

text \<open>(C38) Requeuing a futex word onto itself drops waiters: when at least one is to be moved, only the first
  \<open>val2\<close> waiters are still queued afterwards, and the others are in no queue any more.\<close>

theorem futex_requeue_same_word_drops:
  "waiters (snd (futex_requeue_waiters a a val2 c fx)) a
     = (if val2 = 0 then waiters fx a else take (unat val2) (waiters fx a))"
proof (cases "map_of fx a")
  case None
  then show ?thesis by (simp add: futex_requeue_waiters_def bt_remove_def waiters_def)
next
  case (Some q)
  have m: "map_of (filter (\<lambda>(k, _). k \<noteq> a) fx) a = None" by (simp add: map_of_filter_neq)
  have wa: "waiters fx a = wq_inner q" using Some by (simp add: waiters_def)
  show ?thesis
  proof (cases "val2 = 0")
    case True
    then show ?thesis
      by (simp add: futex_requeue_waiters_def bt_remove_def Let_def Some m wa wq_new_def waiters_put_back
          waiters_remove wq_is_empty_def waiters_insert)
  next
    case False
    then have "0 < unat val2" by (simp add: unat_gt_0)
    note l = requeue_loop_spec [OF this, of "wq_inner q" wq_new]
    have "waiters (snd (futex_requeue_waiters a a val2 c fx)) a
        = (if take (unat val2) (wq_inner q) = [] then drop (unat val2) (wq_inner q) else take (unat val2) (wq_inner q))"
      using False by (simp add: futex_requeue_waiters_def bt_remove_def Let_def Some m l waiters_put_back
          waiters_remove del: filter_filter)
        (auto simp: wq_new_def wq_is_empty_def waiters_insert waiters_remove)
    then show ?thesis using False wa by (simp add: unat_eq_0)
  qed
qed

end
