(* ===== verification/Le_Bytes.thy ===== *)
theory Le_Bytes
  imports Prelude
begin

text \<open>
  The bytes of integers in memory, least significant first, as the signal frame and the reclaimed pages store them.
\<close>

primrec to_le :: "nat \<Rightarrow> u64 \<Rightarrow> u8 list" where
  "to_le 0 w = []"
| "to_le (Suc n) w = ucast w # to_le n (drop_bit 8 w)"

primrec of_le :: "u8 list \<Rightarrow> u64" where
  "of_le [] = 0"
| "of_le (b # bs) = ucast b OR push_bit 8 (of_le bs)"

definition dwords_le :: "u64 list \<Rightarrow> u8 list" where
  "dwords_le ws = concat (map (to_le 8) ws)"

primrec of_dwords_le :: "nat \<Rightarrow> u8 list \<Rightarrow> u64 list" where
  "of_dwords_le 0 bs = []"
| "of_dwords_le (Suc n) bs = of_le (take 8 bs) # of_dwords_le n (drop 8 bs)"

lemma length_to_le [simp]: "length (to_le n w) = n"
  by (induction n arbitrary: w) simp_all

lemma to_le_8_neq [simp]: "to_le 8 w \<noteq> []"
  by (simp add: eval_nat_numeral)

lemma of_le_to_le: "of_le (to_le n w) = take_bit (8 * n) w"
proof (induction n arbitrary: w)
  case (Suc n)
  show ?case
    unfolding to_le.simps of_le.simps Suc
    by (rule bit_eqI) (auto simp: bit_simps not_less)
qed simp

lemma of_le_8: "of_le (to_le 8 w) = w"
  by (simp add: of_le_to_le take_bit_word_eq_self)

lemma length_dwords_le [simp]: "length (dwords_le ws) = 8 * length ws"
  by (induction ws) (simp_all add: dwords_le_def)

lemma of_dwords_le: "of_dwords_le (length ws) (dwords_le ws) = ws"
proof (induction ws)
  case (Cons w ws)
  have "dwords_le (w # ws) = to_le 8 w @ dwords_le ws" by (simp add: dwords_le_def)
  then show ?case using Cons by (simp add: of_le_8)
qed simp

end
