(* ===== verification/Signal.thy ===== *)
theory Signal
  imports User_Access Futex Le_Bytes
begin

text \<open>
  Signals of \<open>task/signal.rs\<close>, with \<open>sys_sigreturn\<close> of \<open>syscall/process.rs\<close> and the register layout of
  \<open>hal/arch/riscv/trap/context.rs\<close>: signal sets as 64-bit words, \<open>sigaction\<close>, \<open>sigprocmask\<close>, delivery on the way
  back to user space and return from a handler.  The user stack is memory seen through \<open>User_Access\<close>.
\<close>

section \<open>Signal sets\<close>

type_synonym signals = u64

definition SIGILL :: signals where "SIGILL = push_bit 3 1"
definition SIGKILL :: signals where "SIGKILL = push_bit 8 1"
definition SIGSEGV :: signals where "SIGSEGV = push_bit 10 1"
definition SIGCHLD :: signals where "SIGCHLD = push_bit 16 1"
definition SIGCONT :: signals where "SIGCONT = push_bit 17 1"
definition SIGSTOP :: signals where "SIGSTOP = push_bit 18 1"
definition SIGTSTP :: signals where "SIGTSTP = push_bit 19 1"
definition SIGTTIN :: signals where "SIGTTIN = push_bit 20 1"
definition SIGTTOU :: signals where "SIGTTOU = push_bit 21 1"
definition SIGURG :: signals where "SIGURG = push_bit 22 1"
definition SIGWINCH :: signals where "SIGWINCH = push_bit 27 1"

lemmas signal_defs = SIGILL_def SIGKILL_def SIGSEGV_def SIGCHLD_def SIGCONT_def SIGSTOP_def SIGTSTP_def
  SIGTTIN_def SIGTTOU_def SIGURG_def SIGWINCH_def

text \<open>All 64 bits are declared, so \<open>from_bits_truncate\<close> keeps every bit.\<close>

definition CAN_NOT_BE_MASKED :: signals where
  "CAN_NOT_BE_MASKED = push_bit 3 1 OR push_bit 8 1 OR push_bit 10 1 OR push_bit 18 1"

definition from_signum :: "usize \<Rightarrow> unit + signals" where
  "from_signum signum =
     (if signum = 0 then Inr 0 else if 1 \<le> signum \<and> signum \<le> 64 then Inr (push_bit (unat (signum - 1)) 1) else Inl ())"

definition to_signum :: "signals \<Rightarrow> unit + usize" where
  "to_signum s = (if count_ones s = 1 then Inr (of_nat (trailing_zeros s) + 1) else Inl ())"

definition peek_front :: "signals \<Rightarrow> usize option" where
  "peek_front s = (if s = 0 then None else Some (of_nat (trailing_zeros s) + 1))"

section \<open>Actions\<close>

definition SA_SIGINFO :: usize where "SA_SIGINFO = 4"
definition SA_RESTART :: usize where "SA_RESTART = 0x10000000"
definition SA_NODEFER :: usize where "SA_NODEFER = 0x40000000"
definition SA_RESETHAND :: usize where "SA_RESETHAND = 0x80000000"
definition SA_RESTORER :: usize where "SA_RESTORER = 0x04000000"

abbreviation contains :: "usize \<Rightarrow> usize \<Rightarrow> bool" where
  "contains flags f \<equiv> flags AND f = f"

definition SIG_DFL :: usize where "SIG_DFL = 0"
definition SIG_IGN :: usize where "SIG_IGN = 1"

definition handler_addr :: "usize \<Rightarrow> usize option" where
  "handler_addr h = (if h = SIG_DFL \<or> h = SIG_IGN then None else Some h)"

record sig_action =
  sa_handler :: usize
  sa_flags :: usize
  sa_restorer :: usize
  sa_mask :: signals

definition sig_action_new :: sig_action where
  "sig_action_new = \<lparr>sa_handler = SIG_DFL, sa_flags = 0, sa_restorer = 0, sa_mask = 0\<rparr>"

definition sig_action_bytes :: "sig_action \<Rightarrow> u8 list" where
  "sig_action_bytes a = dwords_le [sa_handler a, sa_flags a, sa_restorer a, sa_mask a]"

definition sig_action_of :: "u8 list \<Rightarrow> sig_action" where
  "sig_action_of bs =
     (let ws = of_dwords_le 4 bs
      in \<lparr>sa_handler = ws ! 0, sa_flags = ws ! 1, sa_restorer = ws ! 2, sa_mask = ws ! 3\<rparr>)"

section \<open>Trap context\<close>

record general_regs =
  r_pc :: usize  r_ra :: usize  r_sp :: usize  r_gp :: usize  r_tp :: usize  r_t0 :: usize  r_t1 :: usize  r_t2 :: usize
  r_s0 :: usize  r_s1 :: usize  r_a0 :: usize  r_a1 :: usize  r_a2 :: usize  r_a3 :: usize  r_a4 :: usize  r_a5 :: usize
  r_a6 :: usize  r_a7 :: usize  r_s2 :: usize  r_s3 :: usize  r_s4 :: usize  r_s5 :: usize  r_s6 :: usize  r_s7 :: usize
  r_s8 :: usize  r_s9 :: usize  r_s10 :: usize  r_s11 :: usize  r_t3 :: usize  r_t4 :: usize  r_t5 :: usize  r_t6 :: usize

text \<open>The 4-byte \<open>fcsr\<close> and the 4 bytes of padding after it are one double word.\<close>

record float_regs =
  f_f :: "usize list"
  f_fcsr :: usize

record machine_context =
  mc_gp :: general_regs
  mc_fp :: float_regs

record trap_context =
  tc_mc :: machine_context
  tc_origin_a0 :: usize

definition gp_words :: "general_regs \<Rightarrow> u64 list" where
  "gp_words r = [r_pc r, r_ra r, r_sp r, r_gp r, r_tp r, r_t0 r, r_t1 r, r_t2 r, r_s0 r, r_s1 r, r_a0 r, r_a1 r, r_a2 r,
     r_a3 r, r_a4 r, r_a5 r, r_a6 r, r_a7 r, r_s2 r, r_s3 r, r_s4 r, r_s5 r, r_s6 r, r_s7 r, r_s8 r, r_s9 r, r_s10 r,
     r_s11 r, r_t3 r, r_t4 r, r_t5 r, r_t6 r]"

definition gp_of_words :: "u64 list \<Rightarrow> general_regs" where
  "gp_of_words w = \<lparr>r_pc = w ! 0, r_ra = w ! 1, r_sp = w ! 2, r_gp = w ! 3, r_tp = w ! 4, r_t0 = w ! 5, r_t1 = w ! 6,
     r_t2 = w ! 7, r_s0 = w ! 8, r_s1 = w ! 9, r_a0 = w ! 10, r_a1 = w ! 11, r_a2 = w ! 12, r_a3 = w ! 13, r_a4 = w ! 14,
     r_a5 = w ! 15, r_a6 = w ! 16, r_a7 = w ! 17, r_s2 = w ! 18, r_s3 = w ! 19, r_s4 = w ! 20, r_s5 = w ! 21,
     r_s6 = w ! 22, r_s7 = w ! 23, r_s8 = w ! 24, r_s9 = w ! 25, r_s10 = w ! 26, r_s11 = w ! 27, r_t3 = w ! 28,
     r_t4 = w ! 29, r_t5 = w ! 30, r_t6 = w ! 31\<rparr>"

definition mcontext_bytes :: "machine_context \<Rightarrow> u8 list" where
  "mcontext_bytes c = dwords_le (gp_words (mc_gp c) @ f_f (mc_fp c) @ [f_fcsr (mc_fp c)])"

definition mcontext_of :: "u8 list \<Rightarrow> machine_context" where
  "mcontext_of bs =
     (let ws = of_dwords_le 65 bs
      in \<lparr>mc_gp = gp_of_words ws, mc_fp = \<lparr>f_f = take 32 (drop 32 ws), f_fcsr = ws ! 64\<rparr>\<rparr>)"

section \<open>Changing actions and masks\<close>

text \<open>The signal state of a task, with the trap context that \<open>get_trap_cx\<close> gives access to.\<close>

record sig_task =
  sk_sigpending :: signals
  sk_sigmask :: signals
  sk_sighand :: "sig_action option list"
  sk_trap_cx :: trap_context
  sk_ustack_base :: usize

text \<open>The result of a system call with the task and the user memory after it; \<open>None\<close> is a copy that does not end.\<close>

type_synonym 's sig_result = "(int \<times> sig_task \<times> ('s \<times> memory)) outcome option"

definition return_with :: "int \<Rightarrow> sig_task \<Rightarrow> 's \<times> memory \<Rightarrow> 's sig_result" where
  "return_with r t us = Some (Ret (r, t, us))"

text \<open>Continuing after a copy to or from user memory.\<close>

definition after_copy ::
  "((int + 'a) \<times> ('s \<times> memory)) outcome option \<Rightarrow> ((int + 'a) \<Rightarrow> 's \<times> memory \<Rightarrow> 'b outcome option) \<Rightarrow> 'b outcome option" where
  "after_copy c k = (case c of None \<Rightarrow> None | Some Panic \<Rightarrow> Some Panic | Some (Ret (r, us)) \<Rightarrow> k r us)"

definition sigaction_set :: "'s mmu \<Rightarrow> nat \<Rightarrow> usize \<Rightarrow> sig_task \<Rightarrow> 's \<times> memory \<Rightarrow> 's sig_result" where
  "sigaction_set mmu i act t us =
     (if act \<noteq> 0 then
        after_copy (copy_from_user mmu act (sig_action_bytes sig_action_new) us) (\<lambda>r us. case r of
            Inl _ \<Rightarrow> return_with EFAULT t us
          | Inr bs \<Rightarrow>
              let sigact = sig_action_of bs;
                  sigact = sigact\<lparr>sa_mask := sa_mask sigact AND NOT CAN_NOT_BE_MASKED\<rparr>
              in if \<not> (sa_handler sigact = SIG_DFL \<or> sa_handler sigact = SIG_IGN)
                 then return_with SUCCESS (t\<lparr>sk_sighand := (sk_sighand t)[i := Some sigact]\<rparr>) us
                 else return_with SUCCESS (t\<lparr>sk_sighand := (sk_sighand t)[i := None]\<rparr>) us)
      else return_with SUCCESS t us)"

definition sigaction :: "'s mmu \<Rightarrow> usize \<Rightarrow> usize \<Rightarrow> usize \<Rightarrow> sig_task \<Rightarrow> 's \<times> memory \<Rightarrow> 's sig_result" where
  "sigaction mmu signum act oldact t us =
     (if signum = 0 \<or> signum = 9 \<or> signum = 19 \<or> 65 \<le> signum then return_with EINVAL t us
      else
        let i = unat (signum - 1) in
        if oldact \<noteq> 0 then
          after_copy
            (copy_to_user mmu (sig_action_bytes (case sk_sighand t ! i of Some a \<Rightarrow> a | None \<Rightarrow> sig_action_new)) oldact us)
            (\<lambda>r us. case r of Inl _ \<Rightarrow> return_with EFAULT t us | Inr _ \<Rightarrow> sigaction_set mmu i act t us)
        else sigaction_set mmu i act t us)"

text \<open>\<open>SigMaskHow::from_bits\<close> accepts 0 to 3; 3 is none of the three commands.\<close>

definition sigprocmask :: "'s mmu \<Rightarrow> u32 \<Rightarrow> usize \<Rightarrow> usize \<Rightarrow> sig_task \<Rightarrow> 's \<times> memory \<Rightarrow> int \<times> sig_task \<times> ('s \<times> memory)" where
  "sigprocmask mmu how set_ptr oldset t us =
     (let (e, us) = (if oldset \<noteq> 0 then
            (case translated_refmut mmu oldset us of
               (Inr pa, us) \<Rightarrow> (None, (fst us, mem_store pa (to_le 8 (sk_sigmask t)) (snd us)))
             | (Inl errno, us) \<Rightarrow> (Some errno, us))
          else (None, us))
      in case e of Some errno \<Rightarrow> (errno, t, us) | None \<Rightarrow>
        if set_ptr \<noteq> 0 then
          (case translated_ref mmu set_ptr us of
             (Inl errno, us) \<Rightarrow> (errno, t, us)
           | (Inr pa, us) \<Rightarrow>
               let signal_set = of_le (mem_read pa 8 (snd us));
                   mask = (if how = 0 then Some (sk_sigmask t OR signal_set)
                           else if how = 1 then Some (sk_sigmask t AND NOT signal_set)
                           else if how = 2 then Some signal_set
                           else None)
               in case mask of
                    Some m \<Rightarrow> (SUCCESS, t\<lparr>sk_sigmask := m AND NOT CAN_NOT_BE_MASKED\<rparr>, us)
                  | None \<Rightarrow> (EINVAL, t, us))
        else (SUCCESS, t, us))"

section \<open>Delivery\<close>

definition UCONTEXT_SIZE :: usize where "UCONTEXT_SIZE = 696"
definition SIGINFO_SIZE :: usize where "SIGINFO_SIZE = 128"
definition PADDING_SIZE :: usize where "PADDING_SIZE = 128"

definition signal_stack_new :: "usize \<Rightarrow> usize \<Rightarrow> u64 list" where
  "signal_stack_new sp sz = [sp, 2, sz]"

definition ucontext_bytes :: "usize \<Rightarrow> usize \<Rightarrow> signals \<Rightarrow> machine_context \<Rightarrow> u8 list" where
  "ucontext_bytes sig_sp sig_size sigmask mc =
     dwords_le ([0, 0] @ signal_stack_new sig_sp sig_size @ [sigmask]) @ replicate 128 0 @ mcontext_bytes mc"

definition siginfo_bytes :: "usize \<Rightarrow> usize \<Rightarrow> usize \<Rightarrow> u8 list" where
  "siginfo_bytes signo errno code = to_le 4 signo @ to_le 4 errno @ to_le 4 code @ replicate 116 0"

datatype signal_end = Resumed | Exit_current u32 | Exit_group u32 | Blocked

type_synonym 's signal_result = "(signal_end \<times> sig_task \<times> ('s \<times> memory)) outcome option"

abbreviation update_gp :: "(general_regs \<Rightarrow> general_regs) \<Rightarrow> sig_task \<Rightarrow> sig_task" where
  "update_gp f t \<equiv> t\<lparr>sk_trap_cx := sk_trap_cx t\<lparr>tc_mc := tc_mc (sk_trap_cx t)\<lparr>mc_gp := f (mc_gp (tc_mc (sk_trap_cx t)))\<rparr>\<rparr>\<rparr>"

abbreviation regs :: "sig_task \<Rightarrow> general_regs" where
  "regs t \<equiv> mc_gp (tc_mc (sk_trap_cx t))"

definition ERESTART :: int where "ERESTART = - 85"

definition restart_syscall :: "bool \<Rightarrow> sig_action \<Rightarrow> sig_task \<Rightarrow> sig_task" where
  "restart_syscall is_syscall act t =
     (if is_syscall \<and> r_a0 (regs t) = of_int ERESTART then
        if contains (sa_flags act) SA_RESTART
        then update_gp (\<lambda>g. g\<lparr>r_pc := r_pc g - 4, r_a0 := tc_origin_a0 (sk_trap_cx t)\<rparr>) t
        else update_gp (\<lambda>g. g\<lparr>r_a0 := of_int EINTR\<rparr>) t
      else t)"

definition ucontext_addr_of :: "usize \<Rightarrow> usize" where
  "ucontext_addr_of sp = (sp - UCONTEXT_SIZE) AND NOT 7"

definition siginfo_addr_of :: "usize \<Rightarrow> usize" where
  "siginfo_addr_of ucontext_addr = (ucontext_addr - SIGINFO_SIZE) AND NOT 7"

definition sigmask_addr_of :: "usize \<Rightarrow> usize" where
  "sigmask_addr_of ucontext_addr = ucontext_addr + 2 * 8 + 24"

definition mcontext_addr_of :: "usize \<Rightarrow> usize" where
  "mcontext_addr_of ucontext_addr = ucontext_addr + 2 * 8 + 24 + 8 + PADDING_SIZE"

text \<open>Pushing the frame: a full context and information for \<open>SA_SIGINFO\<close>, else only what the return needs, at the
  same places.  A failed copy is an \<open>unwrap\<close> that panics.\<close>

definition push_frame ::
  "'s mmu \<Rightarrow> sig_action \<Rightarrow> usize \<Rightarrow> usize \<Rightarrow> usize \<Rightarrow> usize \<Rightarrow> sig_task \<Rightarrow> 's \<times> memory \<Rightarrow> (sig_task \<times> ('s \<times> memory)) outcome option" where
  "push_frame mmu act signum ucontext_addr siginfo_addr sig_size t us =
     (if contains (sa_flags act) SA_SIGINFO then
        after_copy (copy_to_user mmu (ucontext_bytes siginfo_addr sig_size (sk_sigmask t) (tc_mc (sk_trap_cx t))) ucontext_addr us)
          (\<lambda>r us. case r of Inl _ \<Rightarrow> Some Panic | Inr _ \<Rightarrow>
            let t = update_gp (\<lambda>g. g\<lparr>r_a2 := ucontext_addr\<rparr>) t in
            after_copy (copy_to_user mmu (siginfo_bytes signum 0 0) siginfo_addr us)
              (\<lambda>r us. case r of Inl _ \<Rightarrow> Some Panic | Inr _ \<Rightarrow>
                Some (Ret (update_gp (\<lambda>g. g\<lparr>r_a1 := siginfo_addr\<rparr>) t, us))))
      else
        (case translated_refmut mmu (sigmask_addr_of ucontext_addr) us of
           (Inl _, us) \<Rightarrow> Some Panic
         | (Inr pa, us) \<Rightarrow>
             after_copy (copy_to_user mmu (mcontext_bytes (tc_mc (sk_trap_cx t))) (mcontext_addr_of ucontext_addr)
                 (fst us, mem_store pa (to_le 8 (sk_sigmask t)) (snd us)))
               (\<lambda>r us. case r of Inl _ \<Rightarrow> Some Panic | Inr _ \<Rightarrow> Some (Ret (t, us)))))"

text \<open>Running a user handler: the branch of \<open>do_signal\<close> for a registered action.\<close>

definition enter_handler :: "usize \<Rightarrow> signals \<Rightarrow> sig_action \<Rightarrow> usize \<Rightarrow> sig_task \<Rightarrow> sig_task outcome" where
  "enter_handler signum signal act sig_sp t =
     (case handler_addr (sa_handler act) of
        None \<Rightarrow> Panic
      | Some pc \<Rightarrow>
          let t = update_gp (\<lambda>g. g\<lparr>r_a0 := signum, r_sp := sig_sp,
                r_ra := (if contains (sa_flags act) SA_RESTORER then sa_restorer act else of_nat SIGNAL_TRAMPOLINE),
                r_pc := pc\<rparr>) t;
              t = t\<lparr>sk_sigmask := sk_sigmask t OR
                (if contains (sa_flags act) SA_NODEFER then sa_mask act AND NOT CAN_NOT_BE_MASKED
                 else (signal OR sa_mask act) AND NOT CAN_NOT_BE_MASKED)\<rparr>
          in Ret (if contains (sa_flags act) SA_RESETHAND
                  then t\<lparr>sk_sighand := (sk_sighand t)[unat (signum - 1) := None]\<rparr> else t))"

definition deliver :: "'s mmu \<Rightarrow> bool \<Rightarrow> usize \<Rightarrow> signals \<Rightarrow> sig_action \<Rightarrow> sig_task \<Rightarrow> 's \<times> memory \<Rightarrow> 's signal_result" where
  "deliver mmu is_syscall signum signal act t us =
     (let t = restart_syscall is_syscall act t;
          ucontext_addr = ucontext_addr_of (r_sp (regs t));
          sig_sp = siginfo_addr_of ucontext_addr;
          limit = sk_ustack_base t - of_nat USER_STACK_SIZE
      in if sig_sp < limit then Some (Ret (Exit_current 11, t, us))
         else map_option (\<lambda>r. bind_outcome r (\<lambda>(t, us).
                bind_outcome (enter_handler signum signal act sig_sp t) (\<lambda>t. Ret (Resumed, t, us))))
              (push_frame mmu act signum ucontext_addr sig_sp (sig_sp - limit) t us))"

text \<open>What happens to a signal without a handler.\<close>

datatype default_action = Terminate | Ignore | Stop

definition default_of :: "signals \<Rightarrow> default_action" where
  "default_of signal =
     (if signal = SIGILL \<or> signal = SIGSEGV then Terminate
      else if signal = SIGCHLD \<or> signal = SIGCONT \<or> signal = SIGURG \<or> signal = SIGWINCH then Ignore
      else if signal = SIGTSTP \<or> signal = SIGTTIN \<or> signal = SIGTTOU then Stop
      else Terminate)"

lemma count_ones_remove:
  assumes "bit w k"
  shows "count_ones (w AND NOT (push_bit k 1)) < count_ones (w :: 'a::len word)"
proof -
  have k: "k < LENGTH('a)" using assms bit_imp_le_length by blast
  have f: "length (filter (\<lambda>i. P i \<and> i \<noteq> k) xs) < length (filter P xs)" if "k \<in> set xs" "P k" for P :: "nat \<Rightarrow> bool" and xs
    using that
  proof (induction xs)
    case (Cons x xs)
    have "length (filter (\<lambda>i. P i \<and> i \<noteq> k) xs) \<le> length (filter P xs)"
      by (induction xs) auto
    then show ?case using Cons by auto
  qed simp
  have "filter (bit (w AND NOT (push_bit k 1))) [0..<LENGTH('a)] = filter (\<lambda>i. bit w i \<and> i \<noteq> k) [0..<LENGTH('a)]"
    using k by (intro filter_cong) (auto simp: bit_and_iff bit_not_iff bit_push_bit_1 simp del: push_bit_of_1)
  then show ?thesis using f [of "[0..<LENGTH('a)]" "bit w"] k assms by (simp add: count_ones_def)
qed

lemma peek_front_Some:
  assumes "peek_front s = Some n"
  shows "unat (n - 1) < 64" "bit s (unat (n - 1))" "\<And>j. j < unat (n - 1) \<Longrightarrow> \<not> bit s j" "n = of_nat (unat (n - 1)) + 1"
proof -
  have s: "s \<noteq> 0" "n = of_nat (trailing_zeros s) + 1" using assms by (auto simp: peek_front_def split: if_splits)
  note t = trailing_zeros_spec [OF s(1)]
  have u: "unat (n - 1) = trailing_zeros s" using t(1) s(2) by (simp add: unsigned_of_nat take_bit_nat_eq_self)
  show "unat (n - 1) < 64" "bit s (unat (n - 1))" "\<And>j. j < unat (n - 1) \<Longrightarrow> \<not> bit s j" "n = of_nat (unat (n - 1)) + 1"
    using t s(2) unfolding u by simp_all
qed

function do_signal :: "'s mmu \<Rightarrow> bool \<Rightarrow> sig_task \<Rightarrow> 's \<times> memory \<Rightarrow> 's signal_result" where
  "do_signal mmu is_syscall t us =
     (case peek_front (sk_sigpending t AND NOT (sk_sigmask t)) of
        None \<Rightarrow> Some (Ret (Resumed, t, us))
      | Some signum \<Rightarrow>
          let signal = push_bit (unat (signum - 1)) 1;
              t = t\<lparr>sk_sigpending := sk_sigpending t AND NOT signal\<rparr>
          in (case sk_sighand t ! unat (signum - 1) of
               Some act \<Rightarrow> deliver mmu is_syscall signum signal act t us
             | None \<Rightarrow>
                 (case default_of signal of
                    Terminate \<Rightarrow> Some (Ret (Exit_group (ucast signum), t, us))
                  | Ignore \<Rightarrow> do_signal mmu is_syscall t us
                  | Stop \<Rightarrow> Some (Ret (Blocked, t, us)))))"
  by pat_completeness auto

termination do_signal
  by (relation "measure (\<lambda>(_, _, t, _). count_ones (sk_sigpending t))")
    (auto dest!: peek_front_Some(2) simp: bit_and_iff count_ones_remove simp del: push_bit_of_1)

declare do_signal.simps [simp del]

definition sys_sigreturn :: "'s mmu \<Rightarrow> sig_task \<Rightarrow> 's \<times> memory \<Rightarrow> 's sig_result" where
  "sys_sigreturn mmu t us =
     (let ucontext_addr = (r_sp (regs t) + SIGINFO_SIZE + 7) AND NOT 7 in
      case translated_ref mmu (sigmask_addr_of ucontext_addr) us of
        (Inl _, us) \<Rightarrow> Some Panic
      | (Inr pa, us) \<Rightarrow>
          let t = t\<lparr>sk_sigmask := of_le (mem_read pa 8 (snd us))\<rparr> in
          after_copy (copy_from_user mmu (mcontext_addr_of ucontext_addr) (mcontext_bytes (tc_mc (sk_trap_cx t))) us)
            (\<lambda>r us. case r of
                Inl _ \<Rightarrow> Some Panic
              | Inr bs \<Rightarrow>
                  let t = t\<lparr>sk_trap_cx := sk_trap_cx t\<lparr>tc_mc := mcontext_of bs\<rparr>\<rparr>
                  in return_with (sint (r_a0 (regs t))) t us))"

text \<open>\<open>sigtimedwait\<close> after the task was woken.\<close>

definition sigtimedwait_resume ::
  "'s mmu \<Rightarrow> signals \<Rightarrow> usize \<Rightarrow> time_spec \<Rightarrow> time_spec \<Rightarrow> time_spec \<Rightarrow> sig_task \<Rightarrow> 's \<times> memory \<Rightarrow> 's sig_result" where
  "sigtimedwait_resume mmu wanted info start timeout now t us =
     (if sk_sigpending t \<noteq> 0 then
        (case peek_front (sk_sigpending t AND wanted) of
           Some signum \<Rightarrow>
             if info \<noteq> 0 then
               after_copy (copy_to_user mmu (siginfo_bytes signum 0 0) info us)
                 (\<lambda>r us. case r of Inl _ \<Rightarrow> return_with EFAULT t us | Inr _ \<Rightarrow> return_with (sint signum) t us)
             else return_with (sint signum) t us
         | None \<Rightarrow> return_with EINTR t us)
      else if ts_add start timeout \<le> now then return_with EAGAIN t us else Some Panic)"

section \<open>Lemmas\<close>

lemma gp_of_gp_words: "gp_of_words (gp_words r @ ws) = r"
  by (cases r) (simp add: gp_words_def gp_of_words_def)

lemma length_gp_words [simp]: "length (gp_words r) = 32"
  by (simp add: gp_words_def)

lemma mcontext_roundtrip:
  assumes "length (f_f (mc_fp c)) = 32"
  shows "mcontext_of (mcontext_bytes c) = c" "length (mcontext_bytes c) = 520"
proof -
  let ?ws = "gp_words (mc_gp c) @ f_f (mc_fp c) @ [f_fcsr (mc_fp c)]"
  have "of_dwords_le 65 (mcontext_bytes c) = ?ws"
    using of_dwords_le [of ?ws] assms by (simp add: mcontext_bytes_def)
  moreover have "take 32 (drop 32 ?ws) = f_f (mc_fp c)" "?ws ! 64 = f_fcsr (mc_fp c)"
    using assms by (simp_all add: nth_append)
  ultimately show "mcontext_of (mcontext_bytes c) = c"
    using gp_of_gp_words by (simp only: mcontext_of_def Let_def) simp
  show "length (mcontext_bytes c) = 520" using assms by (simp add: mcontext_bytes_def)
qed

text \<open>The places of the frame.\<close>

lemma unat_and_not_7: "unat (w AND NOT 7 :: u64) = unat w - unat w mod 8"
proof -
  have m: "(7 :: u64) = mask 3" by (simp add: mask_eq_exp_minus_1)
  have p: "w AND NOT 7 = push_bit 3 (drop_bit 3 w)"
    unfolding m by (rule bit_eqI) (auto simp: bit_simps)
  have "unat (w AND NOT 7) = take_bit 64 (push_bit 3 (drop_bit 3 (unat w)))"
    unfolding p unsigned_push_bit_eq unsigned_drop_bit_eq
    using unsigned_less [of w, where ?'a = nat] by (simp add: take_bit_nat_eq_self)
  then have "unat (w AND NOT 7) = take_bit 64 (unat w div 8 * 8)"
    by (simp add: push_bit_eq_mult drop_bit_eq_div)
  also have "unat w div 8 * 8 < 2 ^ 64"
    using unsigned_less [of w, where ?'a = nat] div_times_less_eq_dividend [of "unat w" 8] by simp
  then have "take_bit 64 (unat w div 8 * 8) = unat w div 8 * 8" by (simp add: take_bit_nat_eq_self)
  finally show ?thesis by (simp add: minus_mod_eq_div_mult)
qed

lemma frame_addrs:
  assumes "832 \<le> unat sp"
  shows "unat (ucontext_addr_of sp) + 696 \<le> unat sp" "unat (siginfo_addr_of (ucontext_addr_of sp)) + 128 = unat (ucontext_addr_of sp)"
    "unat (ucontext_addr_of sp) mod 8 = 0"
    "(siginfo_addr_of (ucontext_addr_of sp) + SIGINFO_SIZE + 7) AND NOT 7 = ucontext_addr_of sp"
proof -
  let ?u = "ucontext_addr_of sp" and ?i = "siginfo_addr_of (ucontext_addr_of sp)"
  have "unat (sp - 696) = unat sp - 696" using assms by (simp add: unat_sub word_le_nat_alt)
  then have u: "unat ?u = unat sp - 696 - (unat sp - 696) mod 8"
    unfolding ucontext_addr_of_def UCONTEXT_SIZE_def unat_and_not_7 by (simp only:)
  then show u1: "unat ?u + 696 \<le> unat sp" using assms by simp
  show u8: "unat ?u mod 8 = 0" unfolding u by (simp add: minus_mod_eq_div_mult)
  have "128 \<le> unat ?u" unfolding u using assms by (simp add: minus_mod_eq_div_mult)
  then have "unat (?u - 128) = unat ?u - 128" by (simp add: unat_sub word_le_nat_alt)
  moreover obtain k where k: "unat ?u = 8 * k" using u8 by (auto simp: mod_eq_0_iff_dvd elim: dvdE)
  then have "unat ?u - 128 = 8 * (k - 16)" by simp
  then have "(unat ?u - 128) mod 8 = 0" by simp
  ultimately show i: "unat ?i + 128 = unat ?u"
    using \<open>128 \<le> unat ?u\<close> unfolding siginfo_addr_of_def SIGINFO_SIZE_def unat_and_not_7 by simp
  have "unat (?i + of_nat 135) = unat ?i + 135"
    using i u1 unsigned_less [of sp, where ?'a = nat] by (intro unat_plus_of_nat) simp
  then have "unat (?i + 135) = unat ?u + 7" using i by simp
  then have "unat ((?i + SIGINFO_SIZE + 7) AND NOT 7) = unat ?u + 7 - (unat ?u + 7) mod 8"
    unfolding unat_and_not_7 SIGINFO_SIZE_def add.assoc by simp
  also have "\<dots> = unat ?u" unfolding k by simp
  finally show "(?i + SIGINFO_SIZE + 7) AND NOT 7 = ?u" by (simp add: word_unat_eq_iff)
qed

lemma restart_syscall_keeps [simp]:
  "r_sp (regs (restart_syscall sc act t)) = r_sp (regs t)" "sk_sigmask (restart_syscall sc act t) = sk_sigmask t"
  "sk_ustack_base (restart_syscall sc act t) = sk_ustack_base t" "mc_fp (tc_mc (sk_trap_cx (restart_syscall sc act t))) = mc_fp (tc_mc (sk_trap_cx t))"
  "sk_sigpending (restart_syscall sc act t) = sk_sigpending t" "sk_sighand (restart_syscall sc act t) = sk_sighand t"
  by (simp_all add: restart_syscall_def)

lemma one_page_8:
  assumes "unat a mod 8 = 0"
  shows "unat a mod PAGE_SIZE + 8 \<le> PAGE_SIZE"
proof -
  have "unat a mod PAGE_SIZE mod 8 = 0" using assms by (simp add: layout_defs mod_mod_cancel)
  then obtain k where k: "unat a mod PAGE_SIZE = 8 * k" by (auto simp: mod_eq_0_iff_dvd elim: dvdE)
  have "unat a mod PAGE_SIZE < PAGE_SIZE" by (simp add: layout_defs)
  then have "k < 512" unfolding k by (simp add: layout_defs)
  then show ?thesis unfolding k by (simp add: layout_defs)
qed

lemma sub_span:
  assumes "\<forall>x \<in> set (span a n). P x" "unat a \<le> unat b" "unat b + k \<le> unat a + n"
  shows "\<forall>x \<in> set (span b k). P x"
proof
  fix x assume "x \<in> set (span b k)"
  then obtain i where i: "i < k" "x = b + of_nat i" by (auto simp: span_def)
  have "b = a + of_nat (unat b - unat a)" using assms(2) by (simp add: of_nat_diff)
  then have "x = a + of_nat (unat b - unat a + i)" using i(2) by (simp add: add.assoc)
  moreover have "unat b - unat a + i < n" using assms(2,3) i(1) by linarith
  ultimately have "x \<in> set (span a n)" using nth_mem [of "unat b - unat a + i" "span a n"] by simp
  then show "P x" using assms(1) by blast
qed

lemma frame_offsets:
  assumes "unat u + 696 \<le> 2 ^ 39"
  shows "unat (sigmask_addr_of u) = unat u + 40" "unat (mcontext_addr_of u) = unat u + 176"
  using unat_plus_of_nat [of u 40] unat_plus_of_nat [of u 176] assms
  by (simp_all add: sigmask_addr_of_def mcontext_addr_of_def PADDING_SIZE_def add.assoc)

lemma ucontext_split:
  "ucontext_bytes sp sz sm mc
     = (dwords_le ([0, 0] @ signal_stack_new sp sz) @ to_le 8 sm) @ replicate 128 0 @ mcontext_bytes mc"
  "length (dwords_le ([0, 0] @ signal_stack_new sp sz)) = 40"
  by (simp_all add: ucontext_bytes_def dwords_le_def signal_stack_new_def)

lemma length_siginfo [simp]: "length (siginfo_bytes a b c) = 128"
  by (simp add: siginfo_bytes_def)

context private_memory
begin

text \<open>After pushing the frame the user stack holds the mask and the registers where the return looks for them.\<close>

lemma push_frame_holds:
  assumes "frames_distinct mmu s" "832 \<le> unat sp" "unat sp \<le> 2 ^ 39" "length (f_f (mc_fp (tc_mc (sk_trap_cx t)))) = 32"
    and map: "\<forall>x \<in> set (span (siginfo_addr_of (ucontext_addr_of sp)) (unat sp - unat (siginfo_addr_of (ucontext_addr_of sp)))).
      is_mapped mmu s x"
  obtains t' m' where
    "push_frame mmu act signum (ucontext_addr_of sp) (siginfo_addr_of (ucontext_addr_of sp)) sz t (s, m) = Some (Ret (t', (s, m')))"
    "holds mmu s m' (sigmask_addr_of (ucontext_addr_of sp)) (to_le 8 (sk_sigmask t))"
    "holds mmu s m' (mcontext_addr_of (ucontext_addr_of sp)) (mcontext_bytes (tc_mc (sk_trap_cx t)))"
    "sk_sigmask t' = sk_sigmask t"
proof -
  let ?u = "ucontext_addr_of sp" and ?i = "siginfo_addr_of (ucontext_addr_of sp)" and ?mc = "tc_mc (sk_trap_cx t)"
  note fa = frame_addrs [OF assms(2)] and mc = mcontext_roundtrip [OF assms(4)]
  have ulow: "unat ?u + 696 \<le> 2 ^ 39" using fa(1) assms(3) by linarith
  note fo = frame_offsets [OF ulow]
  have mapped: "\<forall>x \<in> set (span b k). is_mapped mmu s x" if "unat ?i \<le> unat b" "unat b + k \<le> unat sp" for b k
    using sub_span [OF map that(1)] that(2) fa by simp
  show thesis
  proof (cases "contains (sa_flags act) SA_SIGINFO")
    case True
    let ?uc = "ucontext_bytes ?i sz (sk_sigmask t) ?mc"
    have luc: "length ?uc = 696" using mc(2) ucontext_split(2) by (simp add: ucontext_split(1))
    then have uc: "?uc \<noteq> []" "unat ?u + length ?uc \<le> 2 ^ 39" "\<forall>x \<in> set (span ?u (length ?uc)). is_mapped mmu s x"
      using ulow mapped [of ?u 696] fa(1,2) by auto
    from copy_to_user_holds [OF assms(1) this, of m] obtain m1 where
      m1: "copy_to_user mmu ?uc ?u (s, m) = Some (Ret (Inr (), (s, m1)))" "holds mmu s m1 ?u ?uc" by blast
    have "siginfo_bytes signum 0 0 \<noteq> []" "unat ?i + length (siginfo_bytes signum 0 0) \<le> 2 ^ 39"
      "\<forall>x \<in> set (span ?i (length (siginfo_bytes signum 0 0))). is_mapped mmu s x"
      using ulow mapped [of ?i 128] fa(1,2) by (simp_all add: siginfo_bytes_def)
    note si = copy_to_user_holds [OF assms(1) this, of m1]
    have "unat ?i + length (siginfo_bytes signum 0 0) \<le> unat ?u" using fa(2) by simp
    with si uc(2) m1(2) obtain m2 where
      m2: "copy_to_user mmu (siginfo_bytes signum 0 0) ?i (s, m1) = Some (Ret (Inr (), (s, m2)))" "holds mmu s m2 ?u ?uc"
      by blast
    have h: "holds mmu s m2 (sigmask_addr_of ?u) (to_le 8 (sk_sigmask t))"
      "holds mmu s m2 (mcontext_addr_of ?u) (mcontext_bytes ?mc)"
      using m2(2) unfolding ucontext_split(1) holds_append
      by (simp_all add: ucontext_split(2) sigmask_addr_of_def mcontext_addr_of_def PADDING_SIZE_def add.assoc
          signal_stack_new_def)
    have "push_frame mmu act signum ?u ?i sz t (s, m)
        = Some (Ret (update_gp (\<lambda>g. g\<lparr>r_a1 := ?i\<rparr>) (update_gp (\<lambda>g. g\<lparr>r_a2 := ?u\<rparr>) t), (s, m2)))"
      using True m1(1) m2(1) by (simp add: push_frame_def after_copy_def Let_def)
    then show thesis by (rule that [OF _ h]) simp
  next
    case False
    let ?mb = "to_le 8 (sk_sigmask t)"
    have l8: "?mb \<noteq> []" "unat (sigmask_addr_of ?u) + length ?mb \<le> 2 ^ 39"
      "\<forall>x \<in> set (span (sigmask_addr_of ?u) (length ?mb)). is_mapped mmu s x"
      using fo(1) ulow mapped [of "sigmask_addr_of ?u" 8] fa(1,2) by simp_all
    obtain k where "unat ?u = 8 * k" using fa(3) by (auto simp: mod_eq_0_iff_dvd elim: dvdE)
    then have a8: "unat (sigmask_addr_of ?u) mod 8 = 0" unfolding fo(1) by simp
    have "addr_floor (sigmask_addr_of ?u) = addr_floor (sigmask_addr_of ?u + of_nat (length (to_le 8 (sk_sigmask t))) - 1)"
      using one_page_iff [of 8 "sigmask_addr_of ?u"] one_page_8 [OF a8] fo(1) ulow by (simp add: layout_defs)
    then have direct: "copy_to_user mmu (to_le 8 (sk_sigmask t)) (sigmask_addr_of ?u) us
        = write_direct (translated_refmut mmu (sigmask_addr_of ?u) us) (to_le 8 (sk_sigmask t))" for us
      by (simp add: copy_to_user_def Let_def)
    from copy_to_user_holds [OF assms(1) l8, of m] obtain m1 where
      m1: "copy_to_user mmu (to_le 8 (sk_sigmask t)) (sigmask_addr_of ?u) (s, m) = Some (Ret (Inr (), (s, m1)))"
        "holds mmu s m1 (sigmask_addr_of ?u) (to_le 8 (sk_sigmask t))"
      by blast
    obtain r us where ru: "translated_refmut mmu (sigmask_addr_of ?u) (s, m) = (r, us)" by (rule prod.exhaust)
    then obtain pa where pa: "translated_refmut mmu (sigmask_addr_of ?u) (s, m) = (Inr pa, us)"
      "(fst us, mem_store pa (to_le 8 (sk_sigmask t)) (snd us)) = (s, m1)"
      using m1(1) unfolding direct by (cases r) (simp_all add: write_direct_def)
    have ne: "mcontext_bytes ?mc \<noteq> []" "unat (mcontext_addr_of ?u) + length (mcontext_bytes ?mc) \<le> 2 ^ 39"
      "\<forall>x \<in> set (span (mcontext_addr_of ?u) (length (mcontext_bytes ?mc))). is_mapped mmu s x"
      using fo(2) ulow mapped [of "mcontext_addr_of ?u" 520] fa(1,2) mc(2) by (auto simp del: length_0_conv)
    have "unat (sigmask_addr_of ?u) + length ?mb \<le> unat (mcontext_addr_of ?u)" using fo by simp
    with copy_to_user_holds [OF assms(1) ne, of m1] l8(2) m1(2) obtain m2 where
      m2: "copy_to_user mmu (mcontext_bytes ?mc) (mcontext_addr_of ?u) (s, m1) = Some (Ret (Inr (), (s, m2)))"
        "holds mmu s m2 (mcontext_addr_of ?u) (mcontext_bytes ?mc)"
        "holds mmu s m2 (sigmask_addr_of ?u) ?mb" by blast
    show thesis
      by (rule that [OF _ m2(3) m2(2)])
        (use False pa m2(1) in \<open>simp_all add: push_frame_def after_copy_def\<close>)
  qed
qed

lemma sigreturn_holds:
  assumes "(r_sp (regs t) + SIGINFO_SIZE + 7) AND NOT 7 = u" "unat u mod 8 = 0" "unat u + 696 \<le> 2 ^ 39"
    and "holds mmu s m (sigmask_addr_of u) (to_le 8 sm)" "holds mmu s m (mcontext_addr_of u) (mcontext_bytes mc)"
    and "length (f_f (mc_fp mc)) = 32" "length (f_f (mc_fp (tc_mc (sk_trap_cx t)))) = 32"
  shows "sys_sigreturn mmu t (s, m) = Some (Ret (sint (r_a0 (mc_gp mc)),
      t\<lparr>sk_sigmask := sm, sk_trap_cx := sk_trap_cx t\<lparr>tc_mc := mc\<rparr>\<rparr>, (s, m)))"
proof -
  note fo = frame_offsets [OF assms(3)] and mc = mcontext_roundtrip [OF assms(6)] and l = mcontext_roundtrip(2) [OF assms(7)]
  obtain k where "unat u = 8 * k" using assms(2) by (auto simp: mod_eq_0_iff_dvd elim: dvdE)
  then have "unat (sigmask_addr_of u) mod 8 = 0" unfolding fo(1) by simp
  then have "unat (sigmask_addr_of u) mod PAGE_SIZE + length (to_le 8 sm) \<le> PAGE_SIZE" using one_page_8 by simp
  then obtain pa where pa: "translated_ref mmu (sigmask_addr_of u) (s, m) = (Inr pa, (s, m))" "mem_read pa 8 m = to_le 8 sm"
    using translated_ref_holds [OF assms(4) to_le_8_neq] by auto
  have "mcontext_bytes mc \<noteq> []" "unat (mcontext_addr_of u) + length (mcontext_bytes mc) \<le> 2 ^ 39"
    using mc(2) fo(2) assms(3) by auto
  from copy_from_user_holds [OF assms(5) this, of "mcontext_bytes (tc_mc (sk_trap_cx t))"] mc(2) l
  have "copy_from_user mmu (mcontext_addr_of u) (mcontext_bytes (tc_mc (sk_trap_cx t))) (s, m)
      = Some (Ret (Inr (mcontext_bytes mc), (s, m)))" by simp
  then show ?thesis using pa mc(1) unfolding sys_sigreturn_def assms(1)
    by (simp add: Let_def after_copy_def return_with_def of_le_8)
qed

lemma deliver_sigreturn:
  assumes "frames_distinct mmu s" "832 \<le> unat (r_sp (regs t))" "unat (r_sp (regs t)) \<le> 2 ^ 39"
    and "length (f_f (mc_fp (tc_mc (sk_trap_cx t)))) = 32" "handler_addr (sa_handler act) = Some h"
    and "sk_ustack_base t - of_nat USER_STACK_SIZE \<le> siginfo_addr_of (ucontext_addr_of (r_sp (regs t)))"
    and "\<forall>x \<in> set (span (siginfo_addr_of (ucontext_addr_of (r_sp (regs t))))
          (unat (r_sp (regs t)) - unat (siginfo_addr_of (ucontext_addr_of (r_sp (regs t)))))). is_mapped mmu s x"
  shows "\<exists>t' m'. deliver mmu sc signum signal act t (s, m) = Some (Ret (Resumed, t', (s, m')))
    \<and> r_pc (regs t') = h \<and> r_a0 (regs t') = signum
    \<and> (\<forall>t''. r_sp (regs t'') = r_sp (regs t') \<and> length (f_f (mc_fp (tc_mc (sk_trap_cx t'')))) = 32 \<longrightarrow>
        sys_sigreturn mmu t'' (s, m') = Some (Ret (sint (r_a0 (regs (restart_syscall sc act t))),
          t''\<lparr>sk_sigmask := sk_sigmask t, sk_trap_cx := sk_trap_cx t''\<lparr>tc_mc := tc_mc (sk_trap_cx (restart_syscall sc act t))\<rparr>\<rparr>, (s, m'))))"
proof -
  let ?t = "restart_syscall sc act t" and ?sp = "r_sp (regs t)"
  let ?u = "ucontext_addr_of ?sp"
  note fa = frame_addrs [OF assms(2)]
  have len: "length (f_f (mc_fp (tc_mc (sk_trap_cx ?t)))) = 32" using assms(4) by simp
  from push_frame_holds [OF assms(1-3) len assms(7), of act signum "siginfo_addr_of ?u - (sk_ustack_base t - of_nat USER_STACK_SIZE)" m]
  obtain t1 m' where pf: "push_frame mmu act signum ?u (siginfo_addr_of ?u)
        (siginfo_addr_of ?u - (sk_ustack_base t - of_nat USER_STACK_SIZE)) ?t (s, m) = Some (Ret (t1, (s, m')))"
      "holds mmu s m' (sigmask_addr_of ?u) (to_le 8 (sk_sigmask ?t))"
      "holds mmu s m' (mcontext_addr_of ?u) (mcontext_bytes (tc_mc (sk_trap_cx ?t)))" by blast
  obtain t' where eh: "enter_handler signum signal act (siginfo_addr_of ?u) t1 = Ret t'" "r_sp (regs t') = siginfo_addr_of ?u"
      "r_pc (regs t') = h" "r_a0 (regs t') = signum"
    using assms(5) by (auto simp: enter_handler_def Let_def)
  have "\<not> siginfo_addr_of ?u < sk_ustack_base t - of_nat USER_STACK_SIZE" using assms(6) by (simp only: not_less)
  then have "deliver mmu sc signum signal act t (s, m) = Some (Ret (Resumed, t', (s, m')))"
    using pf(1) eh(1) by (simp only: deliver_def Let_def restart_syscall_keeps if_False option.map bind_outcome.simps prod.case)
  moreover have "sys_sigreturn mmu t'' (s, m') = Some (Ret (sint (r_a0 (regs ?t)),
      t''\<lparr>sk_sigmask := sk_sigmask t, sk_trap_cx := sk_trap_cx t''\<lparr>tc_mc := tc_mc (sk_trap_cx ?t)\<rparr>\<rparr>, (s, m')))"
    if "r_sp (regs t'') = r_sp (regs t')" "length (f_f (mc_fp (tc_mc (sk_trap_cx t'')))) = 32" for t''
  proof -
    have "(r_sp (regs t'') + SIGINFO_SIZE + 7) AND NOT 7 = ?u" using that(1) eh(2) fa(4) by (simp only:)
    moreover have "unat ?u + 696 \<le> 2 ^ 39" using fa(1) assms(3) by linarith
    ultimately show ?thesis using sigreturn_holds [OF _ fa(3) _ pf(2,3) len that(2)] by simp
  qed
  ultimately show ?thesis using eh(3,4) by blast
qed

end

text \<open>The signal state is well formed: an action for each of the 64 signals, none for \<open>SIGKILL\<close> and \<open>SIGSTOP\<close>, every
  action with a handler that can be entered, and nothing unmaskable in a mask.\<close>

definition sig_ok :: "sig_task \<Rightarrow> bool" where
  "sig_ok t \<longleftrightarrow> length (sk_sighand t) = 64 \<and> sk_sighand t ! 8 = None \<and> sk_sighand t ! 18 = None
     \<and> sk_sigmask t AND CAN_NOT_BE_MASKED = 0
     \<and> (\<forall>a. Some a \<in> set (sk_sighand t) \<longrightarrow> handler_addr (sa_handler a) \<noteq> None \<and> sa_mask a AND CAN_NOT_BE_MASKED = 0)"

lemma and_not_and: "(a AND NOT c) AND c = (0 :: u64)"
  by (rule bit_eqI) (simp add: bit_simps)

lemma or_and_not_and: "a AND c = 0 \<Longrightarrow> (a OR (b AND NOT c)) AND c = (0 :: u64)"
  by (simp add: bit_eq_iff bit_simps) blast

lemma sig_ok_update:
  assumes "sig_ok t" "i < 64"
    and "case a of None \<Rightarrow> True
      | Some b \<Rightarrow> i \<noteq> 8 \<and> i \<noteq> 18 \<and> handler_addr (sa_handler b) \<noteq> None \<and> sa_mask b AND CAN_NOT_BE_MASKED = 0"
  shows "sig_ok (t\<lparr>sk_sighand := (sk_sighand t)[i := a]\<rparr>)"
proof -
  have "x = a \<or> x \<in> set (sk_sighand t)" if "x \<in> set ((sk_sighand t)[i := a])" for x
    using that set_update_subset_insert [of "sk_sighand t" i a] by blast
  then show ?thesis using assms unfolding sig_ok_def by (auto simp: nth_list_update split: option.splits)
qed

lemma sigaction_set_ok:
  assumes "sigaction_set mmu i act t us = Some (Ret (r, t', us'))" "sig_ok t" "i < 64" "i \<noteq> 8" "i \<noteq> 18"
  shows "sig_ok t'"
  using assms sig_ok_update [OF assms(2,3)]
  by (auto simp: sigaction_set_def after_copy_def return_with_def Let_def handler_addr_def and_not_and
      split: if_splits option.splits outcome.splits sum.splits)

lemma sigaction_ok:
  assumes "sigaction mmu signum act oldact t us = Some (Ret (r, t', us'))" "sig_ok t"
  shows "sig_ok t'"
proof (cases "signum = 0 \<or> signum = 9 \<or> signum = 19 \<or> 65 \<le> signum")
  case True
  then show ?thesis using assms by (auto simp: sigaction_def return_with_def)
next
  case False
  let ?i = "unat (signum - 1)"
  have "unat signum \<noteq> 0" "unat signum \<noteq> 9" "unat signum \<noteq> 19" "unat signum < 65"
    using False by (auto simp: word_le_nat_alt word_unat_eq_iff)
  moreover have "?i = unat signum - 1" using False by (simp add: unat_minus_one)
  ultimately have "?i < 64" "?i \<noteq> 8" "?i \<noteq> 18" by linarith+
  note set_ok = sigaction_set_ok [OF _ assms(2) this]
  show ?thesis
    using assms False by (auto simp: sigaction_def Let_def after_copy_def return_with_def
        split: if_splits option.splits outcome.splits sum.splits intro: set_ok)
qed

lemma sigprocmask_ok:
  assumes "sig_ok t"
  shows "sig_ok (fst (snd (sigprocmask mmu how set_ptr oldset t us)))"
  using assms and_not_and
  by (auto simp: sigprocmask_def Let_def sig_ok_def split: prod.splits option.splits sum.splits if_splits)

lemma push_frame_keeps:
  assumes "push_frame mmu act signum u i sz t us = Some (Ret (t', us'))"
  shows "sk_sighand t' = sk_sighand t" "sk_sigmask t' = sk_sigmask t" "sk_sigpending t' = sk_sigpending t"
  using assms by (auto simp: push_frame_def after_copy_def Let_def
      split: if_splits option.splits outcome.splits sum.splits prod.splits)

lemma deliver_ok:
  assumes "deliver mmu sc signum signal act t us = Some (Ret (e, t', us'))" "sig_ok t" "unat (signum - 1) < 64"
  shows "sig_ok t'" "sk_sigpending t' = sk_sigpending t"
proof -
  let ?t = "restart_syscall sc act t"
  have ok: "sig_ok ?t" using assms(2) by (simp add: sig_ok_def)
  have "sig_ok t' \<and> sk_sigpending t' = sk_sigpending t"
  proof (cases "e = Resumed")
    case False
    then show ?thesis using assms(1) ok
      by (auto simp: deliver_def Let_def bind_outcome_Ret_iff split: if_splits)
  next
    case True
    then obtain t1 us1 i where pf: "push_frame mmu act signum (ucontext_addr_of (r_sp (regs t))) i
          (i - (sk_ustack_base t - of_nat USER_STACK_SIZE)) ?t us = Some (Ret (t1, us1))"
        and eh: "enter_handler signum signal act i t1 = Ret t'"
      using assms(1) by (auto simp: deliver_def Let_def bind_outcome_Ret_iff split: if_splits)
    note k = push_frame_keeps [OF pf]
    have ok1: "sig_ok t1" using ok k by (simp add: sig_ok_def)
    let ?m = "sk_sigmask t1 OR (if contains (sa_flags act) SA_NODEFER then sa_mask act AND NOT CAN_NOT_BE_MASKED
        else (signal OR sa_mask act) AND NOT CAN_NOT_BE_MASKED)"
    have m: "?m AND CAN_NOT_BE_MASKED = 0" using ok1 or_and_not_and by (simp add: sig_ok_def)
    have t': "sk_sigmask t' = ?m" "sk_sigpending t' = sk_sigpending t1"
      "sk_sighand t' = (if contains (sa_flags act) SA_RESETHAND then (sk_sighand t1)[unat (signum - 1) := None] else sk_sighand t1)"
      using eh by (auto simp: enter_handler_def Let_def split: option.splits)
    have "sig_ok (t1\<lparr>sk_sighand := (sk_sighand t1)[unat (signum - 1) := None]\<rparr>)"
      using sig_ok_update [OF ok1 assms(3), of None] by simp
    then show ?thesis using ok1 m t' k by (simp add: sig_ok_def)
  qed
  then show "sig_ok t'" "sk_sigpending t' = sk_sigpending t" by blast+
qed

lemma do_signal_ok:
  assumes "do_signal mmu sc t us = Some (Ret (e, t', us'))" "sig_ok t"
  shows "sig_ok t' \<and> sk_sigpending t' AND sk_sigmask t = sk_sigpending t AND sk_sigmask t"
  using assms
proof (induction mmu sc t us rule: do_signal.induct)
  case (1 mmu sc t us)
  show ?case
  proof (cases "peek_front (sk_sigpending t AND NOT (sk_sigmask t))")
    case None
    then show ?thesis using "1.prems" by (simp add: do_signal.simps)
  next
    case (Some n)
    let ?s = "push_bit (unat (n - 1)) 1 :: signals"
    let ?t = "t\<lparr>sk_sigpending := sk_sigpending t AND NOT ?s\<rparr>"
    note pk = peek_front_Some [OF Some]
    have ok: "sig_ok ?t" using "1.prems"(2) by (simp add: sig_ok_def)
    have "\<not> bit (sk_sigmask t) (unat (n - 1))" using pk(1,2) by (simp add: bit_and_iff bit_not_iff)
    then have keep: "(sk_sigpending t AND NOT ?s) AND sk_sigmask t = sk_sigpending t AND sk_sigmask t"
      using pk(1) by (intro bit_eqI) (auto simp: bit_and_iff bit_not_iff bit_push_bit_1 simp del: push_bit_of_1)
    note r = "1.prems"(1) [unfolded do_signal.simps [of mmu sc t] Some option.case Let_def]
    show ?thesis
    proof (cases "sk_sighand ?t ! unat (n - 1)")
      case (Some act)
      then have "deliver mmu sc n ?s act ?t us = Some (Ret (e, t', us'))" using r by simp
      from deliver_ok [OF this ok pk(1)] keep show ?thesis by simp
    next
      case none: None
      show ?thesis
      proof (cases "default_of ?s")
        case Ignore
        then have "do_signal mmu sc ?t us = Some (Ret (e, t', us'))" using r none by simp
        from "1.IH" [OF Some refl refl none Ignore this ok] keep show ?thesis by simp
      qed (use r none ok keep in \<open>auto simp del: push_bit_of_1\<close>)
    qed
  qed
qed

section \<open>Properties\<close>

text \<open>(C8) Delivering a signal to a handler on a mapped user stack enters the handler with the signal number, and
  \<open>sigreturn\<close>, called with the stack pointer the handler started with and the frame untouched, restores every
  general and floating-point register and the signal mask of the interrupted program (with the restart of an
  interrupted system call applied), for actions with and without \<open>SA_SIGINFO\<close>.\<close>

theorem signal_delivery_returns:
  assumes "private_memory mmu" "frames_distinct mmu s" "832 \<le> unat (r_sp (regs t))" "unat (r_sp (regs t)) \<le> 2 ^ 39"
    and "length (f_f (mc_fp (tc_mc (sk_trap_cx t)))) = 32" "handler_addr (sa_handler act) = Some h"
    and "sk_ustack_base t - of_nat USER_STACK_SIZE \<le> siginfo_addr_of (ucontext_addr_of (r_sp (regs t)))"
    and "\<forall>x \<in> set (span (siginfo_addr_of (ucontext_addr_of (r_sp (regs t))))
          (unat (r_sp (regs t)) - unat (siginfo_addr_of (ucontext_addr_of (r_sp (regs t)))))). is_mapped mmu s x"
  shows "\<exists>t' m'. deliver mmu sc signum signal act t (s, m) = Some (Ret (Resumed, t', (s, m')))
    \<and> r_pc (regs t') = h \<and> r_a0 (regs t') = signum
    \<and> (\<forall>t''. r_sp (regs t'') = r_sp (regs t') \<and> length (f_f (mc_fp (tc_mc (sk_trap_cx t'')))) = 32 \<longrightarrow>
        sys_sigreturn mmu t'' (s, m') = Some (Ret (sint (r_a0 (regs (restart_syscall sc act t))),
          t''\<lparr>sk_sigmask := sk_sigmask t, sk_trap_cx := sk_trap_cx t''\<lparr>tc_mc := tc_mc (sk_trap_cx (restart_syscall sc act t))\<rparr>\<rparr>, (s, m'))))"
  using private_memory.deliver_sigreturn [OF assms] .

definition demo_sig_task :: sig_task where
  "demo_sig_task = \<lparr>sk_sigpending = push_bit 9 1, sk_sigmask = push_bit 13 1, sk_sighand = replicate 64 None,
     sk_trap_cx = \<lparr>tc_mc = \<lparr>mc_gp = (gp_of_words (replicate 32 5))\<lparr>r_sp := 0x11800\<rparr>,
         mc_fp = \<lparr>f_f = replicate 32 0, f_fcsr = 0\<rparr>\<rparr>, tc_origin_a0 = 0\<rparr>,
     sk_ustack_base = 0x40000\<rparr>"

definition demo_action :: sig_action where
  "demo_action = \<lparr>sa_handler = 0x5000, sa_flags = SA_SIGINFO, sa_restorer = 0, sa_mask = 0\<rparr>"

theorem signal_delivery_returns_witness:
  "\<exists>t' m' t'' r t3. deliver demo_mmu False 10 (push_bit 9 1) demo_action demo_sig_task ((), \<lambda>_. 0) = Some (Ret (Resumed, t', ((), m')))
     \<and> r_pc (regs t') = 0x5000 \<and> r_sp (regs t'') = r_sp (regs t')
     \<and> sys_sigreturn demo_mmu t'' ((), m') = Some (Ret (r, t3, ((), m'))) \<and> regs t3 = regs demo_sig_task
     \<and> sk_sigmask t3 = sk_sigmask demo_sig_task"
proof -
  let ?t = demo_sig_task and ?i = "siginfo_addr_of (ucontext_addr_of 0x11800)"
  have sp: "r_sp (regs ?t) = 0x11800" "length (f_f (mc_fp (tc_mc (sk_trap_cx ?t)))) = 32" by (simp_all add: demo_sig_task_def)
  have "unat (ucontext_addr_of 0x11800) = 0x11548"
    unfolding ucontext_addr_of_def UCONTEXT_SIZE_def unat_and_not_7 by simp
  then have i: "unat ?i = 0x114c8" using frame_addrs(2) [of "0x11800"] by simp
  then have f: "mmu_translate demo_mmu () (addr_floor ?i) = Some 0x80350"
    by (simp add: addr_floor_nat layout_defs demo_mmu_def)
  have m: "\<forall>x \<in> set (span ?i (unat (0x11800 :: usize) - unat ?i)). is_mapped demo_mmu () x"
    by (rule phys_page_span(2) [OF f]) (simp add: i layout_defs)
  have h: "handler_addr (sa_handler demo_action) = Some 0x5000"
    by (simp add: demo_action_def handler_addr_def SIG_DFL_def SIG_IGN_def)
  have l: "sk_ustack_base ?t - of_nat USER_STACK_SIZE \<le> ?i" by (simp add: demo_sig_task_def layout_defs)
  from signal_delivery_returns [OF demo_mmu_private demo_mmu_distinct, of ?t demo_action "0x5000" False 10 "push_bit 9 1" "\<lambda>_. 0",
      unfolded sp(1), OF _ _ sp(2) h l m]
  obtain t' m' where d: "deliver demo_mmu False 10 (push_bit 9 1) demo_action ?t ((), \<lambda>_. 0) = Some (Ret (Resumed, t', ((), m')))"
      "r_pc (regs t') = 0x5000"
      "\<forall>t''. r_sp (regs t'') = r_sp (regs t') \<and> length (f_f (mc_fp (tc_mc (sk_trap_cx t'')))) = 32 \<longrightarrow>
        sys_sigreturn demo_mmu t'' ((), m') = Some (Ret (sint (r_a0 (regs (restart_syscall False demo_action ?t))),
          t''\<lparr>sk_sigmask := sk_sigmask ?t, sk_trap_cx := sk_trap_cx t''\<lparr>tc_mc := tc_mc (sk_trap_cx (restart_syscall False demo_action ?t))\<rparr>\<rparr>, ((), m')))"
    by (auto simp del: push_bit_of_1)
  let ?t'' = "update_gp (\<lambda>g. g\<lparr>r_sp := r_sp (regs t')\<rparr>) ?t"
  have "r_sp (regs ?t'') = r_sp (regs t')" "length (f_f (mc_fp (tc_mc (sk_trap_cx ?t'')))) = 32" using sp(2) by simp_all
  moreover have "restart_syscall False demo_action ?t = ?t" by (simp add: restart_syscall_def)
  ultimately show ?thesis using d
    by (intro exI [of _ t'] exI [of _ m'] exI [of _ ?t'']) (simp del: push_bit_of_1)
qed

text \<open>(C19) The signal state stays well formed: after \<open>sigaction\<close>, \<open>sigprocmask\<close> and the delivery of signals every
  signal has a slot, \<open>SIGKILL\<close> and \<open>SIGSTOP\<close> have no handler, every stored handler can be entered, and no unmaskable
  signal is blocked; delivery also leaves every blocked signal pending.\<close>

theorem signal_state_well_formed:
  assumes "sig_ok t"
  shows "(\<forall>r t' us'. sigaction mmu signum act oldact t us = Some (Ret (r, t', us')) \<longrightarrow> sig_ok t')
    \<and> sig_ok (fst (snd (sigprocmask mmu how set_ptr oldset t us)))
    \<and> (\<forall>e t' us'. do_signal mmu sc t us = Some (Ret (e, t', us')) \<longrightarrow>
         sig_ok t' \<and> sk_sigpending t' AND sk_sigmask t = sk_sigpending t AND sk_sigmask t)"
  using sigaction_ok [OF _ assms] sigprocmask_ok [OF assms] do_signal_ok [OF _ assms] by blast

lemma demo_sig_task_ok: "sig_ok demo_sig_task"
  by (simp add: sig_ok_def demo_sig_task_def CAN_NOT_BE_MASKED_def)

theorem signal_state_well_formed_witness:
  "sig_ok (fst (snd (sigprocmask demo_mmu 2 0x10000 0 demo_sig_task ((), \<lambda>_. 0xff))))
   \<and> fst (sigprocmask demo_mmu 2 0x10000 0 demo_sig_task ((), \<lambda>_. 0xff)) = SUCCESS"
  using signal_state_well_formed [OF demo_sig_task_ok, of demo_mmu 0 0 0 "((), \<lambda>_. 0xff)" 2 "0x10000" 0 False]
  by (simp add: sigprocmask_def translated_ref_def addr_or_fault_def demo_mmu_def addr_floor_def layout_defs)





text \<open>(C40) \<open>sigreturn\<close> installs whatever mask it finds on the user stack, without removing the unmaskable signals: a
  program that writes all ones there blocks even \<open>SIGKILL\<close>.\<close>

theorem sigreturn_blocks_sigkill:
  assumes "private_memory mmu" "(r_sp (regs t) + SIGINFO_SIZE + 7) AND NOT 7 = u" "unat u mod 8 = 0" "unat u + 696 \<le> 2 ^ 39"
    and "holds mmu s m (sigmask_addr_of u) (to_le 8 (- 1))" "holds mmu s m (mcontext_addr_of u) (mcontext_bytes mc)"
    and "length (f_f (mc_fp mc)) = 32" "length (f_f (mc_fp (tc_mc (sk_trap_cx t)))) = 32"
  shows "\<exists>r t'. sys_sigreturn mmu t (s, m) = Some (Ret (r, t', (s, m))) \<and> \<not> sig_ok t'
    \<and> do_signal mmu sc t' (s, m) = Some (Ret (Resumed, t', (s, m)))"
proof -
  let ?t' = "t\<lparr>sk_sigmask := - 1, sk_trap_cx := sk_trap_cx t\<lparr>tc_mc := mc\<rparr>\<rparr>"
  have "- 1 AND CAN_NOT_BE_MASKED \<noteq> 0" by (simp add: CAN_NOT_BE_MASKED_def)
  then have "\<not> sig_ok ?t'" by (simp add: sig_ok_def)
  moreover have "do_signal mmu sc ?t' (s, m) = Some (Ret (Resumed, ?t', (s, m)))"
    by (simp add: do_signal.simps peek_front_def)
  ultimately show ?thesis using private_memory.sigreturn_holds [OF assms] by blast
qed

lemma holds_const:
  assumes "mmu_translate mmu s (addr_floor a) = Some p" "unat a mod PAGE_SIZE + length bs \<le> PAGE_SIZE" "set bs \<subseteq> {b}"
  shows "holds mmu s (\<lambda>_. b) a bs"
proof -
  have "is_mapped mmu s (a + of_nat i) \<and> b = bs ! i" if "i < length bs" for i
    using phys_page_span(2) [OF assms(1,2)] subsetD [OF assms(3) nth_mem [OF that]] that by (auto simp: span_def)
  then show ?thesis by (simp add: holds_def)
qed

lemma ones_le: "set (to_le 8 (- 1)) \<subseteq> {0xff}"
proof -
  have "to_le n w = replicate n (- 1)" if "\<forall>i < 8 * n. bit w i" for n and w :: u64
    using that
  proof (induction n arbitrary: w)
    case (Suc n)
    have "(ucast w :: u8) = - 1" by (rule bit_word_eqI) (use Suc.prems in \<open>simp add: bit_simps\<close>)
    moreover have "\<forall>i < 8 * n. bit (drop_bit 8 w) i" using Suc.prems by (simp add: bit_simps)
    ultimately show ?case using Suc.IH by simp
  qed simp
  from this [of 8 "- 1"] show ?thesis by simp
qed

theorem sigreturn_blocks_sigkill_witness:
  "\<exists>r t'. sys_sigreturn demo_mmu (demo_sig_task\<lparr>sk_sigpending := SIGKILL\<rparr>) ((), \<lambda>_. 0xff) = Some (Ret (r, t', ((), \<lambda>_. 0xff)))
     \<and> do_signal demo_mmu False t' ((), \<lambda>_. 0xff) = Some (Ret (Resumed, t', ((), \<lambda>_. 0xff)))"
proof -
  let ?t = "demo_sig_task\<lparr>sk_sigpending := SIGKILL\<rparr>" and ?u = "(0x11887 :: usize) AND NOT 7"
  let ?mc = "\<lparr>mc_gp = gp_of_words (replicate 32 (- 1)), mc_fp = \<lparr>f_f = replicate 32 (- 1), f_fcsr = - 1\<rparr>\<rparr>"
  have u: "unat ?u = 0x11880" unfolding unat_and_not_7 by simp
  have fo: "unat (sigmask_addr_of ?u) = 0x118a8" "unat (mcontext_addr_of ?u) = 0x11930"
    using frame_offsets [of ?u] u by simp_all
  have f: "mmu_translate demo_mmu () (addr_floor (sigmask_addr_of ?u)) = Some 0x80350"
    "mmu_translate demo_mmu () (addr_floor (mcontext_addr_of ?u)) = Some 0x80350"
    using fo by (simp_all add: addr_floor_nat layout_defs demo_mmu_def)
  have "set (gp_words (mc_gp ?mc)) = {- 1}" by (simp add: gp_words_def gp_of_words_def)
  then have s: "set (mcontext_bytes ?mc) \<subseteq> {0xff}" using ones_le by (auto simp: mcontext_bytes_def dwords_le_def)
  have h: "holds demo_mmu () (\<lambda>_. 0xff) (sigmask_addr_of ?u) (to_le 8 (- 1))"
    "holds demo_mmu () (\<lambda>_. 0xff) (mcontext_addr_of ?u) (mcontext_bytes ?mc)"
    using mcontext_roundtrip(2) [of ?mc] fo
    by (intro holds_const [OF f(1) _ ones_le] holds_const [OF f(2) _ s]; simp add: layout_defs)+
  have r: "(r_sp (regs ?t) + SIGINFO_SIZE + 7) AND NOT 7 = ?u" by (simp add: demo_sig_task_def SIGINFO_SIZE_def)
  have l: "length (f_f (mc_fp ?mc)) = 32" "length (f_f (mc_fp (tc_mc (sk_trap_cx ?t)))) = 32"
    by (simp_all add: demo_sig_task_def)
  have a: "unat ?u mod 8 = 0" "unat ?u + 696 \<le> 2 ^ 39" unfolding u by simp_all
  show ?thesis using sigreturn_blocks_sigkill [OF demo_mmu_private r a h l, of False] by (elim exE conjE) (intro exI conjI)
qed

end
