(* ===== verification/Map_Area.thy ===== *)
theory Map_Area
  imports Page_Table
begin

text \<open>
  \<open>mm/map_area.rs\<close>: the frames of a virtual memory area (\<open>Frame\<close>, \<open>LinearMap\<close>) and the area itself (\<open>MapArea\<close>)
  with mapping, unmapping, resizing, splitting, copy-on-write and reclaim.  The code is generic in the page table and
  uses the global frame allocator, compressed memory and swap space; here these are the record \<open>'w vm\<close> of
  operations on a world \<open>'w\<close>.  A frame is held by reference-counted trackers, so releasing one is an operation of the
  world too.
\<close>

section \<open>The page table and the devices below\<close>

datatype memory_error = BadAddress | AreaNotFound | AlreadyMapped | NotMapped | NoPermission | NotInMemory | NotCompressed
  | NotSwappedOut | AlreadyAllocated | SharedPage | ZramIsFull | SwapIsFull | BeyondEOF

datatype frame = is_InMemory: InMemory phys_page_num | is_Compressed: Compressed nat | is_SwappedOut: SwappedOut nat | Unallocated

text \<open>\<open>vm_drop\<close> drops the tracker a frame holds (nothing for \<open>Unallocated\<close>); \<open>vm_clone\<close> clones it.\<close>

record 'w vm =
  vm_is_mapped :: "'w \<Rightarrow> virt_page_num \<Rightarrow> bool"
  vm_map :: "virt_page_num \<Rightarrow> phys_page_num \<Rightarrow> map_permission \<Rightarrow> 'w \<Rightarrow> 'w outcome"
  vm_unmap :: "virt_page_num \<Rightarrow> 'w \<Rightarrow> 'w outcome"
  vm_set_pte_flags :: "virt_page_num \<Rightarrow> map_permission \<Rightarrow> 'w \<Rightarrow> (unit + unit) \<times> 'w"
  vm_block_and_ret_mut :: "virt_page_num \<Rightarrow> 'w \<Rightarrow> phys_page_num option \<times> 'w"
  vm_frame_alloc :: "'w \<Rightarrow> (phys_page_num option \<times> 'w) outcome"
  vm_frame_alloc_uninit :: "'w \<Rightarrow> (phys_page_num option \<times> 'w) outcome"
  vm_drop :: "frame \<Rightarrow> 'w \<Rightarrow> 'w outcome"
  vm_clone :: "frame \<Rightarrow> 'w \<Rightarrow> 'w"
  vm_strong_count :: "'w \<Rightarrow> phys_page_num \<Rightarrow> nat"
  vm_copy_page :: "phys_page_num \<Rightarrow> phys_page_num \<Rightarrow> 'w \<Rightarrow> 'w"
  vm_zram_write :: "phys_page_num \<Rightarrow> 'w \<Rightarrow> ((unit + nat) \<times> 'w) outcome"
  vm_zram_read :: "nat \<Rightarrow> phys_page_num \<Rightarrow> 'w \<Rightarrow> 'w outcome"
  vm_swap_write :: "phys_page_num \<Rightarrow> 'w \<Rightarrow> (nat \<times> 'w) outcome"
  vm_swap_read :: "nat \<Rightarrow> phys_page_num \<Rightarrow> 'w \<Rightarrow> 'w outcome"

primrec drop_all :: "'w vm \<Rightarrow> frame list \<Rightarrow> 'w \<Rightarrow> 'w outcome" where
  "drop_all vm [] w = Ret w"
| "drop_all vm (f # fs) w = bind_outcome (vm_drop vm f w) (drop_all vm fs)"

definition unwrap_frame :: "phys_page_num option \<times> 'w \<Rightarrow> (phys_page_num \<times> 'w) outcome" where
  "unwrap_frame r = (case r of (Some ppn, w) \<Rightarrow> Ret (ppn, w) | (None, w) \<Rightarrow> Panic)"

section \<open>Frames\<close>

definition insert_in_memory :: "phys_page_num \<Rightarrow> frame \<Rightarrow> memory_error + frame" where
  "insert_in_memory tracker f = (case f of Unallocated \<Rightarrow> Inr (InMemory tracker) | _ \<Rightarrow> Inl AlreadyAllocated)"

definition take_in_memory :: "frame \<Rightarrow> phys_page_num option \<times> frame" where
  "take_in_memory f = (case f of InMemory tracker \<Rightarrow> (Some tracker, Unallocated) | _ \<Rightarrow> (None, f))"

definition swap_out :: "'w vm \<Rightarrow> frame \<Rightarrow> 'w \<Rightarrow> ((memory_error + nat) \<times> frame \<times> 'w) outcome" where
  "swap_out vm f w =
     (case f of
        InMemory p \<Rightarrow>
          if vm_strong_count vm w p = 1 then
            bind_outcome (vm_swap_write vm p w) (\<lambda>(swap_id, w).
              bind_outcome (vm_drop vm f w) (\<lambda>w. Ret (Inr swap_id, SwappedOut swap_id, w)))
          else Ret (Inl SharedPage, f, w)
      | _ \<Rightarrow> Ret (Inl NotInMemory, f, w))"

definition force_swap_out :: "'w vm \<Rightarrow> frame \<Rightarrow> 'w \<Rightarrow> ((memory_error + nat) \<times> frame \<times> 'w) outcome" where
  "force_swap_out vm f w =
     (case f of
        InMemory p \<Rightarrow>
          bind_outcome (vm_swap_write vm p w) (\<lambda>(swap_id, w).
            bind_outcome (vm_drop vm f w) (\<lambda>w. Ret (Inr swap_id, SwappedOut swap_id, w)))
      | _ \<Rightarrow> Ret (Inl NotInMemory, f, w))"

definition swap_in :: "'w vm \<Rightarrow> frame \<Rightarrow> 'w \<Rightarrow> ((memory_error + phys_page_num) \<times> frame \<times> 'w) outcome" where
  "swap_in vm f w =
     (case f of
        SwappedOut swap_id \<Rightarrow>
          bind_outcome (bind_outcome (vm_frame_alloc vm w) unwrap_frame) (\<lambda>(ppn, w).
            bind_outcome (vm_swap_read vm swap_id ppn w) (\<lambda>w.
              bind_outcome (vm_drop vm f w) (\<lambda>w. Ret (Inr ppn, InMemory ppn, w))))
      | _ \<Rightarrow> Ret (Inl NotSwappedOut, f, w))"

definition zip_frame :: "'w vm \<Rightarrow> frame \<Rightarrow> 'w \<Rightarrow> ((memory_error + nat) \<times> frame \<times> 'w) outcome" where
  "zip_frame vm f w =
     (case f of
        InMemory p \<Rightarrow>
          if vm_strong_count vm w p = 1 then
            bind_outcome (vm_zram_write vm p w) (\<lambda>(r, w).
              case r of
                Inr zram_id \<Rightarrow> bind_outcome (vm_drop vm f w) (\<lambda>w. Ret (Inr zram_id, Compressed zram_id, w))
              | Inl _ \<Rightarrow> Ret (Inl ZramIsFull, f, w))
          else Ret (Inl SharedPage, f, w)
      | _ \<Rightarrow> Ret (Inl NotInMemory, f, w))"

definition unzip_frame :: "'w vm \<Rightarrow> frame \<Rightarrow> 'w \<Rightarrow> ((memory_error + phys_page_num) \<times> frame \<times> 'w) outcome" where
  "unzip_frame vm f w =
     (case f of
        Compressed zram_id \<Rightarrow>
          bind_outcome (bind_outcome (vm_frame_alloc vm w) unwrap_frame) (\<lambda>(ppn, w).
            bind_outcome (vm_zram_read vm zram_id ppn w) (\<lambda>w.
              bind_outcome (vm_drop vm f w) (\<lambda>w. Ret (Inr ppn, InMemory ppn, w))))
      | _ \<Rightarrow> Ret (Inl NotCompressed, f, w))"

section \<open>Linear maps\<close>

record linear_map =
  vpn_range :: simple_range
  frames :: "frame list"
  active :: "16 word list"
  compressed :: usize
  swapped :: usize

definition lm_start :: "linear_map \<Rightarrow> virt_page_num" where "lm_start lm = range_l (vpn_range lm)"
definition lm_end :: "linear_map \<Rightarrow> virt_page_num" where "lm_end lm = range_r (vpn_range lm)"

definition lm_new :: "simple_range \<Rightarrow> linear_map" where
  "lm_new r = \<lparr>vpn_range = r, frames = replicate (range_r r - range_l r) Unallocated, active = [], compressed = 0, swapped = 0\<rparr>"

text \<open>Indexing with a key below the start wraps to an index out of range.\<close>

definition lm_index :: "linear_map \<Rightarrow> virt_page_num \<Rightarrow> nat outcome" where
  "lm_index lm key =
     (if key < lm_start lm \<or> length (frames lm) \<le> key - lm_start lm then Panic else Ret (key - lm_start lm))"

definition get_in_memory :: "linear_map \<Rightarrow> virt_page_num \<Rightarrow> phys_page_num option outcome" where
  "get_in_memory lm key =
     bind_outcome (lm_index lm key) (\<lambda>i. Ret (case frames lm ! i of InMemory p \<Rightarrow> Some p | _ \<Rightarrow> None))"

definition alloc_in_memory :: "virt_page_num \<Rightarrow> phys_page_num \<Rightarrow> linear_map \<Rightarrow> linear_map outcome" where
  "alloc_in_memory key value lm =
     bind_outcome (lm_index lm key) (\<lambda>i.
       case insert_in_memory value (frames lm ! i) of
         Inl _ \<Rightarrow> Panic
       | Inr f \<Rightarrow> Ret (lm\<lparr>active := active lm @ [of_nat i], frames := (frames lm)[i := f]\<rparr>))"

definition remove_in_memory :: "virt_page_num \<Rightarrow> linear_map \<Rightarrow> (phys_page_num option \<times> linear_map) outcome" where
  "remove_in_memory key lm =
     bind_outcome (lm_index lm key) (\<lambda>i.
       let (r, f) = take_in_memory (frames lm ! i)
       in Ret (r, lm\<lparr>active := filter (\<lambda>e. unat e \<noteq> i) (active lm), frames := (frames lm)[i := f]\<rparr>))"

text \<open>\<open>Vec::resize\<close> and \<open>rotate_left\<close> of slices, which panics when it rotates by more than the length.\<close>

definition vec_resize :: "'w vm \<Rightarrow> nat \<Rightarrow> frame list \<Rightarrow> 'w \<Rightarrow> (frame list \<times> 'w) outcome" where
  "vec_resize vm n fs w =
     bind_outcome (drop_all vm (drop n fs) w) (\<lambda>w. Ret (take n fs @ replicate (n - length fs) Unallocated, w))"

definition rotate_left :: "nat \<Rightarrow> 'a list \<Rightarrow> 'a list outcome" where
  "rotate_left k xs = (if k \<le> length xs then Ret (drop k xs @ take k xs) else Panic)"

definition set_start :: "'w vm \<Rightarrow> virt_page_num \<Rightarrow> linear_map \<Rightarrow> 'w \<Rightarrow> ((unit + unit) \<times> linear_map \<times> 'w) outcome" where
  "set_start vm new_vpn_start lm w =
     (let vpn_start = lm_start lm; vpn_end = lm_end lm in
      if new_vpn_start > vpn_end then Ret (Inl (), lm, w)
      else bind_outcome (simple_range_new new_vpn_start vpn_end) (\<lambda>r.
        bind_outcome (if new_vpn_start < vpn_start then rotate_left (vpn_start - new_vpn_start) (frames lm)
                      else rotate_left (new_vpn_start - vpn_start) (frames lm)) (\<lambda>fs.
        bind_outcome (vec_resize vm (vpn_end - new_vpn_start) fs w) (\<lambda>(fs, w).
          Ret (Inr (), lm\<lparr>vpn_range := r, frames := fs\<rparr>, w)))))"

definition set_end :: "'w vm \<Rightarrow> virt_page_num \<Rightarrow> linear_map \<Rightarrow> 'w \<Rightarrow> ((unit + unit) \<times> linear_map \<times> 'w) outcome" where
  "set_end vm new_vpn_end lm w =
     (let vpn_start = lm_start lm in
      bind_outcome (simple_range_new vpn_start new_vpn_end) (\<lambda>r.
        let lm = lm\<lparr>vpn_range := r\<rparr> in
        if vpn_start > new_vpn_end then Ret (Inl (), lm, w)
        else bind_outcome (vec_resize vm (new_vpn_end - vpn_start) (frames lm) w) (\<lambda>(fs, w).
          Ret (Inr (), lm\<lparr>frames := fs\<rparr>, w))))"

definition count_compressed_and_swapped :: "linear_map \<Rightarrow> nat \<Rightarrow> nat \<Rightarrow> usize \<times> usize" where
  "count_compressed_and_swapped lm start end =
     (if compressed lm = 0 \<and> swapped lm = 0 then (0, 0)
      else fold (\<lambda>f (c, s). case f of Compressed _ \<Rightarrow> (c + 1, s) | SwappedOut _ \<Rightarrow> (c, s + 1) | _ \<Rightarrow> (c, s))
             (take (end - start) (drop start (frames lm))) (0, 0))"

definition split_active_into_two :: "16 word list \<Rightarrow> nat \<Rightarrow> 16 word list \<times> 16 word list" where
  "split_active_into_two act cut_idx =
     (if act = [] then ([], [])
      else fold (\<lambda>idx (first, second).
             if unat idx < cut_idx then (first @ [idx], second) else (first, second @ [idx - of_nat cut_idx])) act ([], []))"

text \<open>\<open>into_two\<close> leaves the first part in \<open>self\<close> and returns the second.\<close>

definition lm_into_two :: "virt_page_num \<Rightarrow> linear_map \<Rightarrow> ((unit + linear_map) \<times> linear_map) outcome" where
  "lm_into_two c lm =
     (let vpn_start = lm_start lm; vpn_end = lm_end lm in
      if c \<le> vpn_start \<or> c \<ge> vpn_end then Ret (Inl (), lm)
      else if length (frames lm) < c - vpn_start then Panic
      else
        let second_frames = drop (c - vpn_start) (frames lm);
            lm = lm\<lparr>frames := take (c - vpn_start) (frames lm)\<rparr>;
            (first_active, second_active) = split_active_into_two (active lm) (c - vpn_start);
            (first_compressed, first_swapped) = count_compressed_and_swapped lm 0 (c - vpn_start)
        in bind_outcome (simple_range_new c vpn_end) (\<lambda>r2.
           bind_outcome (simple_range_new vpn_start c) (\<lambda>r1.
             Ret (Inr \<lparr>vpn_range = r2, frames = second_frames, active = second_active,
                    compressed = compressed lm - first_compressed, swapped = swapped lm - first_swapped\<rparr>,
                  lm\<lparr>vpn_range := r1, active := first_active, compressed := first_compressed, swapped := first_swapped\<rparr>))))"

text \<open>When the second cut fails the first has been made: \<open>self\<close> keeps the first part and the rest is dropped.\<close>

definition lm_into_three ::
  "'w vm \<Rightarrow> virt_page_num \<Rightarrow> virt_page_num \<Rightarrow> linear_map \<Rightarrow> 'w \<Rightarrow> ((unit + linear_map \<times> linear_map) \<times> linear_map \<times> 'w) outcome" where
  "lm_into_three vm first_cut second_cut lm w =
     bind_outcome (lm_into_two first_cut lm) (\<lambda>(r, lm).
       case r of
         Inl _ \<Rightarrow> Ret (Inl (), lm, w)
       | Inr second \<Rightarrow>
           bind_outcome (lm_into_two second_cut second) (\<lambda>(r, second).
             case r of
               Inr third \<Rightarrow> Ret (Inr (second, third), lm, w)
             | Inl _ \<Rightarrow> bind_outcome (drop_all vm (frames second) w) (\<lambda>w. Ret (Inl (), lm, w))))"

section \<open>Areas\<close>

datatype map_type = Identical | Framed

text \<open>The operations of \<open>dyn File\<close> that areas use: whether it can be read, an independent copy, seeking, the offset, the size, reading a page at
  an offset into a frame and the tracker of a cached page.\<close>

datatype seek_whence = SEEK_SET | SEEK_CUR | SEEK_END

record ('f, 'w) file_ops =
  fo_readable :: "'f \<Rightarrow> bool"
  fo_deep_clone :: "'f \<Rightarrow> 'f"
  fo_lseek :: "isize \<Rightarrow> seek_whence \<Rightarrow> 'f \<Rightarrow> (int + usize) \<times> 'f"
  fo_get_offset :: "'f \<Rightarrow> usize"
  fo_get_size :: "'f \<Rightarrow> usize"
  fo_read_page :: "phys_page_num \<Rightarrow> 'f \<Rightarrow> 'w \<Rightarrow> 'f \<times> 'w"
  fo_get_single_cache :: "usize \<Rightarrow> 'f \<Rightarrow> 'w \<Rightarrow> (phys_page_num \<times> 'w) outcome"

record 'f map_area =
  ma_inner :: linear_map
  ma_type :: map_type
  ma_perm :: map_permission
  ma_file :: "'f option"

definition ma_start :: "'f map_area \<Rightarrow> virt_page_num" where "ma_start a = lm_start (ma_inner a)"
definition ma_end :: "'f map_area \<Rightarrow> virt_page_num" where "ma_end a = lm_end (ma_inner a)"

definition ma_new :: "virt_addr \<Rightarrow> virt_addr \<Rightarrow> map_type \<Rightarrow> map_permission \<Rightarrow> 'f option \<Rightarrow> 'f map_area outcome" where
  "ma_new start_va end_va ty perm file =
     bind_outcome (simple_range_new (addr_floor start_va) (addr_ceil end_va)) (\<lambda>r.
       Ret \<lparr>ma_inner = lm_new r, ma_type = ty, ma_perm = perm, ma_file = file\<rparr>)"

definition from_another :: "'f map_area \<Rightarrow> 'f map_area outcome" where
  "from_another another =
     bind_outcome (simple_range_new (ma_start another) (ma_end another)) (\<lambda>r. Ret (another\<lparr>ma_inner := lm_new r\<rparr>))"

definition from_existing_frame :: "virt_addr \<Rightarrow> map_type \<Rightarrow> map_permission \<Rightarrow> frame list \<Rightarrow> 'f map_area outcome" where
  "from_existing_frame start_va ty perm fs =
     (let start_vpn = addr_floor start_va in
      bind_outcome (simple_range_new start_vpn (start_vpn + length fs)) (\<lambda>r.
        Ret \<lparr>ma_inner = \<lparr>vpn_range = r, frames = fs, active = [], compressed = 0, swapped = 0\<rparr>,
          ma_type = ty, ma_perm = perm, ma_file = None\<rparr>))"

definition map_framed :: "'w vm \<Rightarrow> virt_page_num \<Rightarrow> 'f map_area \<Rightarrow> phys_page_num \<times> 'w \<Rightarrow> (phys_page_num \<times> 'f map_area \<times> 'w) outcome" where
  "map_framed vm vpn a = (\<lambda>(ppn, w).
     bind_outcome (alloc_in_memory vpn ppn (ma_inner a)) (\<lambda>lm.
       bind_outcome (vm_map vm vpn ppn (ma_perm a) w) (\<lambda>w. Ret (ppn, a\<lparr>ma_inner := lm\<rparr>, w))))"

definition map_one_unchecked ::
  "'w vm \<Rightarrow> virt_page_num \<Rightarrow> 'f map_area \<Rightarrow> 'w \<Rightarrow> (phys_page_num \<times> 'f map_area \<times> 'w) outcome" where
  "map_one_unchecked vm vpn a w =
     (case ma_type a of
        Identical \<Rightarrow> bind_outcome (vm_map vm vpn vpn (ma_perm a) w) (\<lambda>w. Ret (vpn, a, w))
      | Framed \<Rightarrow> bind_outcome (bind_outcome (vm_frame_alloc_uninit vm w) unwrap_frame) (map_framed vm vpn a))"

definition map_one ::
  "'w vm \<Rightarrow> virt_page_num \<Rightarrow> 'f map_area \<Rightarrow> 'w
     \<Rightarrow> ((memory_error \<times> virt_page_num + phys_page_num) \<times> 'f map_area \<times> 'w) outcome" where
  "map_one vm vpn a w =
     (if ma_type a = Identical \<or> \<not> vm_is_mapped vm w vpn
      then bind_outcome (map_one_unchecked vm vpn a w) (\<lambda>(ppn, a, w). Ret (Inr ppn, a, w))
      else Ret (Inl (AlreadyMapped, vpn), a, w))"

definition map_one_zeroed_unchecked ::
  "'w vm \<Rightarrow> virt_page_num \<Rightarrow> 'f map_area \<Rightarrow> 'w \<Rightarrow> (phys_page_num \<times> 'f map_area \<times> 'w) outcome" where
  "map_one_zeroed_unchecked vm vpn a w =
     bind_outcome (bind_outcome (vm_frame_alloc vm w) unwrap_frame) (map_framed vm vpn a)"

text \<open>The tracker that \<open>remove_in_memory\<close> returns is dropped at once.\<close>

definition unmap_one ::
  "'w vm \<Rightarrow> virt_page_num \<Rightarrow> 'f map_area \<Rightarrow> 'w \<Rightarrow> ((memory_error + unit) \<times> 'f map_area \<times> 'w) outcome" where
  "unmap_one vm vpn a w =
     (if \<not> vm_is_mapped vm w vpn then Ret (Inl NotMapped, a, w)
      else case ma_type a of
             Framed \<Rightarrow>
               bind_outcome (remove_in_memory vpn (ma_inner a)) (\<lambda>(r, lm).
                 bind_outcome (vm_drop vm (case r of Some p \<Rightarrow> InMemory p | None \<Rightarrow> Unallocated) w) (\<lambda>w.
                   bind_outcome (vm_unmap vm vpn w) (\<lambda>w. Ret (Inr (), a\<lparr>ma_inner := lm\<rparr>, w))))
           | Identical \<Rightarrow> Ret (Inr (), a, w))"

primrec map_from_existing_loop ::
  "'w vm \<Rightarrow> 'w vm \<Rightarrow> map_permission \<Rightarrow> virt_page_num list \<Rightarrow> 'w \<Rightarrow> ((unit + unit) \<times> 'w) outcome" where
  "map_from_existing_loop dst src perm [] w = Ret (Inr (), w)"
| "map_from_existing_loop dst src perm (vpn # vpns) w =
     (let (r, w) = vm_block_and_ret_mut src vpn w in
      case r of
        None \<Rightarrow> map_from_existing_loop dst src perm vpns w
      | Some ppn \<Rightarrow>
          if \<not> vm_is_mapped dst w vpn
          then bind_outcome (vm_map dst vpn ppn perm w) (map_from_existing_loop dst src perm vpns)
          else Ret (Inl (), w))"

definition map_from_existing_page_table ::
  "'w vm \<Rightarrow> 'w vm \<Rightarrow> 'f map_area \<Rightarrow> 'w \<Rightarrow> ((unit + unit) \<times> 'w) outcome" where
  "map_from_existing_page_table dst src a w =
     map_from_existing_loop dst src (ma_perm a AND NOT PTE_W) [ma_start a..<ma_end a] w"

text \<open>The loops of \<open>unmap\<close>, \<open>shrink_to\<close> and \<open>rshrink_to\<close>; the flag tells that some page was not mapped.\<close>

primrec unmap_loop :: "'w vm \<Rightarrow> virt_page_num list \<Rightarrow> 'f map_area \<Rightarrow> 'w \<Rightarrow> (bool \<times> 'f map_area \<times> 'w) outcome" where
  "unmap_loop vm [] a w = Ret (False, a, w)"
| "unmap_loop vm (vpn # vpns) a w =
     bind_outcome (unmap_one vm vpn a w) (\<lambda>(r, a, w).
       bind_outcome (unmap_loop vm vpns a w) (\<lambda>(b, a, w). Ret (isl r \<or> b, a, w)))"

definition ma_unmap :: "'w vm \<Rightarrow> 'f map_area \<Rightarrow> 'w \<Rightarrow> ((memory_error + unit) \<times> 'f map_area \<times> 'w) outcome" where
  "ma_unmap vm a w =
     bind_outcome (unmap_loop vm [ma_start a..<ma_end a] a w) (\<lambda>(has_unmapped_page, a, w).
       Ret (if has_unmapped_page then Inl NotMapped else Inr (), a, w))"

definition copy_on_write ::
  "'w vm \<Rightarrow> virt_page_num \<Rightarrow> 'f map_area \<Rightarrow> 'w \<Rightarrow> (phys_page_num \<times> 'f map_area \<times> 'w) outcome" where
  "copy_on_write vm vpn a w =
     bind_outcome (remove_in_memory vpn (ma_inner a)) (\<lambda>(r, lm).
       case r of
         None \<Rightarrow> Panic
       | Some old_ppn \<Rightarrow>
           if vm_strong_count vm w old_ppn = 1 then
             bind_outcome (alloc_in_memory vpn old_ppn lm) (\<lambda>lm.
               case vm_set_pte_flags vm vpn (ma_perm a) w of
                 (Inl _, w) \<Rightarrow> Panic
               | (Inr _, w) \<Rightarrow> Ret (old_ppn, a\<lparr>ma_inner := lm\<rparr>, w))
           else
             bind_outcome (vm_unmap vm vpn w) (\<lambda>w.
               bind_outcome (bind_outcome (vm_frame_alloc_uninit vm w) unwrap_frame) (\<lambda>(new_ppn, w).
                 bind_outcome (map_framed vm vpn (a\<lparr>ma_inner := lm\<rparr>) (new_ppn, w)) (\<lambda>(new_ppn, a, w).
                   bind_outcome (vm_drop vm (InMemory old_ppn) (vm_copy_page vm new_ppn old_ppn w)) (\<lambda>w.
                     Ret (new_ppn, a, w))))))"

definition expand_to :: "'w vm \<Rightarrow> virt_addr \<Rightarrow> 'f map_area \<Rightarrow> 'w \<Rightarrow> ((unit + unit) \<times> 'f map_area \<times> 'w) outcome" where
  "expand_to vm new_end a w =
     (let new_end_vpn = addr_ceil new_end in
      if new_end_vpn < ma_end a then Ret (Inl (), a, w)
      else bind_outcome (set_end vm new_end_vpn (ma_inner a) w) (\<lambda>(r, lm, w). Ret (r, a\<lparr>ma_inner := lm\<rparr>, w)))"

definition after_resize :: "bool \<Rightarrow> 'f map_area \<Rightarrow> (unit + unit) \<times> linear_map \<times> 'w \<Rightarrow> ((unit + unit) \<times> 'f map_area \<times> 'w) outcome" where
  "after_resize has_unmapped_page a = (\<lambda>(r, lm, w).
     Ret (if isl r \<or> has_unmapped_page then Inl () else Inr (), a\<lparr>ma_inner := lm\<rparr>, w))"

definition shrink_to :: "'w vm \<Rightarrow> virt_addr \<Rightarrow> 'f map_area \<Rightarrow> 'w \<Rightarrow> ((unit + unit) \<times> 'f map_area \<times> 'w) outcome" where
  "shrink_to vm new_end a w =
     (let new_end_vpn = addr_ceil new_end; old_end_vpn = ma_end a in
      if new_end_vpn > old_end_vpn then Ret (Inl (), a, w)
      else bind_outcome (unmap_loop vm [new_end_vpn..<old_end_vpn] a w) (\<lambda>(has_unmapped_page, a, w).
        bind_outcome (set_end vm new_end_vpn (ma_inner a) w) (after_resize has_unmapped_page a)))"

definition rshrink_to :: "'w vm \<Rightarrow> virt_addr \<Rightarrow> 'f map_area \<Rightarrow> 'w \<Rightarrow> ((unit + unit) \<times> 'f map_area \<times> 'w) outcome" where
  "rshrink_to vm new_start a w =
     (let new_start_vpn = addr_floor new_start; old_start_vpn = ma_start a in
      if new_start_vpn < old_start_vpn then Ret (Inl (), a, w)
      else bind_outcome (unmap_loop vm [old_start_vpn..<new_start_vpn] a w) (\<lambda>(has_unmapped_page, a, w).
        bind_outcome (set_start vm new_start_vpn (ma_inner a) w) (after_resize has_unmapped_page a)))"

definition check_overlapping :: "virt_page_num \<Rightarrow> virt_page_num \<Rightarrow> 'f map_area \<Rightarrow> (virt_page_num \<times> virt_page_num) option" where
  "check_overlapping start_vpn end_vpn a =
     (if end_vpn < ma_start a \<or> start_vpn \<ge> ma_end a then None
      else Some (if start_vpn > ma_start a then start_vpn else ma_start a,
                 if end_vpn < ma_end a then end_vpn else ma_end a))"

text \<open>A copy of the file of an area, positioned for a part that starts at \<open>vpn\<close>; a failing seek panics.\<close>

definition file_at :: "('f, 'w) file_ops \<Rightarrow> virt_page_num \<Rightarrow> virt_page_num \<Rightarrow> 'f option \<Rightarrow> 'f option outcome" where
  "file_at fo start vpn file =
     (case file of
        None \<Rightarrow> Ret None
      | Some f \<Rightarrow>
          (case fo_lseek fo (fo_get_offset fo f + addr_of_page vpn - addr_of_page start) SEEK_SET (fo_deep_clone fo f) of
             (Inl _, _) \<Rightarrow> Panic
           | (Inr _, f') \<Rightarrow> Ret (Some f')))"

definition ma_into_two ::
  "('f, 'w) file_ops \<Rightarrow> virt_page_num \<Rightarrow> 'f map_area \<Rightarrow> ((unit + 'f map_area) \<times> 'f map_area) outcome" where
  "ma_into_two fo c a =
     bind_outcome (file_at fo (ma_start a) c (ma_file a)) (\<lambda>second_file.
       bind_outcome (lm_into_two c (ma_inner a)) (\<lambda>(r, lm).
         Ret (case r of Inl _ \<Rightarrow> Inl () | Inr second \<Rightarrow> Inr (a\<lparr>ma_inner := second, ma_file := second_file\<rparr>),
              a\<lparr>ma_inner := lm\<rparr>)))"

definition ma_into_three ::
  "('f, 'w) file_ops \<Rightarrow> 'w vm \<Rightarrow> virt_page_num \<Rightarrow> virt_page_num \<Rightarrow> 'f map_area \<Rightarrow> 'w
     \<Rightarrow> ((unit + 'f map_area \<times> 'f map_area) \<times> 'f map_area \<times> 'w) outcome" where
  "ma_into_three fo vm first_cut second_cut a w =
     bind_outcome (lm_into_three vm first_cut second_cut (ma_inner a) w) (\<lambda>(r, lm, w).
       case r of
         Inl _ \<Rightarrow> Ret (Inl (), a\<lparr>ma_inner := lm\<rparr>, w)
       | Inr (second, third) \<Rightarrow>
           bind_outcome (file_at fo (ma_start a) first_cut (ma_file a)) (\<lambda>second_file.
             bind_outcome (file_at fo (ma_start a) second_cut (ma_file a)) (\<lambda>third_file.
               Ret (Inr (a\<lparr>ma_inner := second, ma_file := second_file\<rparr>, a\<lparr>ma_inner := third, ma_file := third_file\<rparr>),
                    a\<lparr>ma_inner := lm\<rparr>, w))))"

text \<open>Reclaim goes through the list of active pages.  What one page becomes:\<close>

definition reclaim_one :: "'w vm \<Rightarrow> frame \<Rightarrow> 'w \<Rightarrow> ((memory_error + nat) \<times> frame \<times> 'w) outcome" where
  "reclaim_one vm f w =
     bind_outcome (zip_frame vm f w) (\<lambda>(r, f, w).
       case r of Inl ZramIsFull \<Rightarrow> swap_out vm f w | _ \<Rightarrow> Ret (r, f, w))"

fun oom_loop :: "'w vm \<Rightarrow> linear_map \<Rightarrow> 16 word list \<Rightarrow> 'w \<Rightarrow> (linear_map \<times> 'w) outcome" where
  "oom_loop vm lm [] w = Ret (lm\<lparr>active := []\<rparr>, w)"
| "oom_loop vm lm (idx # idxs) w =
     (if length (frames lm) \<le> unat idx then Panic
      else bind_outcome (reclaim_one vm (frames lm ! unat idx) w) (\<lambda>(r, f, w).
        case r of
          Inr _ \<Rightarrow>
            bind_outcome (vm_unmap vm (lm_start lm + unat idx) w) (\<lambda>w.
              oom_loop vm (case f of
                  Compressed _ \<Rightarrow> lm\<lparr>frames := (frames lm)[unat idx := f], compressed := compressed lm + 1\<rparr>
                | _ \<Rightarrow> lm\<lparr>frames := (frames lm)[unat idx := f], swapped := swapped lm + 1\<rparr>) idxs w)
        | Inl SharedPage \<Rightarrow> oom_loop vm lm idxs w
        | Inl _ \<Rightarrow> Panic))"

definition ma_do_oom :: "'w vm \<Rightarrow> 'f map_area \<Rightarrow> 'w \<Rightarrow> (usize \<times> 'f map_area \<times> 'w) outcome" where
  "ma_do_oom vm a w =
     bind_outcome (oom_loop vm (ma_inner a) (active (ma_inner a)) w) (\<lambda>(lm, w).
       Ret (compressed lm + swapped lm - compressed (ma_inner a) - swapped (ma_inner a), a\<lparr>ma_inner := lm\<rparr>, w))"

fun force_swap_loop :: "'w vm \<Rightarrow> linear_map \<Rightarrow> 16 word list \<Rightarrow> 'w \<Rightarrow> (linear_map \<times> 'w) outcome" where
  "force_swap_loop vm lm [] w = Ret (lm\<lparr>active := []\<rparr>, w)"
| "force_swap_loop vm lm (idx # idxs) w =
     (if length (frames lm) \<le> unat idx then Panic
      else bind_outcome (force_swap_out vm (frames lm ! unat idx) w) (\<lambda>(r, f, w).
        case r of
          Inr _ \<Rightarrow>
            bind_outcome (vm_unmap vm (lm_start lm + unat idx) w) (\<lambda>w.
              force_swap_loop vm (lm\<lparr>frames := (frames lm)[unat idx := f], swapped := swapped lm + 1\<rparr>) idxs w)
        | Inl _ \<Rightarrow> Panic))"

definition force_swap :: "'w vm \<Rightarrow> 'f map_area \<Rightarrow> 'w \<Rightarrow> (usize \<times> 'f map_area \<times> 'w) outcome" where
  "force_swap vm a w =
     bind_outcome (force_swap_loop vm (ma_inner a) (active (ma_inner a)) w) (\<lambda>(lm, w).
       Ret (swapped lm - swapped (ma_inner a), a\<lparr>ma_inner := lm\<rparr>, w))"

section \<open>Splitting and resizing\<close>

text \<open>A linear map has a frame for every page of its range.\<close>

definition lm_shape :: "linear_map \<Rightarrow> bool" where
  "lm_shape lm \<longleftrightarrow> lm_start lm < lm_end lm \<and> length (frames lm) = lm_end lm - lm_start lm"

lemma lm_index_ok:
  assumes "lm_shape lm" "lm_start lm \<le> v" "v < lm_end lm"
  shows "lm_index lm v = Ret (v - lm_start lm)" "v - lm_start lm < length (frames lm)"
  using assms by (auto simp: lm_index_def lm_shape_def)

lemma split_active_eq:
  "split_active_into_two act k = (filter (\<lambda>i. unat i < k) act, map (\<lambda>i. i - of_nat k) (filter (\<lambda>i. \<not> unat i < k) act))"
proof -
  have "fold (\<lambda>idx (first, second). if unat idx < k then (first @ [idx], second) else (first, second @ [idx - of_nat k])) act (xs, ys)
      = (xs @ filter (\<lambda>i. unat i < k) act, ys @ map (\<lambda>i. i - of_nat k) (filter (\<lambda>i. \<not> unat i < k) act))" for xs ys
    by (induction act arbitrary: xs ys) auto
  then show ?thesis by (simp add: split_active_into_two_def)
qed

definition n_compressed :: "frame list \<Rightarrow> nat" where "n_compressed fs = length (filter is_Compressed fs)"
definition n_swapped :: "frame list \<Rightarrow> nat" where "n_swapped fs = length (filter is_SwappedOut fs)"

lemma count_compressed_and_swapped_eq:
  assumes "compressed lm = 0 \<and> swapped lm = 0 \<Longrightarrow> n_compressed (frames lm) = 0 \<and> n_swapped (frames lm) = 0"
    and "length (frames lm) = k"
  shows "count_compressed_and_swapped lm 0 k = (of_nat (n_compressed (frames lm)), of_nat (n_swapped (frames lm)))"
proof -
  have "fold (\<lambda>f (c, s). case f of Compressed _ \<Rightarrow> (c + 1, s) | SwappedOut _ \<Rightarrow> (c, s + 1) | _ \<Rightarrow> (c, s)) fs (c, s)
      = (c + of_nat (n_compressed fs), s + of_nat (n_swapped fs))" for fs and c s :: usize
    by (induction fs arbitrary: c s) (auto simp: n_compressed_def n_swapped_def split: frame.splits)
  then show ?thesis using assms by (auto simp: count_compressed_and_swapped_def)
qed

text \<open>The bookkeeping for reclaim is exact: the active list has every page in memory once, and the counters count.  Page
  indexes are stored in 16 bits, so this needs areas of at most \<open>2 ^ 16\<close> pages.\<close>

definition lm_ok :: "linear_map \<Rightarrow> bool" where
  "lm_ok lm \<longleftrightarrow> lm_shape lm \<and> length (frames lm) \<le> 2 ^ 16 \<and> distinct (active lm)
     \<and> (\<forall>i < 2 ^ 16. of_nat i \<in> set (active lm) \<longleftrightarrow> i < length (frames lm) \<and> is_InMemory (frames lm ! i))
     \<and> compressed lm = of_nat (n_compressed (frames lm)) \<and> swapped lm = of_nat (n_swapped (frames lm))"

lemma lm_into_two_shape:
  assumes "lm_shape lm" "lm_start lm < c" "c < lm_end lm"
  shows "\<exists>lm1 lm2. lm_into_two c lm = Ret (Inr lm2, lm1) \<and> lm_shape lm1 \<and> lm_shape lm2
    \<and> frames lm1 = take (c - lm_start lm) (frames lm) \<and> frames lm2 = drop (c - lm_start lm) (frames lm)
    \<and> vpn_range lm1 = \<lparr>range_l = lm_start lm, range_r = c\<rparr> \<and> vpn_range lm2 = \<lparr>range_l = c, range_r = lm_end lm\<rparr>
    \<and> (active lm1, active lm2) = split_active_into_two (active lm) (c - lm_start lm)
    \<and> (compressed lm1, swapped lm1)
        = count_compressed_and_swapped (lm\<lparr>frames := take (c - lm_start lm) (frames lm)\<rparr>) 0 (c - lm_start lm)
    \<and> compressed lm2 = compressed lm - compressed lm1 \<and> swapped lm2 = swapped lm - swapped lm1"
  using assms
  by (auto simp: lm_into_two_def Let_def simple_range_new_def lm_shape_def lm_start_def lm_end_def split: prod.splits)

lemma unat_of_nat_16: "i < 2 ^ 16 \<Longrightarrow> unat (of_nat i :: 16 word) = i"
  by (simp add: unsigned_of_nat take_bit_nat_eq_self)

lemma second_active:
  assumes "k < 2 ^ 16" "i < 2 ^ 16"
  shows "(of_nat i :: 16 word) \<in> set (map (\<lambda>j. j - of_nat k) (filter (\<lambda>j. \<not> unat j < k) act))
    \<longleftrightarrow> i + k < 2 ^ 16 \<and> of_nat (i + k) \<in> set act"
proof -
  define s where "s = i + k"
  have j: "j - of_nat k = of_nat i \<longleftrightarrow> j = of_nat s" for j :: "16 word" by (auto simp: s_def algebra_simps)
  have "\<not> unat (of_nat s :: 16 word) < k \<longleftrightarrow> s < 2 ^ 16"
  proof (cases "s < 2 ^ 16")
    case False
    then have "s mod 2 ^ 16 = s - 2 ^ 16" using assms by (simp add: mod_if s_def)
    then have "unat (of_nat s :: 16 word) = s - 2 ^ 16" by (simp add: unsigned_of_nat take_bit_eq_mod)
    then show ?thesis using False assms s_def by linarith
  qed (use unat_of_nat_16 [of s] s_def in simp)
  moreover have "(of_nat i :: 16 word) \<in> set (map (\<lambda>j. j - of_nat k) (filter (\<lambda>j. \<not> unat j < k) act))
      \<longleftrightarrow> (\<exists>j \<in> set act. \<not> unat j < k \<and> j - of_nat k = of_nat i)" by (auto simp: eq_commute)
  ultimately show ?thesis unfolding j s_def [symmetric] by blast
qed

lemma lm_into_two_ok:
  assumes ok: "lm_ok lm" and c: "lm_start lm < c" "c < lm_end lm"
  shows "\<exists>lm1 lm2. lm_into_two c lm = Ret (Inr lm2, lm1) \<and> lm_ok lm1 \<and> lm_ok lm2 \<and> frames lm1 @ frames lm2 = frames lm
    \<and> lm_start lm1 = lm_start lm \<and> lm_end lm1 = c \<and> lm_start lm2 = c \<and> lm_end lm2 = lm_end lm"
proof -
  let ?k = "c - lm_start lm"
  have shape: "lm_shape lm" using ok by (simp add: lm_ok_def)
  from lm_into_two_shape [OF this c] obtain lm1 lm2 where
    r: "lm_into_two c lm = Ret (Inr lm2, lm1)" "lm_shape lm1" "lm_shape lm2"
      "frames lm1 = take ?k (frames lm)" "frames lm2 = drop ?k (frames lm)"
      "vpn_range lm1 = \<lparr>range_l = lm_start lm, range_r = c\<rparr>" "vpn_range lm2 = \<lparr>range_l = c, range_r = lm_end lm\<rparr>"
    and act: "(active lm1, active lm2) = split_active_into_two (active lm) ?k"
    and cnt: "(compressed lm1, swapped lm1) = count_compressed_and_swapped (lm\<lparr>frames := take ?k (frames lm)\<rparr>) 0 ?k"
      "compressed lm2 = compressed lm - compressed lm1" "swapped lm2 = swapped lm - swapped lm1" by blast
  have k: "?k < length (frames lm)" "?k < 2 ^ 16" using ok c by (auto simp: lm_ok_def lm_shape_def)
  have n: "n_compressed (frames lm) = n_compressed (take ?k (frames lm)) + n_compressed (drop ?k (frames lm))"
    "n_swapped (frames lm) = n_swapped (take ?k (frames lm)) + n_swapped (drop ?k (frames lm))"
    unfolding n_compressed_def n_swapped_def by (metis append_take_drop_id filter_append length_append)+
  have "length (frames lm) < 2 ^ 64" using ok by (simp add: lm_ok_def)
  then have le: "n_compressed (frames lm) < 2 ^ 64" "n_swapped (frames lm) < 2 ^ 64"
    using length_filter_le [of is_Compressed "frames lm"] length_filter_le [of is_SwappedOut "frames lm"]
    unfolding n_compressed_def n_swapped_def by linarith+
  have z: "compressed lm = 0 \<Longrightarrow> n_compressed (frames lm) = 0" "swapped lm = 0 \<Longrightarrow> n_swapped (frames lm) = 0"
    using ok le by (auto simp: lm_ok_def word_of_nat_eq_0_iff dest: nat_dvd_not_less [rotated])
  have c1: "(compressed lm1, swapped lm1) = (of_nat (n_compressed (take ?k (frames lm))), of_nat (n_swapped (take ?k (frames lm))))"
    unfolding cnt(1) using z n k(1)
    by (subst count_compressed_and_swapped_eq) auto
  have a: "active lm1 = filter (\<lambda>i. unat i < ?k) (active lm)"
    "active lm2 = map (\<lambda>i. i - of_nat ?k) (filter (\<lambda>i. \<not> unat i < ?k) (active lm))"
    using act by (simp_all add: split_active_eq)
  have in1: "of_nat i \<in> set (active lm1) \<longleftrightarrow> i < length (frames lm1) \<and> is_InMemory (frames lm1 ! i)" if "i < 2 ^ 16" for i
    using ok that k unat_of_nat_16 [OF that] by (auto simp: a(1) r(4) lm_ok_def)
  have in2: "of_nat i \<in> set (active lm2) \<longleftrightarrow> i < length (frames lm2) \<and> is_InMemory (frames lm2 ! i)" if "i < 2 ^ 16" for i
  proof -
    have "of_nat j \<in> set (active lm) \<longleftrightarrow> j < length (frames lm) \<and> is_InMemory (frames lm ! j)" if "j < 2 ^ 16" for j
      using ok that by (simp add: lm_ok_def)
    from this [of "i + ?k"] show ?thesis
      unfolding a(2) second_active [OF k(2) that] using ok k by (auto simp: r(5) lm_ok_def add.commute less_diff_conv simp del: of_nat_add)
  qed
  have "distinct (active lm1)" "distinct (active lm2)" using ok by (auto simp: a lm_ok_def distinct_map inj_on_def)
  moreover have "compressed lm2 = of_nat (n_compressed (frames lm2))" "swapped lm2 = of_nat (n_swapped (frames lm2))"
    using cnt(2,3) c1 ok n by (auto simp: r(5) lm_ok_def)
  ultimately have "lm_ok lm1" "lm_ok lm2" using r(2-5) c1 in1 in2 ok k by (auto simp: lm_ok_def)
  then show ?thesis using r by (simp add: lm_start_def lm_end_def)
qed

lemma lm_new_ok: "l < r \<Longrightarrow> r \<le> l + 2 ^ 16 \<Longrightarrow> lm_ok (lm_new \<lparr>range_l = l, range_r = r\<rparr>)"
  by (auto simp: lm_ok_def lm_new_def lm_shape_def lm_start_def lm_end_def n_compressed_def n_swapped_def)

lemma n_update:
  assumes "i < length fs"
  shows "n_compressed (fs[i := f]) + (if is_Compressed (fs ! i) then 1 else 0) = n_compressed fs + (if is_Compressed f then 1 else 0)"
    "n_swapped (fs[i := f]) + (if is_SwappedOut (fs ! i) then 1 else 0) = n_swapped fs + (if is_SwappedOut f then 1 else 0)"
proof -
  obtain xs ys where fs: "fs = xs @ fs ! i # ys" "length xs = i"
    using id_take_nth_drop [OF assms] assms by (metis length_take min.absorb2 less_imp_le)
  then have "fs[i := f] = xs @ f # ys" by (metis list_update_length)
  moreover have "n_compressed fs = n_compressed (xs @ fs ! i # ys)" "n_swapped fs = n_swapped (xs @ fs ! i # ys)"
    using fs(1) by simp_all
  ultimately show "n_compressed (fs[i := f]) + (if is_Compressed (fs ! i) then 1 else 0) = n_compressed fs + (if is_Compressed f then 1 else 0)"
    "n_swapped (fs[i := f]) + (if is_SwappedOut (fs ! i) then 1 else 0) = n_swapped fs + (if is_SwappedOut f then 1 else 0)"
    by (simp_all add: n_compressed_def n_swapped_def)
qed

lemma alloc_in_memory_ok:
  assumes ok: "lm_ok lm" and v: "lm_start lm \<le> v" "v < lm_end lm" "frames lm ! (v - lm_start lm) = Unallocated"
  shows "\<exists>lm'. alloc_in_memory v p lm = Ret lm' \<and> lm_ok lm' \<and> vpn_range lm' = vpn_range lm
    \<and> frames lm' = (frames lm)[v - lm_start lm := InMemory p]"
proof -
  define i where "i = v - lm_start lm"
  let ?lm = "lm\<lparr>active := active lm @ [of_nat i], frames := (frames lm)[i := InMemory p]\<rparr>"
  have ix: "lm_index lm v = Ret i" "i < length (frames lm)" "i < 2 ^ 16"
    using lm_index_ok [of lm v] ok v by (auto simp: lm_ok_def i_def)
  have eq: "of_nat j = (of_nat i :: 16 word) \<longleftrightarrow> j = i" if "j < 2 ^ 16" for j
    using unat_of_nat_16 [OF that] unat_of_nat_16 [OF ix(3)] by metis
  have "of_nat i \<notin> set (active lm)" using ok v(3) [folded i_def] ix by (auto simp: lm_ok_def)
  moreover have "of_nat j \<in> set (active ?lm) \<longleftrightarrow> j < length (frames ?lm) \<and> is_InMemory (frames ?lm ! j)" if "j < 2 ^ 16" for j
    using ok that eq [OF that] ix(2) by (auto simp: lm_ok_def nth_list_update)
  ultimately have "lm_ok ?lm"
    using ok n_update [OF ix(2), of "InMemory p"] v(3) [folded i_def] by (auto simp: lm_ok_def lm_shape_def lm_start_def lm_end_def)
  then show ?thesis using ix v(3) [folded i_def] unfolding i_def [symmetric] by (simp add: alloc_in_memory_def insert_in_memory_def)
qed

lemma remove_in_memory_ok:
  assumes ok: "lm_ok lm" and v: "lm_start lm \<le> v" "v < lm_end lm"
  shows "\<exists>r lm'. remove_in_memory v lm = Ret (r, lm') \<and> lm_ok lm' \<and> vpn_range lm' = vpn_range lm
    \<and> (r, frames lm') = (case frames lm ! (v - lm_start lm) of
         InMemory p \<Rightarrow> (Some p, (frames lm)[v - lm_start lm := Unallocated]) | _ \<Rightarrow> (None, frames lm))"
proof -
  let ?i = "v - lm_start lm"
  obtain r f where t: "take_in_memory (frames lm ! ?i) = (r, f)" by force
  let ?lm = "lm\<lparr>active := filter (\<lambda>e. unat e \<noteq> ?i) (active lm), frames := (frames lm)[?i := f]\<rparr>"
  have i: "lm_index lm v = Ret ?i" "?i < length (frames lm)" "?i < 2 ^ 16"
    using lm_index_ok [of lm v] ok v by (auto simp: lm_ok_def)
  have f: "is_Compressed f \<longleftrightarrow> is_Compressed (frames lm ! ?i)" "is_SwappedOut f \<longleftrightarrow> is_SwappedOut (frames lm ! ?i)"
    "\<not> is_InMemory f"
    using t by (cases "frames lm ! ?i"; auto simp: take_in_memory_def)+
  have "of_nat j \<in> set (active ?lm) \<longleftrightarrow> j < length (frames ?lm) \<and> is_InMemory (frames ?lm ! j)" if "j < 2 ^ 16" for j
    using ok that f(3) i(2) unat_of_nat_16 [OF that] by (auto simp: lm_ok_def nth_list_update)
  then have "lm_ok ?lm"
    using ok n_update [OF i(2), of f] f by (auto simp: lm_ok_def lm_shape_def lm_start_def lm_end_def split: if_splits)
  moreover have "remove_in_memory v lm = Ret (r, ?lm)" using i t by (simp add: remove_in_memory_def)
  moreover have "(r, frames ?lm) = (case frames lm ! ?i of InMemory p \<Rightarrow> (Some p, (frames lm)[?i := Unallocated]) | _ \<Rightarrow> (None, frames lm))"
    using t by (auto simp: take_in_memory_def list_update_same_conv [OF i(2)] split: frame.splits)
  ultimately show ?thesis by (intro exI [of _ r] exI [of _ ?lm]) simp
qed

definition held :: "frame list \<Rightarrow> frame multiset" where
  "held fs = filter_mset (\<lambda>f. f \<noteq> Unallocated) (mset fs)"

lemma held_simps [simp]:
  "held [] = {#}" "held (Unallocated # fs) = held fs" "f \<noteq> Unallocated \<Longrightarrow> held (f # fs) = add_mset f (held fs)"
  "held (fs @ gs) = held fs + held gs" "held (replicate n Unallocated) = {#}"
  by (auto simp: held_def filter_mset_eq_conv)

lemma held_clear:
  assumes "i < length fs" "fs ! i \<noteq> Unallocated"
  shows "held fs = add_mset (fs ! i) (held (fs[i := Unallocated]))"
proof -
  have "held (take i fs @ fs ! i # drop (Suc i) fs) = add_mset (fs ! i) (held (take i fs @ Unallocated # drop (Suc i) fs))"
    using assms(2) by simp
  then show ?thesis
    using assms(1) by (metis id_take_nth_drop upd_conv_take_nth_drop)
qed

text \<open>An area after some of its pages \<open>V\<close> were unmapped: everything else is the same.\<close>

definition same_area :: "virt_page_num set \<Rightarrow> 'f map_area \<Rightarrow> 'f map_area \<Rightarrow> bool" where
  "same_area V a a' \<longleftrightarrow> (\<exists>act fs. a' = a\<lparr>ma_inner := (ma_inner a)\<lparr>active := act, frames := fs\<rparr>\<rparr>
     \<and> length fs = length (frames (ma_inner a))
     \<and> (\<forall>e \<in> set (active (ma_inner a)). ma_start a + unat e \<notin> V \<longrightarrow> e \<in> set act)
     \<and> (\<forall>i < length fs. ma_start a + i \<notin> V \<longrightarrow> fs ! i = frames (ma_inner a) ! i))"

lemma same_area_refl: "same_area V a a"
  unfolding same_area_def
  by (intro exI [of _ "active (ma_inner a)"] exI [of _ "frames (ma_inner a)"]) (cases a; simp)

lemma same_area_range:
  assumes "same_area V a a'"
  shows "ma_start a' = ma_start a" "ma_end a' = ma_end a" "length (frames (ma_inner a')) = length (frames (ma_inner a))"
    "ma_type a' = ma_type a" "ma_perm a' = ma_perm a" "ma_file a' = ma_file a"
    "lm_shape (ma_inner a') = lm_shape (ma_inner a)"
  using assms by (auto simp: same_area_def ma_start_def ma_end_def lm_start_def lm_end_def lm_shape_def)

lemma same_area_trans:
  assumes "same_area V a b" "same_area W b c"
  shows "same_area (V \<union> W) a c"
proof -
  obtain act fs act' fs' where
    b: "b = a\<lparr>ma_inner := (ma_inner a)\<lparr>active := act, frames := fs\<rparr>\<rparr>" "length fs = length (frames (ma_inner a))"
      "\<forall>e \<in> set (active (ma_inner a)). ma_start a + unat e \<notin> V \<longrightarrow> e \<in> set act"
      "\<forall>i < length fs. ma_start a + i \<notin> V \<longrightarrow> fs ! i = frames (ma_inner a) ! i"
    and c: "c = b\<lparr>ma_inner := (ma_inner b)\<lparr>active := act', frames := fs'\<rparr>\<rparr>" "length fs' = length (frames (ma_inner b))"
      "\<forall>e \<in> set (active (ma_inner b)). ma_start b + unat e \<notin> W \<longrightarrow> e \<in> set act'"
      "\<forall>i < length fs'. ma_start b + i \<notin> W \<longrightarrow> fs' ! i = frames (ma_inner b) ! i"
    using assms unfolding same_area_def by blast
  have s: "ma_start b = ma_start a" using same_area_range(1) [OF assms(1)] .
  show ?thesis
    unfolding same_area_def
    by (intro exI [of _ act'] exI [of _ fs']) (use b c s in simp)
qed

lemma floor_addr_of_page: "n < 2 ^ 52 \<Longrightarrow> addr_floor (addr_of_page n) = n"
proof -
  assume "n < 2 ^ 52"
  then have "unat (addr_of_page n) = n * PAGE_SIZE"
    by (simp add: addr_of_page_def push_bit_eq_mult unat_word_ariths unsigned_of_nat take_bit_eq_mod layout_defs)
  then show ?thesis by (simp add: addr_floor_nat layout_defs)
qed

lemma ceil_addr_of_page: "n < 2 ^ 52 \<Longrightarrow> addr_ceil (addr_of_page n) = n"
proof -
  assume n: "n < 2 ^ 52"
  then have "unat (addr_of_page n) = n * PAGE_SIZE"
    by (simp add: addr_of_page_def push_bit_eq_mult unat_word_ariths unsigned_of_nat take_bit_eq_mod layout_defs)
  moreover have "n * PAGE_SIZE \<le> 2 ^ 64 - PAGE_SIZE" using n by (simp add: layout_defs)
  ultimately show ?thesis using addr_ceil_nat [of "addr_of_page n"] by (simp add: layout_defs)
qed

text \<open>What the callers rely on: the mapped pages and a multiset of the frames whose trackers are held.\<close>

locale vm_laws =
  fixes vm :: "'w vm" and inv :: "'w \<Rightarrow> frame multiset \<Rightarrow> bool" and view :: "'w \<Rightarrow> virt_page_num \<Rightarrow> pte option"
    and page_ok :: "virt_page_num \<Rightarrow> bool"
  assumes mapped_view: "inv w F \<Longrightarrow> page_ok v \<Longrightarrow> vm_is_mapped vm w v \<longleftrightarrow> view w v \<noteq> None"
    and unmap_ok: "inv w F \<Longrightarrow> page_ok v \<Longrightarrow> view w v \<noteq> None \<Longrightarrow>
      \<exists>w'. vm_unmap vm v w = Ret w' \<and> inv w' F \<and> view w' = (view w)(v := None)"
    and drop_ok: "inv w (add_mset f F) \<Longrightarrow> \<exists>w'. vm_drop vm f w = Ret w' \<and> inv w' F \<and> view w' = view w"
    and drop_Unallocated: "vm_drop vm Unallocated w = Ret w"
    and set_flags_absent: "inv w F \<Longrightarrow> page_ok v \<Longrightarrow> view w v = None \<Longrightarrow> vm_set_pte_flags vm v fl w = (Inl (), w)"
    and set_flags_ok: "inv w F \<Longrightarrow> page_ok v \<Longrightarrow> view w v = Some e \<Longrightarrow>
      \<exists>w'. vm_set_pte_flags vm v fl w = (Inr (), w') \<and> inv w' F \<and> view w' = (view w)(v \<mapsto> pte_set_permission fl e)"
begin

lemma drop_all_ok:
  assumes "inv w (held fs + F)"
  shows "\<exists>w'. drop_all vm fs w = Ret w' \<and> inv w' F \<and> view w' = view w"
  using assms
proof (induction fs arbitrary: w)
  case (Cons f fs)
  obtain w' where "vm_drop vm f w = Ret w'" "inv w' (held fs + F)" "view w' = view w"
    using Cons.prems drop_ok [of w f "held fs + F"] drop_Unallocated by (cases "f = Unallocated") auto
  then show ?case using Cons.IH [of w'] by auto
qed simp

lemma unmap_one_ok:
  assumes shape: "lm_shape (ma_inner a)" "ma_type a = Framed" and v: "ma_start a \<le> v" "v < ma_end a" "page_ok v"
    and w: "inv w (held (frames (ma_inner a)) + F)"
  shows "\<exists>r a' w'. unmap_one vm v a w = Ret (r, a', w') \<and> same_area {v} a a'
    \<and> inv w' (held (frames (ma_inner a')) + F) \<and> view w' = (view w)(v := None)"
proof (cases "view w v")
  case None
  then have "view w = (view w)(v := None)" by auto
  then show ?thesis using None w v same_area_refl mapped_view by (auto simp: unmap_one_def)
next
  case (Some e)
  let ?lm = "ma_inner a"
  define i where "i = v - lm_start ?lm"
  have i: "lm_index ?lm v = Ret i" "i < length (frames ?lm)" "v = ma_start a + i"
    using lm_index_ok [OF shape(1), of v] v by (auto simp: ma_start_def ma_end_def i_def)
  obtain r f where t: "take_in_memory (frames ?lm ! i) = (r, f)" by force
  let ?lm' = "?lm\<lparr>active := filter (\<lambda>e. unat e \<noteq> i) (active ?lm), frames := (frames ?lm)[i := f]\<rparr>"
  have rem: "remove_in_memory v ?lm = Ret (r, ?lm')" using i t by (simp add: remove_in_memory_def)
  have "\<exists>w'. vm_drop vm (case r of Some p \<Rightarrow> InMemory p | None \<Rightarrow> Unallocated) w = Ret w'
      \<and> inv w' (held (frames ?lm') + F) \<and> view w' = view w"
  proof (cases "frames ?lm ! i")
    case (InMemory p)
    then have "r = Some p" "f = Unallocated" using t by (auto simp: take_in_memory_def)
    moreover have "held (frames ?lm) = add_mset (InMemory p) (held ((frames ?lm)[i := Unallocated]))"
      using held_clear [OF i(2)] InMemory by simp
    ultimately show ?thesis using w drop_ok by auto
  qed (use t w drop_Unallocated list_update_id [of "frames ?lm" i] in \<open>auto simp: take_in_memory_def\<close>)
  then obtain w1 where w1: "vm_drop vm (case r of Some p \<Rightarrow> InMemory p | None \<Rightarrow> Unallocated) w = Ret w1"
    "inv w1 (held (frames ?lm') + F)" "view w1 = view w" by blast
  obtain w2 where w2: "vm_unmap vm v w1 = Ret w2" "inv w2 (held (frames ?lm') + F)" "view w2 = (view w)(v := None)"
    using unmap_ok [OF w1(2) v(3)] Some w1(3) by auto
  have "unmap_one vm v a w = Ret (Inr (), a\<lparr>ma_inner := ?lm'\<rparr>, w2)"
    using Some mapped_view [OF w v(3)] shape(2) rem w1(1) w2(1) by (simp add: unmap_one_def)
  moreover have "same_area {v} a (a\<lparr>ma_inner := ?lm'\<rparr>)"
    unfolding same_area_def
    by (rule exI [of _ "active ?lm'"], rule exI [of _ "frames ?lm'"]) (use i in auto)
  ultimately show ?thesis using w2 by auto
qed

lemma unmap_loop_ok:
  assumes "lm_shape (ma_inner a)" "ma_type a = Framed" "\<forall>v \<in> set vs. ma_start a \<le> v \<and> v < ma_end a \<and> page_ok v"
    and "inv w (held (frames (ma_inner a)) + F)"
  shows "\<exists>b a' w'. unmap_loop vm vs a w = Ret (b, a', w') \<and> same_area (set vs) a a'
    \<and> inv w' (held (frames (ma_inner a')) + F) \<and> view w' = (\<lambda>u. if u \<in> set vs then None else view w u)"
  using assms
proof (induction vs arbitrary: a w)
  case Nil
  then show ?case using same_area_refl by auto
next
  case (Cons v vs)
  obtain r a1 w1 where 1: "unmap_one vm v a w = Ret (r, a1, w1)" "same_area {v} a a1"
    "inv w1 (held (frames (ma_inner a1)) + F)" "view w1 = (view w)(v := None)"
    using unmap_one_ok [OF Cons.prems(1,2) _ _ _ Cons.prems(4)] Cons.prems(3) by (metis list.set_intros(1))
  note range = same_area_range [OF 1(2)]
  obtain b a' w' where 2: "unmap_loop vm vs a1 w1 = Ret (b, a', w')" "same_area (set vs) a1 a'"
    "inv w' (held (frames (ma_inner a')) + F)" "view w' = (\<lambda>u. if u \<in> set vs then None else view w1 u)"
    using Cons.IH [OF _ _ _ 1(3)] Cons.prems(1-3) range by auto
  have "same_area (set (v # vs)) a a'" using same_area_trans [OF 1(2) 2(2)] by simp
  then show ?case using 1 2 by auto
qed

lemma vec_resize_ok:
  assumes "inv w (held fs + F)"
  shows "\<exists>w'. vec_resize vm n fs w = Ret (take n fs @ replicate (n - length fs) Unallocated, w')
    \<and> inv w' (held (take n fs) + F) \<and> view w' = view w"
proof -
  have "held fs = held (drop n fs) + held (take n fs)" using held_simps(4) [of "take n fs" "drop n fs"] by (simp add: add.commute)
  then have "inv w (held (drop n fs) + (held (take n fs) + F))" using assms by (simp add: add.assoc)
  from drop_all_ok [OF this] show ?thesis by (auto simp: vec_resize_def)
qed

lemma rshrink_to_ok:
  assumes shape: "lm_shape (ma_inner a)" "ma_type a = Framed"
    and n: "ma_start a \<le> n" "n < ma_end a" "n < 2 ^ 52" and ok: "\<forall>v. ma_start a \<le> v \<and> v < n \<longrightarrow> page_ok v"
    and w: "inv w (held (frames (ma_inner a)) + F)"
  shows "\<exists>r a' w'. rshrink_to vm (addr_of_page n) a w = Ret (r, a', w') \<and> lm_shape (ma_inner a')
    \<and> ma_start a' = n \<and> ma_end a' = ma_end a \<and> ma_type a' = ma_type a \<and> ma_perm a' = ma_perm a \<and> ma_file a' = ma_file a
    \<and> (\<forall>v. n \<le> v \<and> v < ma_end a \<longrightarrow> frames (ma_inner a') ! (v - n) = frames (ma_inner a) ! (v - ma_start a))
    \<and> (\<forall>e \<in> set (active (ma_inner a)). n \<le> ma_start a + unat e \<longrightarrow> e \<in> set (active (ma_inner a')))
    \<and> inv w' (held (frames (ma_inner a')) + F) \<and> view w' = (\<lambda>u. if ma_start a \<le> u \<and> u < n then None else view w u)"
proof -
  obtain b a1 w1 where l: "unmap_loop vm [ma_start a..<n] a w = Ret (b, a1, w1)" "same_area {ma_start a..<n} a a1"
    "inv w1 (held (frames (ma_inner a1)) + F)" "view w1 = (\<lambda>u. if ma_start a \<le> u \<and> u < n then None else view w u)"
    using unmap_loop_ok [OF shape _ w, of "[ma_start a..<n]"] ok n(2) by auto
  note range = same_area_range [OF l(2)]
  let ?k = "n - ma_start a" and ?fs = "frames (ma_inner a1)"
  have len: "length ?fs = ma_end a - ma_start a" using shape(1) range by (simp add: lm_shape_def ma_start_def ma_end_def)
  have "held (drop ?k ?fs @ take ?k ?fs) = held ?fs" using held_simps(4) [of "take ?k ?fs" "drop ?k ?fs"] by (simp add: add.commute)
  then obtain w2 where w2: "vec_resize vm (ma_end a - n) (drop ?k ?fs @ take ?k ?fs) w1 = Ret (drop ?k ?fs, w2)"
    "inv w2 (held (drop ?k ?fs) + F)" "view w2 = view w1"
    using vec_resize_ok [of w1 "drop ?k ?fs @ take ?k ?fs" F "ma_end a - n"] l(3) len n by auto
  let ?a' = "a1\<lparr>ma_inner := (ma_inner a1)\<lparr>vpn_range := \<lparr>range_l = n, range_r = ma_end a\<rparr>, frames := drop ?k ?fs\<rparr>\<rparr>"
  have "addr_floor (addr_of_page n) = n" using n(3) by (rule floor_addr_of_page)
  then have "rshrink_to vm (addr_of_page n) a w = Ret (if b then Inl () else Inr (), ?a', w2)"
    using l(1) n w2(1) range len by (simp add: rshrink_to_def set_start_def Let_def after_resize_def simple_range_new_def
        rotate_left_def ma_start_def [symmetric] ma_end_def [symmetric])
  moreover have "frames (ma_inner ?a') ! (v - n) = frames (ma_inner a) ! (v - ma_start a)" if "n \<le> v" "v < ma_end a" for v
  proof -
    have "ma_start a + (v - ma_start a) \<notin> {ma_start a..<n}" "v - ma_start a < length ?fs" "?k + (v - n) = v - ma_start a"
      using that n len by auto
    then show ?thesis using l(2) len by (auto simp: same_area_def)
  qed
  ultimately show ?thesis
    using l(2,4) w2 range len n by (fastforce simp: same_area_def lm_shape_def ma_start_def ma_end_def lm_start_def lm_end_def)
qed

lemma shrink_to_ok:
  assumes shape: "lm_shape (ma_inner a)" "ma_type a = Framed"
    and n: "ma_start a < n" "n \<le> ma_end a" "n < 2 ^ 52" and ok: "\<forall>v. n \<le> v \<and> v < ma_end a \<longrightarrow> page_ok v"
    and w: "inv w (held (frames (ma_inner a)) + F)"
  shows "\<exists>r a' w'. shrink_to vm (addr_of_page n) a w = Ret (r, a', w') \<and> lm_shape (ma_inner a')
    \<and> ma_start a' = ma_start a \<and> ma_end a' = n \<and> ma_type a' = ma_type a \<and> ma_perm a' = ma_perm a \<and> ma_file a' = ma_file a
    \<and> (\<forall>v. ma_start a \<le> v \<and> v < n \<longrightarrow> frames (ma_inner a') ! (v - ma_start a) = frames (ma_inner a) ! (v - ma_start a))
    \<and> inv w' (held (frames (ma_inner a')) + F) \<and> view w' = (\<lambda>u. if n \<le> u \<and> u < ma_end a then None else view w u)"
proof -
  obtain b a1 w1 where l: "unmap_loop vm [n..<ma_end a] a w = Ret (b, a1, w1)" "same_area {n..<ma_end a} a a1"
    "inv w1 (held (frames (ma_inner a1)) + F)" "view w1 = (\<lambda>u. if n \<le> u \<and> u < ma_end a then None else view w u)"
    using unmap_loop_ok [OF shape _ w, of "[n..<ma_end a]"] ok n by auto
  note range = same_area_range [OF l(2)]
  let ?k = "n - ma_start a" and ?fs = "frames (ma_inner a1)"
  have len: "length ?fs = ma_end a - ma_start a" using shape(1) range by (simp add: lm_shape_def ma_start_def ma_end_def)
  obtain w2 where w2: "vec_resize vm ?k ?fs w1 = Ret (take ?k ?fs, w2)" "inv w2 (held (take ?k ?fs) + F)" "view w2 = view w1"
    using vec_resize_ok [OF l(3), of ?k] len n by auto
  let ?a' = "a1\<lparr>ma_inner := (ma_inner a1)\<lparr>vpn_range := \<lparr>range_l = ma_start a, range_r = n\<rparr>, frames := take ?k ?fs\<rparr>\<rparr>"
  have "addr_ceil (addr_of_page n) = n" using n(3) by (rule ceil_addr_of_page)
  then have "shrink_to vm (addr_of_page n) a w = Ret (if b then Inl () else Inr (), ?a', w2)"
    using l(1) n w2(1) range len by (simp add: shrink_to_def set_end_def Let_def after_resize_def simple_range_new_def
        ma_start_def [symmetric] ma_end_def [symmetric])
  moreover have "frames (ma_inner ?a') ! (v - ma_start a) = frames (ma_inner a) ! (v - ma_start a)"
    if "ma_start a \<le> v" "v < n" for v
  proof -
    have "ma_start a + (v - ma_start a) \<notin> {n..<ma_end a}" "v - ma_start a < length ?fs" "v - ma_start a < ?k"
      using that n len by auto
    then show ?thesis using l(2) len by (auto simp: same_area_def)
  qed
  ultimately show ?thesis
    using l(2,4) w2 range len n by (fastforce simp: same_area_def lm_shape_def ma_start_def ma_end_def lm_start_def lm_end_def)
qed

end

text \<open>Allocating and copying: \<open>room\<close> counts the free frames, \<open>content\<close> is what a frame holds.\<close>

locale vm_memory = vm_laws +
  fixes room :: "'w \<Rightarrow> nat" and content :: "'w \<Rightarrow> phys_page_num \<Rightarrow> u64 list"
  assumes alloc_ok: "inv w F \<Longrightarrow> 0 < room w \<Longrightarrow>
      \<exists>p w'. vm_frame_alloc vm w = Ret (Some p, w') \<and> InMemory p \<notin># F \<and> inv w' (add_mset (InMemory p) F) \<and> view w' = view w
        \<and> room w' = room w - 1 \<and> content w' p = replicate 512 0 \<and> (\<forall>q. InMemory q \<in># F \<longrightarrow> content w' q = content w q)"
    and alloc_uninit_ok: "inv w F \<Longrightarrow> 0 < room w \<Longrightarrow>
      \<exists>p w'. vm_frame_alloc_uninit vm w = Ret (Some p, w') \<and> InMemory p \<notin># F \<and> inv w' (add_mset (InMemory p) F) \<and> view w' = view w
        \<and> room w' = room w - 1 \<and> (\<forall>q. InMemory q \<in># F \<longrightarrow> content w' q = content w q)"
    and map_ok: "inv w F \<Longrightarrow> page_ok v \<Longrightarrow> view w v = None \<Longrightarrow> 2 \<le> room w \<Longrightarrow>
      \<exists>w'. vm_map vm v p fl w = Ret w' \<and> inv w' F \<and> view w' = (view w)(v \<mapsto> pt_new_entry p fl) \<and> room w \<le> room w' + 2
        \<and> (\<forall>q. InMemory q \<in># F \<longrightarrow> content w' q = content w q)"
    and unmap_keeps: "inv w F \<Longrightarrow> page_ok v \<Longrightarrow> vm_unmap vm v w = Ret w' \<Longrightarrow>
      room w' = room w \<and> (\<forall>q. InMemory q \<in># F \<longrightarrow> content w' q = content w q)"
    and set_flags_keeps: "inv w F \<Longrightarrow> page_ok v \<Longrightarrow> vm_set_pte_flags vm v fl w = (r, w') \<Longrightarrow>
      (\<forall>q. InMemory q \<in># F \<longrightarrow> content w' q = content w q)"
    and drop_keeps: "vm_drop vm f w = Ret w' \<Longrightarrow> content w' = content w"
    and copy_ok: "inv w F \<Longrightarrow> InMemory d \<in># F \<Longrightarrow>
      inv (vm_copy_page vm d p w) F \<and> view (vm_copy_page vm d p w) = view w
        \<and> content (vm_copy_page vm d p w) = (content w)(d := content w p)"
begin

text \<open>Mapping a fresh frame at an unmapped page of an area.\<close>

lemma map_framed_ok:
  assumes shape: "lm_shape (ma_inner a)" and v: "ma_start a \<le> v" "v < ma_end a" "page_ok v"
    and fr: "frames (ma_inner a) ! (v - ma_start a) = Unallocated" "view w v = None" "2 \<le> room w"
    and w: "inv w (add_mset (InMemory p) (held (frames (ma_inner a)) + F))"
  shows "\<exists>a' w'. map_framed vm v a (p, w) = Ret (p, a', w') \<and> lm_shape (ma_inner a')
    \<and> a' = a\<lparr>ma_inner := (ma_inner a)\<lparr>active := active (ma_inner a) @ [of_nat (v - ma_start a)],
        frames := (frames (ma_inner a))[v - ma_start a := InMemory p]\<rparr>\<rparr>
    \<and> inv w' (held (frames (ma_inner a')) + F) \<and> view w' = (view w)(v \<mapsto> pt_new_entry p (ma_perm a)) \<and> room w \<le> room w' + 2
    \<and> (\<forall>q. InMemory q \<in># add_mset (InMemory p) (held (frames (ma_inner a)) + F) \<longrightarrow> content w' q = content w q)"
proof -
  let ?i = "v - ma_start a" and ?fs = "frames (ma_inner a)"
  have i: "lm_index (ma_inner a) v = Ret ?i" "?i < length ?fs"
    using lm_index_ok [OF shape, of v] v by (simp_all add: ma_start_def ma_end_def)
  have "?fs[?i := Unallocated] = ?fs" using fr(1) i(2) list_update_id [of ?fs ?i] by simp
  moreover have "held (?fs[?i := InMemory p]) = add_mset (InMemory p) (held (?fs[?i := Unallocated]))"
    using held_clear [of ?i "?fs[?i := InMemory p]"] i(2) by simp
  ultimately have h: "held (?fs[?i := InMemory p]) = add_mset (InMemory p) (held ?fs)" by simp
  obtain w' where "vm_map vm v p (ma_perm a) w = Ret w'" "inv w' (add_mset (InMemory p) (held ?fs + F))"
    "view w' = (view w)(v \<mapsto> pt_new_entry p (ma_perm a))" "room w \<le> room w' + 2"
    "\<forall>q. InMemory q \<in># add_mset (InMemory p) (held ?fs + F) \<longrightarrow> content w' q = content w q"
    using map_ok [OF w v(3) fr(2,3)] by blast
  then show ?thesis
    using i fr(1) h shape
    by (auto simp: map_framed_def alloc_in_memory_def insert_in_memory_def lm_shape_def lm_start_def lm_end_def)
qed

text \<open>A lazily allocated page: the frame is zeroed and belongs to nobody else.\<close>

lemma map_one_zeroed_ok:
  assumes shape: "lm_shape (ma_inner a)" and v: "ma_start a \<le> v" "v < ma_end a" "page_ok v"
    and fr: "frames (ma_inner a) ! (v - ma_start a) = Unallocated" "view w v = None" "3 \<le> room w"
    and w: "inv w (held (frames (ma_inner a)) + F)"
  shows "\<exists>p a' w'. map_one_zeroed_unchecked vm v a w = Ret (p, a', w')
    \<and> a' = a\<lparr>ma_inner := (ma_inner a)\<lparr>active := active (ma_inner a) @ [of_nat (v - ma_start a)],
        frames := (frames (ma_inner a))[v - ma_start a := InMemory p]\<rparr>\<rparr>
    \<and> inv w' (held (frames (ma_inner a')) + F) \<and> view w' = (view w)(v \<mapsto> pt_new_entry p (ma_perm a)) \<and> room w \<le> room w' + 3
    \<and> InMemory p \<notin># held (frames (ma_inner a)) + F \<and> content w' p = replicate 512 0
    \<and> (\<forall>q. InMemory q \<in># held (frames (ma_inner a)) + F \<longrightarrow> content w' q = content w q)"
proof -
  obtain p w1 where 1: "vm_frame_alloc vm w = Ret (Some p, w1)" "InMemory p \<notin># held (frames (ma_inner a)) + F"
    "inv w1 (add_mset (InMemory p) (held (frames (ma_inner a)) + F))" "view w1 = view w" "room w1 = room w - 1"
    "content w1 p = replicate 512 0" "\<forall>q. InMemory q \<in># held (frames (ma_inner a)) + F \<longrightarrow> content w1 q = content w q"
    using alloc_ok [OF w] fr(3) by auto
  have "view w1 v = None" "2 \<le> room w1" using 1 fr by simp_all
  from map_framed_ok [OF shape v fr(1) this 1(3)] show ?thesis
    using 1 by (fastforce simp: map_one_zeroed_unchecked_def unwrap_frame_def)
qed

lemma copy_on_write_ok:
  assumes shape: "lm_shape (ma_inner a)" and v: "ma_start a \<le> v" "v < ma_end a" "page_ok v"
    and fr: "frames (ma_inner a) ! (v - ma_start a) = InMemory p" "view w v = Some e" "3 \<le> room w"
    and w: "inv w (held (frames (ma_inner a)) + F)"
  shows "\<exists>p' a' w' act. copy_on_write vm v a w = Ret (p', a', w')
    \<and> a' = a\<lparr>ma_inner := (ma_inner a)\<lparr>active := act, frames := (frames (ma_inner a))[v - ma_start a := InMemory p']\<rparr>\<rparr>
    \<and> inv w' (held (frames (ma_inner a')) + F) \<and> content w' p' = content w p
    \<and> (\<forall>q. InMemory q \<in># held (frames (ma_inner a)) + F \<longrightarrow> content w' q = content w q)
    \<and> (if vm_strong_count vm w p = 1 then p' = p \<and> view w' = (view w)(v \<mapsto> pte_set_permission (ma_perm a) e)
       else InMemory p' \<notin># held (frames (ma_inner a)) + F \<and> view w' = (view w)(v \<mapsto> pt_new_entry p' (ma_perm a)))"
proof -
  let ?lm = "ma_inner a"
  define i where "i = v - ma_start a"
  have i: "lm_index ?lm v = Ret i" "i < length (frames ?lm)" "frames ?lm ! i = InMemory p"
    using lm_index_ok [OF shape, of v] v fr(1) by (simp_all add: ma_start_def ma_end_def i_def)
  let ?act = "filter (\<lambda>e. unat e \<noteq> i) (active ?lm)" and ?fs = "(frames ?lm)[i := Unallocated]"
  let ?lm1 = "?lm\<lparr>active := ?act, frames := ?fs\<rparr>"
  have rem: "remove_in_memory v ?lm = Ret (Some p, ?lm1)" using i by (simp add: remove_in_memory_def take_in_memory_def)
  have h: "held (frames ?lm) = add_mset (InMemory p) (held ?fs)" using held_clear [OF i(2)] i(3) by simp
  have i1: "lm_index ?lm1 v = Ret i" using i(1,2) by (auto simp: lm_index_def lm_start_def split: if_splits)
  show ?thesis
  proof (cases "vm_strong_count vm w p = 1")
    case True
    obtain w' where w': "vm_set_pte_flags vm v (ma_perm a) w = (Inr (), w')" "inv w' (held (frames ?lm) + F)"
      "view w' = (view w)(v \<mapsto> pte_set_permission (ma_perm a) e)"
      using set_flags_ok [OF w v(3) fr(2)] by blast
    have same: "(frames ?lm)[i := InMemory p] = frames ?lm" using i(3) list_update_id [of "frames ?lm" i] by simp
    have "copy_on_write vm v a w
        = Ret (p, a\<lparr>ma_inner := ?lm\<lparr>active := ?act @ [of_nat i], frames := (frames ?lm)[i := InMemory p]\<rparr>\<rparr>, w')"
      using rem i1 True w'(1) i(2) by (simp add: copy_on_write_def alloc_in_memory_def insert_in_memory_def)
    moreover have "\<forall>q. InMemory q \<in># held (frames ?lm) + F \<longrightarrow> content w' q = content w q"
      by (rule set_flags_keeps [OF w v(3) w'(1)])
    ultimately show ?thesis
      using True w' same h unfolding i_def [symmetric] by (fastforce simp del: of_nat_diff)
  next
    case False
    obtain w1 where w1: "vm_unmap vm v w = Ret w1" "inv w1 (held (frames ?lm) + F)" "view w1 = (view w)(v := None)"
      using unmap_ok [OF w v(3)] fr(2) by auto
    note k1 = unmap_keeps [OF w v(3) w1(1)]
    obtain p' w2 where w2: "vm_frame_alloc_uninit vm w1 = Ret (Some p', w2)" "InMemory p' \<notin># held (frames ?lm) + F"
      "inv w2 (add_mset (InMemory p') (held (frames ?lm) + F))" "view w2 = view w1" "room w2 = room w1 - 1"
      "\<forall>q. InMemory q \<in># held (frames ?lm) + F \<longrightarrow> content w2 q = content w1 q"
      using alloc_uninit_ok [OF w1(2)] k1 fr(3) by auto
    let ?a1 = "a\<lparr>ma_inner := ?lm1\<rparr>"
    have r2: "2 \<le> room w - Suc 0" using fr(3) by simp
    have a1: "lm_shape (ma_inner ?a1)" "ma_start ?a1 = ma_start a" "ma_end ?a1 = ma_end a"
      using shape by (simp_all add: lm_shape_def ma_start_def ma_end_def lm_start_def lm_end_def)
    obtain a' w3 where w3: "map_framed vm v ?a1 (p', w2) = Ret (p', a', w3)"
      "a' = a\<lparr>ma_inner := ?lm\<lparr>active := ?act @ [of_nat i], frames := ?fs[i := InMemory p']\<rparr>\<rparr>"
      "inv w3 (held (frames (ma_inner a')) + add_mset (InMemory p) F)" "view w3 = (view w2)(v \<mapsto> pt_new_entry p' (ma_perm a))"
      "\<forall>q. InMemory q \<in># add_mset (InMemory p') (held (frames ?lm) + F) \<longrightarrow> content w3 q = content w2 q"
      using map_framed_ok [OF a1(1), of v w2 p' "add_mset (InMemory p) F"] v w2 w1(3) k1 r2 i(2) h a1
      unfolding i_def [symmetric] by (auto simp add: i_def [symmetric] simp del: of_nat_diff)
    let ?w4 = "vm_copy_page vm p' p w3"
    have in3: "InMemory p' \<in># held (frames (ma_inner a')) + add_mset (InMemory p) F"
      using held_clear [of i "?fs[i := InMemory p']"] i(2) by (simp add: w3(2))
    note w4 = copy_ok [OF w3(3) in3, of p]
    have "inv ?w4 (add_mset (InMemory p) (held (frames (ma_inner a')) + F))" using w4 by simp
    from drop_ok [OF this] obtain w5 where w5: "vm_drop vm (InMemory p) ?w4 = Ret w5" "inv w5 (held (frames (ma_inner a')) + F)"
      "view w5 = view ?w4" by blast
    have c5: "content w5 = (content w3)(p' := content w3 p)" using drop_keeps [OF w5(1)] w4 by simp
    have "copy_on_write vm v a w = Ret (p', a', w5)"
      using rem False w1(1) w2(1) w3(1) w5(1) by (simp add: copy_on_write_def unwrap_frame_def)
    moreover have "content w3 p = content w p" "\<forall>q. InMemory q \<in># held (frames ?lm) + F \<longrightarrow> q \<noteq> p' \<and> content w3 q = content w q"
      using w3(5) w2(2,6) k1 h by auto
    ultimately show ?thesis
      using w5 w4 w3 w2 w1 c5 False h unfolding i_def [symmetric]
      by (intro exI [of _ p'] exI [of _ a'] exI [of _ w5] exI [of _ "?act @ [of_nat i]"]) (auto simp del: of_nat_diff)
  qed
qed

end

section \<open>Properties\<close>

text \<open>(C16) The bookkeeping of an area for reclaim stays exact, for areas of at most 65536 pages: a new area has it, and giving
  a page a frame, taking its frame and cutting the area in two keep it (the active list names exactly the pages in memory,
  each once, and the counters count the compressed and the swapped pages).  Taking a frame returns the frame of the page,
  and the two parts have together the frames of the area.\<close>

theorem linear_map_bookkeeping:
  assumes "lm_ok lm" "lm_start lm \<le> v" "v < lm_end lm"
  shows "(\<forall>l r. l < r \<and> r \<le> l + 2 ^ 16 \<longrightarrow> lm_ok (lm_new \<lparr>range_l = l, range_r = r\<rparr>))
    \<and> (frames lm ! (v - lm_start lm) = Unallocated \<longrightarrow> (\<exists>lm'. alloc_in_memory v p lm = Ret lm' \<and> lm_ok lm'
         \<and> frames lm' = (frames lm)[v - lm_start lm := InMemory p]))
    \<and> (\<exists>r lm'. remove_in_memory v lm = Ret (r, lm') \<and> lm_ok lm'
         \<and> (r, frames lm') = (case frames lm ! (v - lm_start lm) of
              InMemory p \<Rightarrow> (Some p, (frames lm)[v - lm_start lm := Unallocated]) | _ \<Rightarrow> (None, frames lm)))
    \<and> (lm_start lm < v \<longrightarrow> (\<exists>lm1 lm2. lm_into_two v lm = Ret (Inr lm2, lm1) \<and> lm_ok lm1 \<and> lm_ok lm2
         \<and> frames lm1 @ frames lm2 = frames lm \<and> lm_end lm1 = v \<and> lm_start lm2 = v))"
  using lm_new_ok alloc_in_memory_ok [OF assms] remove_in_memory_ok [OF assms] lm_into_two_ok [OF assms(1) _ assms(3)]
  by (intro conjI) blast+

theorem linear_map_bookkeeping_witness:
  "\<exists>lm'. alloc_in_memory 5 7 (lm_new \<lparr>range_l = 4, range_r = 6\<rparr>) = Ret lm' \<and> lm_ok lm'
     \<and> frames lm' = [Unallocated, InMemory 7]"
proof -
  let ?lm = "lm_new \<lparr>range_l = 4, range_r = 6\<rparr>"
  have f: "frames ?lm = [Unallocated, Unallocated]" "lm_start ?lm = 4" "lm_end ?lm = 6"
    by (simp_all add: lm_new_def lm_start_def lm_end_def numeral_2_eq_2)
  have ok: "lm_ok ?lm" by (rule lm_new_ok) simp_all
  have "lm_start ?lm \<le> 5" "5 < lm_end ?lm" using f by simp_all
  from linear_map_bookkeeping [OF ok this, of 7] show ?thesis unfolding f by auto
qed

text \<open>Reclaim returns only when the area has every index of the list; on any other it panics.\<close>

lemma oom_loop_in_range:
  "oom_loop vm lm idxs w = Ret x \<Longrightarrow> idx \<in> set idxs \<Longrightarrow> unat idx < length (frames lm)"
proof (induction idxs arbitrary: lm w)
  case (Cons i idxs)
  from Cons.prems(1) obtain r f w1 where i: "unat i < length (frames lm)"
    and r: "reclaim_one vm (frames lm ! unat i) w = Ret (r, f, w1)"
    by (auto simp: bind_outcome_Ret_iff split: if_splits)
  have "\<exists>lm' w'. oom_loop vm lm' idxs w' = Ret x \<and> length (frames lm') = length (frames lm)"
  proof (cases r)
    case (Inl e)
    then show ?thesis using Cons.prems(1) i r by (cases e) auto
  next
    case (Inr n)
    then obtain w2 where "oom_loop vm (case f of
          Compressed _ \<Rightarrow> lm\<lparr>frames := (frames lm)[unat i := f], compressed := compressed lm + 1\<rparr>
        | _ \<Rightarrow> lm\<lparr>frames := (frames lm)[unat i := f], swapped := swapped lm + 1\<rparr>) idxs w2 = Ret x"
      using Cons.prems(1) i r by (auto simp: bind_outcome_Ret_iff)
    moreover have "length (frames (case f of
          Compressed _ \<Rightarrow> lm\<lparr>frames := (frames lm)[unat i := f], compressed := compressed lm + 1\<rparr>
        | _ \<Rightarrow> lm\<lparr>frames := (frames lm)[unat i := f], swapped := swapped lm + 1\<rparr>)) = length (frames lm)"
      by (simp split: frame.splits)
    ultimately show ?thesis by blast
  qed
  then show ?case using Cons.IH Cons.prems(2) i by (metis set_ConsD)
qed simp

end
