(* ===== verification/Zram.thy ===== *)
theory Zram
  imports Id_Alloc
begin

text \<open>
  \<open>mm/zram.rs\<close>: the compressed-memory device that anonymous pages are moved to under memory
  pressure. Slot numbers are kept at their width of 16 bits. The LZ4 routines of the \<open>lz4_flex\<close>
  package are parameters: \<open>compress\<close> for \<open>compress_prepend_size\<close>, \<open>decompress\<close> for
  \<open>decompress_size_prepended\<close> (\<open>None\<close> for its error).
\<close>

section \<open>State and operations\<close>

type_synonym u16 = "16 word"

datatype zram_error = InvalidIndex | NoSpace | NotAllocated

record zram =
  zr_compressed :: "u8 list option list"
  zr_recycled :: "u16 list"
  zr_tail :: u16

text \<open>\<open>capacity\<close> is the capacity that \<open>Vec::with_capacity\<close> provides.\<close>

definition zram_new :: "nat \<Rightarrow> zram" where
  "zram_new capacity = \<lparr>zr_compressed = replicate capacity None, zr_recycled = [], zr_tail = 0\<rparr>"

definition zram_insert :: "u8 list \<Rightarrow> zram \<Rightarrow> ((zram_error + nat) \<times> zram) outcome" where
  "zram_insert data z =
     (let store = (\<lambda>zram_id z'.
            if zram_id < length (zr_compressed z')
            then Ret (Inr zram_id, z'\<lparr>zr_compressed := (zr_compressed z')[zram_id := Some data]\<rparr>)
            else Panic)
      in if zr_recycled z \<noteq> []
         then store (unat (last (zr_recycled z))) (z\<lparr>zr_recycled := butlast (zr_recycled z)\<rparr>)
         else if unat (zr_tail z) = length (zr_compressed z) then Ret (Inl NoSpace, z)
         else let z' = z\<lparr>zr_tail := zr_tail z + 1\<rparr> in store (unat (zr_tail z' - 1)) z')"

definition zram_get :: "zram \<Rightarrow> nat \<Rightarrow> zram_error + u8 list" where
  "zram_get z zram_id =
     (if zram_id \<ge> length (zr_compressed z) then Inl InvalidIndex
      else case zr_compressed z ! zram_id of
             Some compressed_data \<Rightarrow> Inr compressed_data
           | None \<Rightarrow> Inl NotAllocated)"

definition zram_remove :: "nat \<Rightarrow> zram \<Rightarrow> (zram_error + u8 list) \<times> zram" where
  "zram_remove zram_id z =
     (if zram_id \<ge> length (zr_compressed z) then (Inl InvalidIndex, z)
      else
        let z1 = (if zram_id = unat (zr_tail z - 1)
                  then z\<lparr>zr_tail := of_nat zram_id\<rparr>
                  else z\<lparr>zr_recycled := zr_recycled z @ [of_nat zram_id]\<rparr>);
            taken = zr_compressed z1 ! zram_id;
            z2 = z1\<lparr>zr_compressed := (zr_compressed z1)[zram_id := None]\<rparr>
        in case taken of
             Some compressed_data \<Rightarrow> (Inr compressed_data, z2)
           | None \<Rightarrow> (Inl NotAllocated, z2))"

text \<open>\<open>read\<close> returns the new content of the caller's buffer of length \<open>buf_len\<close>;
  \<open>copy_from_slice\<close> panics when the lengths differ.\<close>

definition zram_read ::
  "(u8 list \<Rightarrow> u8 list option) \<Rightarrow> nat \<Rightarrow> nat \<Rightarrow> zram \<Rightarrow> (zram_error + u8 list) outcome" where
  "zram_read decompress zram_id buf_len z =
     (case zram_get z zram_id of
        Inr compressed_data \<Rightarrow>
          (case decompress compressed_data of
             None \<Rightarrow> Panic
           | Some decompressed_data \<Rightarrow>
               if length decompressed_data = buf_len then Ret (Inr decompressed_data) else Panic)
      | Inl error \<Rightarrow> Ret (Inl error))"

definition zram_write ::
  "(u8 list \<Rightarrow> u8 list) \<Rightarrow> u8 list \<Rightarrow> zram \<Rightarrow> ((zram_error + nat) \<times> zram) outcome" where
  "zram_write compress buf z = zram_insert (compress buf) z"

definition zram_discard :: "nat \<Rightarrow> zram \<Rightarrow> (zram_error + unit) \<times> zram" where
  "zram_discard zram_id z =
     (case zram_remove zram_id z of (Inr _, z') \<Rightarrow> (Inr (), z') | (Inl error, z') \<Rightarrow> (Inl error, z'))"

text \<open>\<open>Drop for ZramTracker\<close>: \<open>discard(..).unwrap()\<close>.\<close>

definition zram_tracker_drop :: "nat \<Rightarrow> zram \<Rightarrow> zram outcome" where
  "zram_tracker_drop zram_id z =
     (case zram_discard zram_id z of (Inr _, z') \<Rightarrow> Ret z' | (Inl _, z') \<Rightarrow> Panic)"

lemmas zram_ops = zram_insert_def zram_get_def zram_remove_def zram_read_def zram_write_def
  zram_discard_def zram_tracker_drop_def

section \<open>Invariant\<close>

definition zram_invar :: "zram \<Rightarrow> bool" where
  "zram_invar z \<longleftrightarrow> length (zr_compressed z) < 2 ^ 16 \<and> unat (zr_tail z) \<le> length (zr_compressed z)
     \<and> distinct (zr_recycled z) \<and> (\<forall>r\<in>set (zr_recycled z). unat r < unat (zr_tail z))
     \<and> (\<forall>i<length (zr_compressed z). zr_compressed z ! i \<noteq> None \<longleftrightarrow>
          i < unat (zr_tail z) \<and> of_nat i \<notin> set (zr_recycled z))"

definition zram_used :: "zram \<Rightarrow> nat set" where
  "zram_used z = {i. i < length (zr_compressed z) \<and> zr_compressed z ! i \<noteq> None}"

definition zram_avail :: "zram \<Rightarrow> nat set" where
  "zram_avail z = {i. i < length (zr_compressed z) \<and> zr_compressed z ! i = None}"

lemma zram_new_invar:
  "capacity < 2 ^ 16 \<Longrightarrow> zram_invar (zram_new capacity) \<and> zram_used (zram_new capacity) = {}
     \<and> zram_avail (zram_new capacity) = {..<capacity}"
  by (auto simp: zram_invar_def zram_new_def zram_used_def zram_avail_def)

lemma u16_of_nat: "i < 2 ^ 16 \<Longrightarrow> unat (of_nat i :: u16) = i"
  by (simp add: unsigned_of_nat take_bit_nat_eq_self)

lemma u16_of_nat_eq: "i < 2 ^ 16 \<Longrightarrow> (of_nat i :: u16) = r \<longleftrightarrow> i = unat r"
  by (metis u16_of_nat of_nat_unat ucast_id)

lemma u16_pred: "(t :: u16) \<noteq> 0 \<Longrightarrow> unat (t - 1) = unat t - 1"
  using unat_sub [of 1 t] unat_gt_0 [of t] by (simp add: word_le_nat_alt Suc_le_eq)

lemma u16_succ: "unat (t :: u16) < n \<Longrightarrow> n < 2 ^ 16 \<Longrightarrow> unat (t + 1) = unat t + 1"
  by (simp add: unat_word_ariths)

text \<open>\<open>insert\<close> under the invariant: it never panics, fails only when every slot is taken, and
  otherwise fills a free slot and touches no other.\<close>

lemma zram_insert_cases [consumes 1, case_names full stored]:
  assumes inv: "zram_invar z"
  obtains (full) "zram_insert data z = Ret (Inl NoSpace, z)" "zram_avail z = {}"
  | (stored) i z' where "zram_insert data z = Ret (Inr i, z')" "i \<in> zram_avail z" "zram_invar z'"
      "zr_compressed z' = (zr_compressed z)[i := Some data]"
proof (cases "zr_recycled z" rule: rev_cases)
  case Nil
  let ?t = "unat (zr_tail z)"
  show ?thesis
  proof (cases "?t = length (zr_compressed z)")
    case True
    then have "zram_insert data z = Ret (Inl NoSpace, z)"
      by (simp add: zram_insert_def Nil)
    moreover have "zram_avail z = {}"
      using inv True Nil by (auto simp: zram_invar_def zram_avail_def)
    ultimately show ?thesis by (rule full)
  next
    case False
    then have t: "?t < length (zr_compressed z)" "length (zr_compressed z) < 2 ^ 16"
      using inv by (auto simp: zram_invar_def)
    let ?z = "z\<lparr>zr_tail := zr_tail z + 1, zr_compressed := (zr_compressed z)[?t := Some data]\<rparr>"
    have "zram_insert data z = Ret (Inr ?t, ?z)"
      using False t by (simp add: zram_insert_def Nil Let_def)
    moreover have "?t \<in> zram_avail z"
      using inv t by (auto simp: zram_invar_def zram_avail_def)
    moreover have "zram_invar ?z"
      using inv t Nil u16_succ [OF t] by (auto simp: zram_invar_def nth_list_update)
    ultimately show ?thesis by (rule stored) simp
  qed
next
  case (snoc rs r)
  let ?i = "unat r"
  let ?z = "z\<lparr>zr_recycled := rs, zr_compressed := (zr_compressed z)[?i := Some data]\<rparr>"
  have i: "?i < length (zr_compressed z)" "length (zr_compressed z) < 2 ^ 16" "?i < unat (zr_tail z)"
    "r \<notin> set rs"
    using inv snoc by (auto simp: zram_invar_def)
  then have "zram_insert data z = Ret (Inr ?i, ?z)"
    by (simp add: zram_insert_def snoc Let_def)
  moreover have "?i \<in> zram_avail z"
  proof -
    have "of_nat ?i \<in> set (zr_recycled z)"
      by (simp add: snoc)
    then have "zr_compressed z ! ?i = None"
      using inv i(1) unfolding zram_invar_def by blast
    then show ?thesis
      using i(1) by (simp add: zram_avail_def)
  qed
  moreover have "zram_invar ?z"
    using inv i snoc u16_of_nat_eq by (auto simp: zram_invar_def nth_list_update)
  ultimately show ?thesis by (rule stored) simp
qed

lemma zram_remove_used:
  assumes inv: "zram_invar z" and i: "i \<in> zram_used z"
  obtains data z' where "zr_compressed z ! i = Some data" "zram_remove i z = (Inr data, z')"
    "zram_invar z'" "zr_compressed z' = (zr_compressed z)[i := None]"
proof -
  obtain data where d: "zr_compressed z ! i = Some data" and l: "i < length (zr_compressed z)"
    using i by (auto simp: zram_used_def)
  have t: "i < unat (zr_tail z)" "of_nat i \<notin> set (zr_recycled z)" "i < 2 ^ 16"
    using inv l d by (auto simp: zram_invar_def)
  then have "zr_tail z \<noteq> 0" by auto
  note pred = u16_pred [OF this]
  let ?z1 = "if i = unat (zr_tail z - 1) then z\<lparr>zr_tail := of_nat i\<rparr>
      else z\<lparr>zr_recycled := zr_recycled z @ [of_nat i]\<rparr>"
  let ?z = "?z1\<lparr>zr_compressed := (zr_compressed z)[i := None]\<rparr>"
  have "zram_remove i z = (Inr data, ?z)"
  proof -
    have c: "zr_compressed ?z1 = zr_compressed z" by simp
    show ?thesis
      unfolding zram_remove_def Let_def c using d l by (simp split del: if_split)
  qed
  moreover have "zram_invar ?z"
  proof (cases "i = unat (zr_tail z - 1)")
    case True
    have "unat r < i" if "r \<in> set (zr_recycled z)" for r
    proof -
      have "unat r < unat (zr_tail z)" "r \<noteq> of_nat i"
        using inv that t(2) by (auto simp: zram_invar_def)
      moreover have "i \<noteq> unat r"
        using calculation(2) u16_of_nat_eq [OF t(3), of r] by metis
      moreover have "i = unat (zr_tail z) - 1"
        using True pred by simp
      ultimately show ?thesis by linarith
    qed
    then show ?thesis
      using inv True t l pred by (auto simp: zram_invar_def nth_list_update u16_of_nat)
  next
    case False
    then show ?thesis
      using inv t l u16_of_nat u16_of_nat_eq by (auto simp: zram_invar_def nth_list_update)
  qed
  ultimately show ?thesis
    using that d by simp
qed

text \<open>The slots as identifiers: \<open>insert\<close> hands one out, dropping its tracker gives it back.\<close>

definition zram_take :: "u8 list \<Rightarrow> zram \<Rightarrow> (nat \<times> zram) option" where
  "zram_take data z =
     (case zram_insert data z of Ret (Inr zram_id, z') \<Rightarrow> Some (zram_id, z') | _ \<Rightarrow> None)"

lemma zram_slot_sets:
  assumes "i < length (zr_compressed z)"
  shows "zr_compressed z' = (zr_compressed z)[i := Some d] \<Longrightarrow>
      zram_used z' = insert i (zram_used z) \<and> zram_avail z' = zram_avail z - {i}"
    and "zr_compressed z' = (zr_compressed z)[i := None] \<Longrightarrow>
      zram_used z' = zram_used z - {i} \<and> zram_avail z' = insert i (zram_avail z)"
  using assms by (auto simp: zram_used_def zram_avail_def nth_list_update split: if_splits)

interpretation zram: id_allocator "zram_take data" zram_tracker_drop zram_invar zram_used zram_avail
  for data
proof (unfold_locales, goal_cases)
  case (1 z i z')
  from 1(1) show ?case
  proof (cases rule: zram_insert_cases [where data = data])
    case full
    then show ?thesis using 1(2) by (simp add: zram_take_def)
  next
    case (stored j y)
    then have "j = i" "y = z'" using 1(2) by (simp_all add: zram_take_def)
    then show ?thesis
      using stored zram_slot_sets(1) [of i z z' data] by (auto simp: zram_avail_def)
  qed
next
  case (2 z)
  from 2(1) show ?case
    by (cases rule: zram_insert_cases [where data = data]) (use 2 in \<open>simp_all add: zram_take_def\<close>)
next
  case (3 z)
  then show ?case by (auto simp: zram_used_def zram_avail_def)
next
  case (4 z i)
  obtain d z' where r: "zram_remove i z = (Inr d, z')" "zram_invar z'"
    "zr_compressed z' = (zr_compressed z)[i := None]"
    using zram_remove_used [OF 4] by metis
  moreover have "i < length (zr_compressed z)"
    using 4(2) by (simp add: zram_used_def)
  ultimately show ?case
    using zram_slot_sets(2) by (simp add: zram_tracker_drop_def zram_discard_def)
qed

section \<open>Content\<close>

text \<open>The pages a client stored, by slot.\<close>

definition zram_view :: "(u8 list \<Rightarrow> u8 list option) \<Rightarrow> zram \<Rightarrow> nat \<Rightarrow> u8 list option" where
  "zram_view decompress z i =
     (if i < length (zr_compressed z) then Option.bind (zr_compressed z ! i) decompress else None)"

lemma zram_read_view:
  "zram_view decompress z i = Some page \<Longrightarrow> zram_read decompress i (length page) z = Ret (Inr page)"
  by (auto simp: zram_view_def zram_read_def zram_get_def split: if_splits option.splits
      simp: bind_eq_Some_conv)

text \<open>(C27) Writing a page to the compressed-memory device either reports that no slot is free, or
  puts it in a slot that was free, from which reading gives the page back, and leaves what every
  other slot reads as; the only assumption on LZ4 is that decompression inverts compression.\<close>

theorem zram_write_read:
  assumes "zram_invar z" and lz4: "\<And>b. decompress (compress b) = Some b"
  shows "(zram_write compress page z = Ret (Inl NoSpace, z) \<and> zram_avail z = {})
    \<or> (\<exists>i z'. zram_write compress page z = Ret (Inr i, z') \<and> zram_invar z' \<and> i \<in> zram_avail z
        \<and> zram_read decompress i (length page) z' = Ret (Inr page)
        \<and> zram_view decompress z' = (zram_view decompress z)(i := Some page))"
  using assms(1)
proof (cases rule: zram_insert_cases [where data = "compress page"])
  case full
  then show ?thesis by (simp add: zram_write_def)
next
  case (stored i z')
  have v: "zram_view decompress z' = (zram_view decompress z)(i := Some page)"
    using stored lz4 by (auto simp: zram_view_def zram_avail_def nth_list_update fun_eq_iff)
  then have "zram_read decompress i (length page) z' = Ret (Inr page)"
    by (intro zram_read_view) simp
  then show ?thesis
    using stored v by (auto simp: zram_write_def)
qed

theorem zram_write_read_witness:
  "zram_view Some (zram_new 2) 0 = None \<and>
   (\<exists>i z'. zram_write id [1, 2] (zram_new 2) = Ret (Inr i, z')
      \<and> zram_read Some i (length [1, 2 :: u8]) z' = Ret (Inr [1, 2]))"
proof -
  have "zram_invar (zram_new 2)" "zram_avail (zram_new 2) = {..<2}"
    using zram_new_invar [of 2] by simp_all
  then show ?thesis
    using zram_write_read [of "zram_new 2" Some id "[1, 2]"]
    by (auto simp: zram_view_def zram_new_def lessThan_empty_iff)
qed

text \<open>Dropping the tracker of an occupied slot never panics, frees exactly that slot and leaves
  what every other slot reads as.\<close>

theorem zram_drop_frames:
  assumes "zram_invar z" "i \<in> zram_used z"
  shows "\<exists>z'. zram_tracker_drop i z = Ret z' \<and> zram_invar z' \<and> zram_used z' = zram_used z - {i}
    \<and> zram_avail z' = insert i (zram_avail z)
    \<and> zram_view decompress z' = (zram_view decompress z)(i := None)"
proof -
  obtain d z' where r: "zram_remove i z = (Inr d, z')" "zram_invar z'"
    "zr_compressed z' = (zr_compressed z)[i := None]"
    using zram_remove_used [OF assms] by metis
  moreover have i: "i < length (zr_compressed z)"
    using assms(2) by (simp add: zram_used_def)
  moreover have "zram_view decompress z' = (zram_view decompress z)(i := None)"
    using r(3) i by (auto simp: zram_view_def nth_list_update fun_eq_iff)
  ultimately show ?thesis
    using zram_slot_sets(2) [OF i r(3)] by (simp add: zram_tracker_drop_def zram_discard_def)
qed

theorem zram_drop_frames_witness:
  "\<exists>z z'. zram_take [7] (zram_new 2) = Some (0, z) \<and> zram_tracker_drop 0 z = Ret z'
     \<and> zram_used z' = zram_used z - {0}"
proof -
  let ?z = "\<lparr>zr_compressed = [Some [7], None], zr_recycled = [], zr_tail = 1\<rparr>"
  have t: "zram_take [7] (zram_new 2) = Some (0, ?z)"
    by (simp add: zram_take_def zram_insert_def zram_new_def numeral_2_eq_2)
  have "zram_invar ?z" "0 \<in> zram_used ?z"
    using zram.alloc_Some [OF _ t] zram_new_invar [of 2] by auto
  from zram_drop_frames [OF this] t show ?thesis by blast
qed

text \<open>Whatever sequence of page-outs and tracker drops the clients perform on the initial
  2048-slot device, no drop panics, no slot is held by two trackers, and the occupied slots are
  exactly the held ones.\<close>

theorem zram_history_safe:
  "\<exists>held z. id_history (zram_take data) zram_tracker_drop es [] (zram_new 2048) = Ret (held, z)
     \<and> zram_invar z \<and> distinct held \<and> zram_used z = set held"
proof -
  have "zram_invar (zram_new 2048) \<and> zram_used (zram_new 2048) = {}"
    using zram_new_invar [of 2048] by simp
  then show ?thesis
    using zram.history_safe [of "zram_new 2048" "[]" data es] by fastforce
qed

text \<open>\<open>remove\<close> updates the free-slot bookkeeping before it looks at the slot, so discarding a
  slot that is already free reports \<open>NotAllocated\<close> and yet queues the slot once more: after one such
  call two inserts return the same slot and the first page is lost.\<close>

theorem zram_double_discard_aliases:
  "\<exists>z1 z2 z3. zram_discard 0 \<lparr>zr_compressed = [None, Some a, None], zr_recycled = [0], zr_tail = 2\<rparr>
       = (Inl NotAllocated, z1)
     \<and> zram_insert b z1 = Ret (Inr 0, z2) \<and> zram_insert c z2 = Ret (Inr 0, z3)
     \<and> zram_get z3 0 = Inr c \<and> zram_invar \<lparr>zr_compressed = [None, Some a, None],
         zr_recycled = [0], zr_tail = 2\<rparr>"
  by (auto simp: zram_ops zram_invar_def less_Suc_eq numeral_3_eq_3)

end
