(* ===== verification/Swap.thy ===== *)
theory Swap
  imports Id_Alloc Address
begin

text \<open>
  \<open>fs/swap.rs\<close>: the swap space, a bitmap of page slots over blocks that the file system reserved for it.  The block
  device is an argument: reading a number of bytes from a block on, and writing bytes from a block on.
\<close>

section \<open>Operations\<close>

definition BLOCK_SZ :: nat where "BLOCK_SZ = 512"
definition BLK_PER_PG :: nat where "BLK_PER_PG = PAGE_SIZE div BLOCK_SZ"
definition SWAP_SIZE :: nat where "SWAP_SIZE = 1024 * 1024"

lemma BLK_PER_PG_eq: "BLK_PER_PG = 8"
  by (simp add: BLK_PER_PG_def BLOCK_SZ_def layout_defs)

record 'd block_dev =
  bd_read :: "nat \<Rightarrow> nat \<Rightarrow> 'd \<Rightarrow> u8 list"
  bd_write :: "nat \<Rightarrow> u8 list \<Rightarrow> 'd \<Rightarrow> 'd"

record swap =
  bitmap :: "u64 list"
  block_ids :: "nat list"

definition swap_new :: "(nat \<Rightarrow> nat list) \<Rightarrow> nat \<Rightarrow> swap" where
  "swap_new alloc_blocks sz =
     \<lparr>bitmap = replicate (sz * (SWAP_SIZE div PAGE_SIZE) div 64) 0, block_ids = alloc_blocks (sz * (SWAP_SIZE div BLOCK_SZ))\<rparr>"

definition read_page :: "'d block_dev \<Rightarrow> nat list \<Rightarrow> nat \<Rightarrow> 'd \<Rightarrow> u8 list outcome" where
  "read_page dev ids len d =
     (if ids ! 0 + BLK_PER_PG - 1 = ids ! (BLK_PER_PG - 1) then Ret (bd_read dev (ids ! 0) len d) else Panic)"

definition write_page :: "'d block_dev \<Rightarrow> nat list \<Rightarrow> u8 list \<Rightarrow> 'd \<Rightarrow> 'd outcome" where
  "write_page dev ids buf d =
     (if ids ! 0 + (BLK_PER_PG - 1) = ids ! (BLK_PER_PG - 1) then Ret (bd_write dev (ids ! 0) buf d) else Panic)"

definition swap_set_bit :: "nat \<Rightarrow> swap \<Rightarrow> swap outcome" where
  "swap_set_bit pos s =
     (if pos div 64 < length (bitmap s)
      then Ret (s\<lparr>bitmap := (bitmap s)[pos div 64 := bitmap s ! (pos div 64) OR push_bit (pos mod 64) 1]\<rparr>) else Panic)"

definition swap_clear_bit :: "nat \<Rightarrow> swap \<Rightarrow> swap outcome" where
  "swap_clear_bit pos s =
     (if pos div 64 < length (bitmap s)
      then Ret (s\<lparr>bitmap := (bitmap s)[pos div 64 := bitmap s ! (pos div 64) AND NOT (push_bit (pos mod 64) 1)]\<rparr>) else Panic)"

fun alloc_page_loop :: "nat \<Rightarrow> u64 list \<Rightarrow> nat option" where
  "alloc_page_loop i [] = None"
| "alloc_page_loop i (b # bs) =
     (if b = - 1 then alloc_page_loop (Suc i) bs else Some (i * 64 + trailing_zeros (NOT b)))"

definition alloc_page :: "swap \<Rightarrow> nat option" where
  "alloc_page s = alloc_page_loop 0 (bitmap s)"

definition get_block_ids :: "swap \<Rightarrow> nat \<Rightarrow> nat list outcome" where
  "get_block_ids s swap_id =
     (if swap_id * BLK_PER_PG + BLK_PER_PG \<le> length (block_ids s)
      then Ret (take BLK_PER_PG (drop (swap_id * BLK_PER_PG) (block_ids s))) else Panic)"

definition swap_read :: "'d block_dev \<Rightarrow> nat \<Rightarrow> nat \<Rightarrow> swap \<times> 'd \<Rightarrow> u8 list outcome" where
  "swap_read dev swap_id len = (\<lambda>(s, d). bind_outcome (get_block_ids s swap_id) (\<lambda>ids. read_page dev ids len d))"

definition swap_write :: "'d block_dev \<Rightarrow> u8 list \<Rightarrow> swap \<times> 'd \<Rightarrow> (nat \<times> (swap \<times> 'd)) outcome" where
  "swap_write dev buf = (\<lambda>(s, d).
     case alloc_page s of
       None \<Rightarrow> Panic
     | Some swap_id \<Rightarrow>
         bind_outcome (get_block_ids s swap_id) (\<lambda>ids.
           bind_outcome (write_page dev ids buf d) (\<lambda>d.
             bind_outcome (swap_set_bit swap_id s) (\<lambda>s. Ret (swap_id, (s, d))))))"

definition swap_discard :: "nat \<Rightarrow> swap \<Rightarrow> swap outcome" where
  "swap_discard swap_id s = swap_clear_bit swap_id s"

section \<open>Slots\<close>

definition swap_used :: "swap \<Rightarrow> nat set" where
  "swap_used s = {i. i < 64 * length (bitmap s) \<and> bit (bitmap s ! (i div 64)) (i mod 64)}"

definition swap_avail :: "swap \<Rightarrow> nat set" where
  "swap_avail s = {i. i < 64 * length (bitmap s) \<and> \<not> bit (bitmap s ! (i div 64)) (i mod 64)}"

text \<open>Every slot has its own run of adjacent blocks.\<close>

definition swap_invar :: "swap \<Rightarrow> bool" where
  "swap_invar s \<longleftrightarrow> length (block_ids s) = 64 * length (bitmap s) * BLK_PER_PG \<and> distinct (block_ids s)
     \<and> (\<forall>i < 64 * length (bitmap s). \<forall>k < BLK_PER_PG. block_ids s ! (i * BLK_PER_PG + k) = block_ids s ! (i * BLK_PER_PG) + k)"

lemma alloc_page_loop_Some:
  "alloc_page_loop n bs = Some i \<Longrightarrow> n * 64 \<le> i \<and> i < 64 * (n + length bs) \<and> \<not> bit (bs ! (i div 64 - n)) (i mod 64)"
proof (induction n bs rule: alloc_page_loop.induct)
  case (2 n b bs)
  show ?case
  proof (cases "b = - 1")
    case True
    then have "Suc n * 64 \<le> i \<and> i < 64 * (Suc n + length bs) \<and> \<not> bit (bs ! (i div 64 - Suc n)) (i mod 64)"
      using 2 by simp
    moreover from this have "Suc n \<le> i div 64" using div_le_mono [of "Suc n * 64" i 64] by simp
    then have "i div 64 - n = Suc (i div 64 - Suc n)" by simp
    ultimately show ?thesis by simp
  next
    case False
    then have nz: "NOT b \<noteq> 0" by (metis bit.double_compl bit.compl_zero)
    note tz = trailing_zeros_spec [OF nz]
    have "i = n * 64 + trailing_zeros (NOT b)" using 2(2) False by simp
    moreover have "trailing_zeros (NOT b) < 64" "\<not> bit b (trailing_zeros (NOT b))" using tz(1,2) by (simp_all add: bit_not_iff)
    ultimately show ?thesis by simp
  qed
qed simp

lemma alloc_page_loop_None: "alloc_page_loop n bs = None \<Longrightarrow> k < length bs \<Longrightarrow> bs ! k = - 1"
  by (induction n bs arbitrary: k rule: alloc_page_loop.induct) (auto simp: nth_Cons split: if_splits nat.splits)

lemma alloc_page_Some: "alloc_page s = Some i \<Longrightarrow> i \<in> swap_avail s"
  using alloc_page_loop_Some [of 0 "bitmap s" i] by (simp add: alloc_page_def swap_avail_def)

lemma alloc_page_None:
  assumes "alloc_page s = None"
  shows "swap_avail s = {}"
proof -
  have "bitmap s ! (i div 64) = - 1" if "i < 64 * length (bitmap s)" for i
    using alloc_page_loop_None [of 0 "bitmap s" "i div 64"] assms that by (simp add: alloc_page_def less_mult_imp_div_less mult.commute)
  then show ?thesis by (simp add: swap_avail_def)
qed

lemma bit_ops:
  assumes "j < 64 * length (bitmap s)"
  shows "\<exists>s'. swap_set_bit j s = Ret s' \<and> swap_used s' = insert j (swap_used s) \<and> swap_avail s' = swap_avail s - {j}
      \<and> length (bitmap s') = length (bitmap s) \<and> block_ids s' = block_ids s"
    and "\<exists>s'. swap_clear_bit j s = Ret s' \<and> swap_used s' = swap_used s - {j} \<and> swap_avail s' = insert j (swap_avail s)
      \<and> length (bitmap s') = length (bitmap s) \<and> block_ids s' = block_ids s"
proof -
  have j: "j div 64 < length (bitmap s)" using assms by (simp add: less_mult_imp_div_less mult.commute)
  have eq: "i = j \<longleftrightarrow> i div 64 = j div 64 \<and> i mod 64 = j mod 64" for i :: nat by (metis div_mult_mod_eq)
  show "\<exists>s'. swap_set_bit j s = Ret s' \<and> swap_used s' = insert j (swap_used s) \<and> swap_avail s' = swap_avail s - {j}
      \<and> length (bitmap s') = length (bitmap s) \<and> block_ids s' = block_ids s"
    using j assms by (auto simp: swap_set_bit_def swap_used_def swap_avail_def nth_list_update bit_simps eq)
  show "\<exists>s'. swap_clear_bit j s = Ret s' \<and> swap_used s' = swap_used s - {j} \<and> swap_avail s' = insert j (swap_avail s)
      \<and> length (bitmap s') = length (bitmap s) \<and> block_ids s' = block_ids s"
    using j assms by (auto simp: swap_clear_bit_def swap_used_def swap_avail_def nth_list_update bit_simps eq)
qed

text \<open>The slots as identifiers; writing hands one out, dropping its tracker gives it back.\<close>

definition swap_take :: "swap \<Rightarrow> (nat \<times> swap) option" where
  "swap_take s =
     (case alloc_page s of
        None \<Rightarrow> None
      | Some i \<Rightarrow> (case swap_set_bit i s of Ret s' \<Rightarrow> Some (i, s') | Panic \<Rightarrow> None))"

lemma swap_take_Some:
  assumes "swap_invar s" "alloc_page s = Some i"
  obtains s' where "swap_set_bit i s = Ret s'" "swap_take s = Some (i, s')" "swap_invar s'" "i \<in> swap_avail s"
    "swap_used s' = insert i (swap_used s)" "swap_avail s' = swap_avail s - {i}" "block_ids s' = block_ids s"
    "length (bitmap s') = length (bitmap s)"
proof -
  have i: "i \<in> swap_avail s" using assms(2) by (rule alloc_page_Some)
  then have "i < 64 * length (bitmap s)" by (simp add: swap_avail_def)
  from bit_ops(1) [OF this] obtain s' where s': "swap_set_bit i s = Ret s'" "swap_used s' = insert i (swap_used s)"
    "swap_avail s' = swap_avail s - {i}" "length (bitmap s') = length (bitmap s)" "block_ids s' = block_ids s" by blast
  moreover have "swap_invar s'" using s' assms(1) by (simp add: swap_invar_def)
  ultimately show ?thesis using that i assms(2) by (simp add: swap_take_def)
qed

interpretation swap: id_allocator swap_take swap_discard swap_invar swap_used swap_avail
proof (unfold_locales, goal_cases)
  case (1 s i s')
  then obtain j where a: "alloc_page s = Some j" by (auto simp: swap_take_def split: option.splits)
  show ?case by (rule swap_take_Some [OF 1(1) a]) (use 1(2) in auto)
next
  case (2 s)
  show ?case
  proof (cases "alloc_page s")
    case None
    then show ?thesis by (rule alloc_page_None)
  next
    case (Some i)
    show ?thesis by (rule swap_take_Some [OF 2(1) Some]) (use 2(2) in simp)
  qed
next
  case (3 s)
  then show ?case by (auto simp: swap_used_def swap_avail_def)
next
  case (4 s i)
  then have "i < 64 * length (bitmap s)" by (simp add: swap_used_def)
  from bit_ops(2) [OF this] show ?case using 4(1) by (auto simp: swap_discard_def swap_invar_def)
qed

lemma get_block_ids_ok:
  assumes "swap_invar s" "i < 64 * length (bitmap s)"
  shows "\<exists>ids. get_block_ids s i = Ret ids \<and> ids ! 0 = block_ids s ! (i * BLK_PER_PG)
    \<and> ids ! 0 + (BLK_PER_PG - 1) = ids ! (BLK_PER_PG - 1)"
proof -
  have len: "i * BLK_PER_PG + BLK_PER_PG \<le> length (block_ids s)"
    using assms by (simp add: swap_invar_def BLK_PER_PG_eq)
  have run: "block_ids s ! (i * BLK_PER_PG + 7) = block_ids s ! (i * BLK_PER_PG) + 7"
    using assms by (simp add: swap_invar_def BLK_PER_PG_eq)
  show ?thesis using len run by (simp add: get_block_ids_def BLK_PER_PG_eq)
qed

text \<open>Different slots lie in different blocks.\<close>

lemma slots_apart:
  assumes "swap_invar s" "i < 64 * length (bitmap s)" "j < 64 * length (bitmap s)" "i \<noteq> j"
  shows "block_ids s ! (i * BLK_PER_PG) + BLK_PER_PG \<le> block_ids s ! (j * BLK_PER_PG)
    \<or> block_ids s ! (j * BLK_PER_PG) + BLK_PER_PG \<le> block_ids s ! (i * BLK_PER_PG)"
proof (rule ccontr)
  let ?a = "block_ids s ! (i * BLK_PER_PG)" and ?b = "block_ids s ! (j * BLK_PER_PG)"
  assume "\<not> ?thesis"
  then obtain k l where kl: "k < BLK_PER_PG" "l < BLK_PER_PG" "?a + k = ?b + l"
    by (cases "?a \<le> ?b") (auto simp: BLK_PER_PG_eq intro: that [of "?b - ?a" 0] that [of 0 "?a - ?b"])
  then have "block_ids s ! (i * BLK_PER_PG + k) = block_ids s ! (j * BLK_PER_PG + l)"
    using assms(1-3) by (simp add: swap_invar_def)
  moreover have "i * BLK_PER_PG + k < length (block_ids s)" "j * BLK_PER_PG + l < length (block_ids s)"
    using assms(1-3) kl(1,2) by (auto simp: swap_invar_def BLK_PER_PG_eq)
  ultimately have "i * BLK_PER_PG + k = j * BLK_PER_PG + l"
    using assms(1) by (simp add: swap_invar_def nth_eq_iff_index_eq)
  then show False using kl(1,2) assms(4) by (simp add: BLK_PER_PG_eq)
qed

text \<open>(C28) Swapping out a page stores it in a slot that was free, from which swapping in gives it back, and leaves what
  every other slot reads as; it panics exactly when no slot is free.  The device is assumed to read what was last written
  and to keep other blocks.\<close>

theorem swap_write_read:
  assumes "swap_invar s" "length page = PAGE_SIZE"
    and dev: "\<And>b p d. length p = PAGE_SIZE \<Longrightarrow> bd_read dev b PAGE_SIZE (bd_write dev b p d) = p"
      "\<And>b c p d. length p = PAGE_SIZE \<Longrightarrow> b + BLK_PER_PG \<le> c \<or> c + BLK_PER_PG \<le> b \<Longrightarrow>
         bd_read dev c PAGE_SIZE (bd_write dev b p d) = bd_read dev c PAGE_SIZE d"
  shows "(swap_write dev page (s, d) = Panic \<and> swap_avail s = {})
    \<or> (\<exists>i s' d'. swap_write dev page (s, d) = Ret (i, (s', d')) \<and> swap_invar s' \<and> i \<in> swap_avail s
        \<and> swap_used s' = insert i (swap_used s)
        \<and> swap_read dev i PAGE_SIZE (s', d') = Ret page
        \<and> (\<forall>j \<in> swap_used s. swap_read dev j PAGE_SIZE (s', d') = swap_read dev j PAGE_SIZE (s, d)))"
proof (cases "alloc_page s")
  case None
  then show ?thesis using alloc_page_None by (simp add: swap_write_def)
next
  case (Some i)
  obtain s' where s': "swap_set_bit i s = Ret s'" "swap_invar s'" "i \<in> swap_avail s" "swap_used s' = insert i (swap_used s)"
    "block_ids s' = block_ids s" "length (bitmap s') = length (bitmap s)"
    by (rule swap_take_Some [OF assms(1) Some])
  have i: "i < 64 * length (bitmap s)" using s'(3) by (simp add: swap_avail_def)
  let ?d = "bd_write dev (block_ids s ! (i * BLK_PER_PG)) page d"
  have rd: "swap_read dev j PAGE_SIZE (t, e) = Ret (bd_read dev (block_ids s ! (j * BLK_PER_PG)) PAGE_SIZE e)"
    if "j < 64 * length (bitmap s)" "swap_invar t" "block_ids t = block_ids s" "length (bitmap t) = length (bitmap s)" for j t e
    using get_block_ids_ok [OF that(2)] that by (fastforce simp: swap_read_def read_page_def BLK_PER_PG_eq)
  have "swap_write dev page (s, d) = Ret (i, (s', ?d))"
    using get_block_ids_ok [OF assms(1) i] Some s'(1) by (auto simp: swap_write_def write_page_def)
  moreover have "swap_read dev i PAGE_SIZE (s', ?d) = Ret page" using rd [OF i s'(2,5,6)] dev(1) assms(2) by simp
  moreover have "swap_read dev j PAGE_SIZE (s', ?d) = swap_read dev j PAGE_SIZE (s, d)" if "j \<in> swap_used s" for j
  proof -
    have j: "j < 64 * length (bitmap s)" "i \<noteq> j" using that s'(3) by (auto simp: swap_used_def swap_avail_def)
    then show ?thesis
      using rd [OF j(1) s'(2,5,6)] rd [OF j(1) assms(1)] dev(2) [OF assms(2) slots_apart [OF assms(1) i j]] by simp
  qed
  ultimately show ?thesis using s' by blast
qed

definition byte_dev :: "(nat \<Rightarrow> u8) block_dev" where
  "byte_dev = \<lparr>bd_read = (\<lambda>b n d. map d [b * BLOCK_SZ..<b * BLOCK_SZ + n]),
     bd_write = (\<lambda>b p d x. if b * BLOCK_SZ \<le> x \<and> x < b * BLOCK_SZ + length p then p ! (x - b * BLOCK_SZ) else d x)\<rparr>"

lemma byte_dev_laws:
  assumes "length p = PAGE_SIZE"
  shows "bd_read byte_dev b PAGE_SIZE (bd_write byte_dev b p d) = p"
    and "b + BLK_PER_PG \<le> c \<or> c + BLK_PER_PG \<le> b \<Longrightarrow>
      bd_read byte_dev c PAGE_SIZE (bd_write byte_dev b p d) = bd_read byte_dev c PAGE_SIZE d"
  using assms by (auto simp: byte_dev_def BLK_PER_PG_eq BLOCK_SZ_def layout_defs intro: nth_equalityI)

lemma swap_new_invar:
  shows "swap_invar (swap_new (\<lambda>n. [k..<k + n]) sz)"
    and "0 < sz \<Longrightarrow> swap_avail (swap_new (\<lambda>n. [k..<k + n]) sz) \<noteq> {}"
proof -
  have len: "length (bitmap (swap_new (\<lambda>n. [k..<k + n]) sz)) = 4 * sz"
    "block_ids (swap_new (\<lambda>n. [k..<k + n]) sz) = [k..<k + 2048 * sz]"
    by (simp_all add: swap_new_def SWAP_SIZE_def BLOCK_SZ_def layout_defs mult.commute)
  show "swap_invar (swap_new (\<lambda>n. [k..<k + n]) sz)"
    unfolding swap_invar_def len by (simp add: BLK_PER_PG_eq)
  assume "0 < sz"
  then have "0 \<in> swap_avail (swap_new (\<lambda>n. [k..<k + n]) sz)"
    using len(1) by (auto simp: swap_avail_def swap_new_def SWAP_SIZE_def layout_defs)
  then show "swap_avail (swap_new (\<lambda>n. [k..<k + n]) sz) \<noteq> {}" by auto
qed

theorem swap_write_read_witness:
  "\<exists>i s' d'. swap_write byte_dev (replicate PAGE_SIZE 7) (swap_new (\<lambda>n. [100..<100 + n]) 16, \<lambda>_. 0) = Ret (i, (s', d'))
     \<and> swap_read byte_dev i PAGE_SIZE (s', d') = Ret (replicate PAGE_SIZE 7)"
proof -
  have "swap_avail (swap_new (\<lambda>n. [100..<100 + n]) 16) \<noteq> {}" using swap_new_invar(2) [of 16 100] by linarith
  moreover have "length (replicate PAGE_SIZE (7 :: u8)) = PAGE_SIZE" by (rule length_replicate)
  ultimately show ?thesis
    using swap_write_read [OF swap_new_invar(1), of "replicate PAGE_SIZE 7" byte_dev 100 16 "\<lambda>_. 0"] byte_dev_laws by blast
qed

end
