(* ===== verification/Vm_World.thy ===== *)
theory Vm_World
  imports Map_Area Zram Swap Le_Bytes
begin

text \<open>
  The world that areas work on in the riscv build: an Sv39 page table, physical memory with the frame allocator, the
  compressed memory and swap devices, and the counts of the \<open>Arc\<close> trackers.  It satisfies the laws that \<open>Map_Area\<close> uses.
\<close>

section \<open>State and operations\<close>

record 'd vm_world =
  vw_pt :: sv39_page_table
  vw_m :: machine
  vw_rc :: "phys_page_num \<Rightarrow> nat"
  vw_zram :: zram
  vw_zrc :: "nat \<Rightarrow> nat"
  vw_swap :: swap
  vw_src :: "nat \<Rightarrow> nat"
  vw_dev :: 'd

text \<open>The build: whether frames are checked on release, the out-of-memory handler, LZ4 and the block device.\<close>

record 'd build =
  b_debug :: bool
  b_oom :: "nat \<Rightarrow> machine \<Rightarrow> bool \<times> machine"
  b_compress :: "u8 list \<Rightarrow> u8 list"
  b_decompress :: "u8 list \<Rightarrow> u8 list option"
  b_dev :: "'d block_dev"

definition page_bytes :: "machine \<Rightarrow> phys_page_num \<Rightarrow> u8 list" where
  "page_bytes m p = dwords_le (map (dwords m p) [0..<512])"

definition store_page :: "phys_page_num \<Rightarrow> u8 list \<Rightarrow> machine \<Rightarrow> machine" where
  "store_page p bs m =
     (let ws = of_dwords_le 512 bs in m\<lparr>dwords := (dwords m)(p := \<lambda>i. if i < 512 then ws ! i else dwords m p i)\<rparr>)"

definition on_pt :: "(sv39_page_table \<times> machine) outcome \<Rightarrow> 'd vm_world \<Rightarrow> 'd vm_world outcome" where
  "on_pt r w = bind_outcome r (\<lambda>(pt, m). Ret (w\<lparr>vw_pt := pt, vw_m := m\<rparr>))"

definition new_tracker :: "(phys_page_num option \<times> machine) outcome \<Rightarrow> 'd vm_world \<Rightarrow> (phys_page_num option \<times> 'd vm_world) outcome" where
  "new_tracker r w = bind_outcome r (\<lambda>(p, m). Ret (p, case p of
     None \<Rightarrow> w\<lparr>vw_m := m\<rparr> | Some p \<Rightarrow> w\<lparr>vw_m := m, vw_rc := (vw_rc w)(p := 1)\<rparr>))"

text \<open>Dropping a tracker gives the resource back with the last one.\<close>

definition drop_tracker :: "'d build \<Rightarrow> frame \<Rightarrow> 'd vm_world \<Rightarrow> 'd vm_world outcome" where
  "drop_tracker b f w =
     (case f of
        InMemory p \<Rightarrow>
          if 1 < vw_rc w p then Ret (w\<lparr>vw_rc := (vw_rc w)(p := vw_rc w p - 1)\<rparr>)
          else bind_outcome (frame_dealloc (b_debug b) p (vw_m w)) (\<lambda>m. Ret (w\<lparr>vw_m := m, vw_rc := (vw_rc w)(p := 0)\<rparr>))
      | Compressed i \<Rightarrow>
          if 1 < vw_zrc w i then Ret (w\<lparr>vw_zrc := (vw_zrc w)(i := vw_zrc w i - 1)\<rparr>)
          else bind_outcome (zram_tracker_drop i (vw_zram w)) (\<lambda>z. Ret (w\<lparr>vw_zram := z, vw_zrc := (vw_zrc w)(i := 0)\<rparr>))
      | SwappedOut i \<Rightarrow>
          if 1 < vw_src w i then Ret (w\<lparr>vw_src := (vw_src w)(i := vw_src w i - 1)\<rparr>)
          else bind_outcome (swap_discard i (vw_swap w)) (\<lambda>s. Ret (w\<lparr>vw_swap := s, vw_src := (vw_src w)(i := 0)\<rparr>))
      | Unallocated \<Rightarrow> Ret w)"

definition clone_tracker :: "frame \<Rightarrow> 'd vm_world \<Rightarrow> 'd vm_world" where
  "clone_tracker f w =
     (case f of
        InMemory p \<Rightarrow> w\<lparr>vw_rc := (vw_rc w)(p := vw_rc w p + 1)\<rparr>
      | Compressed i \<Rightarrow> w\<lparr>vw_zrc := (vw_zrc w)(i := vw_zrc w i + 1)\<rparr>
      | SwappedOut i \<Rightarrow> w\<lparr>vw_src := (vw_src w)(i := vw_src w i + 1)\<rparr>
      | Unallocated \<Rightarrow> w)"

definition sv39_vm :: "'d build \<Rightarrow> 'd vm_world vm" where
  "sv39_vm b = \<lparr>
     vm_is_mapped = (\<lambda>w v. pt_is_mapped (vw_pt w) (vw_m w) v),
     vm_map = (\<lambda>v p fl w. on_pt (pt_map (b_oom b) v p fl (vw_pt w, vw_m w)) w),
     vm_unmap = (\<lambda>v w. on_pt (pt_unmap v (vw_pt w, vw_m w)) w),
     vm_set_pte_flags = (\<lambda>v fl w. case pt_set_pte_flags v fl (vw_pt w, vw_m w) of (r, pt, m) \<Rightarrow> (r, w\<lparr>vw_pt := pt, vw_m := m\<rparr>)),
     vm_block_and_ret_mut = (\<lambda>v w. case pt_block_and_ret_mut v (vw_pt w, vw_m w) of (r, pt, m) \<Rightarrow> (r, w\<lparr>vw_pt := pt, vw_m := m\<rparr>)),
     vm_frame_alloc = (\<lambda>w. new_tracker (frame_alloc (b_oom b) (vw_m w)) w),
     vm_frame_alloc_uninit = (\<lambda>w. new_tracker (frame_alloc_uninit (b_oom b) (vw_m w)) w),
     vm_drop = drop_tracker b,
     vm_clone = clone_tracker,
     vm_strong_count = vw_rc,
     vm_copy_page = (\<lambda>dst src w. w\<lparr>vw_m := store_page dst (page_bytes (vw_m w) src) (vw_m w)\<rparr>),
     vm_zram_write = (\<lambda>p w. bind_outcome (zram_write (b_compress b) (page_bytes (vw_m w) p) (vw_zram w)) (\<lambda>(r, z). Ret
       (case r of Inl _ \<Rightarrow> (Inl (), w\<lparr>vw_zram := z\<rparr>) | Inr i \<Rightarrow> (Inr i, w\<lparr>vw_zram := z, vw_zrc := (vw_zrc w)(i := 1)\<rparr>)))),
     vm_zram_read = (\<lambda>i p w. bind_outcome (zram_read (b_decompress b) i PAGE_SIZE (vw_zram w)) (\<lambda>r. case r of
       Inl _ \<Rightarrow> Panic | Inr bs \<Rightarrow> Ret (w\<lparr>vw_m := store_page p bs (vw_m w)\<rparr>))),
     vm_swap_write = (\<lambda>p w. bind_outcome (swap_write (b_dev b) (page_bytes (vw_m w) p) (vw_swap w, vw_dev w)) (\<lambda>(i, s, d).
       Ret (i, w\<lparr>vw_swap := s, vw_dev := d, vw_src := (vw_src w)(i := 1)\<rparr>))),
     vm_swap_read = (\<lambda>i p w. bind_outcome (swap_read (b_dev b) i PAGE_SIZE (vw_swap w, vw_dev w)) (\<lambda>bs.
       Ret (w\<lparr>vw_m := store_page p bs (vw_m w)\<rparr>)))\<rparr>"

section \<open>Pages and frames\<close>

text \<open>The canonical pages: both halves of the 39-bit address space.  On them the three indexes identify the page.\<close>

definition canonical :: "virt_page_num \<Rightarrow> bool" where
  "canonical v \<longleftrightarrow> v < 2 ^ 26 \<or> (2 ^ 52 - 2 ^ 26 \<le> v \<and> v < 2 ^ 52)"

definition world_view :: "'d vm_world \<Rightarrow> virt_page_num \<Rightarrow> pte option" where
  "world_view w v = (if canonical v then pt_view (vw_pt w, vw_m w) (pt_key v) else None)"

text \<open>Every held frame has a tracker, and what has a tracker is allocated; data frames are not page-table frames.\<close>

definition world_inv :: "nat \<Rightarrow> 'd vm_world \<Rightarrow> frame multiset \<Rightarrow> bool" where
  "world_inv l w F \<longleftrightarrow> pt_invar l (vw_pt w, vw_m w)
     \<and> (\<forall>p. count F (InMemory p) \<le> vw_rc w p) \<and> (\<forall>p. 0 < vw_rc w p \<longrightarrow> p \<in> sfa_used l (falloc (vw_m w)) - set (pt_frames (vw_pt w)))
     \<and> zram_invar (vw_zram w) \<and> (\<forall>i. count F (Compressed i) \<le> vw_zrc w i) \<and> (\<forall>i. 0 < vw_zrc w i \<longrightarrow> i \<in> zram_used (vw_zram w))
     \<and> swap_invar (vw_swap w) \<and> (\<forall>i. count F (SwappedOut i) \<le> vw_src w i) \<and> (\<forall>i. 0 < vw_src w i \<longrightarrow> i \<in> swap_used (vw_swap w))"

lemma pt_key_canonical:
  assumes "canonical v" "canonical u"
  shows "pt_key v = pt_key u \<longleftrightarrow> v = u"
proof -
  have m: "pt_key (x mod 2 ^ 27) = pt_key x" for x
    using indexes_mod [of 3 x] by (simp add: pt_key_def)
  have c: "x mod 2 ^ 27 = (if x < 2 ^ 26 then x else x - (2 ^ 25 - 1) * 2 ^ 27)" if can: "canonical x" for x :: nat
  proof (cases "x < 2 ^ 26")
    case False
    then obtain y where y: "x = y + (2 ^ 25 - 1) * 2 ^ 27" "y < 2 ^ 27"
      using can le_Suc_ex [of "(2 ^ 25 - 1) * 2 ^ 27" x] by (auto simp: canonical_def add.commute)
    have "x mod 2 ^ 27 = y mod 2 ^ 27" unfolding y(1) by (rule mod_mult_self1)
    then show ?thesis using False y by simp
  qed simp
  have "v mod 2 ^ 27 = u mod 2 ^ 27 \<Longrightarrow> v = u"
    using assms c [OF assms(1)] c [OF assms(2)] by (auto simp: canonical_def split: if_splits)
  then show ?thesis
    using pt_key_inj [of "v mod 2 ^ 27" "u mod 2 ^ 27"] m by (metis mod_less_divisor zero_less_numeral zero_less_power)
qed

lemma world_view_update:
  assumes "canonical v" "pt_view (pt, m) = (pt_view (vw_pt w, vw_m w))(pt_key v := x)"
  shows "world_view (w\<lparr>vw_pt := pt, vw_m := m\<rparr>) = (world_view w)(v := x)"
  using assms pt_key_canonical [OF _ assms(1)] by (auto simp: world_view_def fun_eq_iff)

text \<open>Page tables do not depend on the allocator.\<close>

lemma node_falloc [simp]: "node (m\<lparr>falloc := s\<rparr>) p q = node m p q"
  by (induction q arbitrary: p) simp_all

lemma entry_falloc [simp]: "entry (m\<lparr>falloc := s\<rparr>) t i = entry m t i"
  by (simp add: entry_def cong: if_cong)

lemma pt_view_falloc [simp]: "pt_view (pt, m\<lparr>falloc := s\<rparr>) = pt_view (pt, m)"
  by (auto simp: pt_view_def pte_view_def fun_eq_iff)

lemma pt_invar_falloc:
  assumes "pt_invar l (pt, m)" "sfa_invar l s" "sfa_end s = sfa_end (falloc m)" "set (pt_frames pt) \<subseteq> sfa_used l s"
  shows "pt_invar l (pt, m\<lparr>falloc := s\<rparr>)"
  using assms by (simp add: pt_invar_def pt_ok_def tree_def)

lemma pt_is_mapped_view: "pt_is_mapped pt m v \<longleftrightarrow> pt_view (pt, m) (pt_key v) \<noteq> None"
proof -
  obtain q i where k: "pt_key v = q @ [i]" "path (pt_key v)" by (rule pt_key_split)
  show ?thesis
    using find_pte_view [OF k, of pt m] by (cases "pt_view (pt, m) (pt_key v)") (auto simp: pt_is_mapped_def)
qed

text \<open>The frames and the allocator are left alone by \<open>unmap\<close> and \<open>set_pte_flags\<close>.\<close>

lemma pt_write_frames:
  "pt_unmap v (pt, m) = Ret (pt', m') \<Longrightarrow> pt' = pt \<and> falloc m' = falloc m"
  "pt_update g v (pt, m) = (r, pt', m') \<Longrightarrow> pt' = pt \<and> falloc m' = falloc m"
  by (auto simp: pt_unmap_def pt_update_def split: option.splits if_splits)

lemma world_inv_pt:
  assumes "world_inv l w F" "pt_invar l (vw_pt w, m)" "falloc m = falloc (vw_m w)"
  shows "world_inv l (w\<lparr>vw_pt := vw_pt w, vw_m := m\<rparr>) F"
  using assms by (simp add: world_inv_def)

lemma sfa_dealloc_ok:
  assumes "pt_invar l (pt, m)" "p \<in> sfa_used l (falloc m) - set (pt_frames pt)"
  shows "\<exists>s. sfa_dealloc dbg p (falloc m) = Ret s \<and> pt_invar l (pt, m\<lparr>falloc := s\<rparr>) \<and> sfa_used l s = sfa_used l (falloc m) - {p}"
proof -
  have i: "sfa_invar l (falloc m)" "set (pt_frames pt) \<subseteq> sfa_used l (falloc m)"
    using assms(1) by (auto simp: pt_invar_def pt_ok_def)
  obtain s where s: "sfa_dealloc dbg p (falloc m) = Ret s" "sfa_used l s = sfa_used l (falloc m) - {p}" "sfa_invar l s"
    using frames.dealloc_used [OF i(1), of p dbg] assms(2) by auto
  moreover have "sfa_end s = sfa_end (falloc m)" using s(1) by (auto simp: sfa_dealloc_def split: if_splits)
  ultimately show ?thesis using pt_invar_falloc [OF assms(1)] i(2) assms(2) by auto
qed

lemma drop_tracker_ok:
  assumes "world_inv l w (add_mset f F)"
  shows "\<exists>w'. drop_tracker b f w = Ret w' \<and> world_inv l w' F \<and> world_view w' = world_view w"
proof (cases f)
  case (InMemory p)
  have c: "count F (InMemory p) < vw_rc w p" using assms unfolding InMemory world_inv_def by (metis count_add_mset Suc_le_lessD)
  show ?thesis
  proof (cases "1 < vw_rc w p")
    case True
    then show ?thesis using assms c by (auto simp: InMemory drop_tracker_def world_inv_def world_view_def split: if_splits)
  next
    case False
    then obtain s where "sfa_dealloc (b_debug b) p (falloc (vw_m w)) = Ret s" "pt_invar l (vw_pt w, (vw_m w)\<lparr>falloc := s\<rparr>)"
      "sfa_used l s = sfa_used l (falloc (vw_m w)) - {p}"
      using sfa_dealloc_ok [of l "vw_pt w" "vw_m w" p "b_debug b"] assms c by (auto simp: world_inv_def)
    then show ?thesis
      using assms c False by (auto simp: InMemory drop_tracker_def frame_dealloc_def world_inv_def world_view_def split: if_splits)
  qed
next
  case (Compressed i)
  have c: "count F (Compressed i) < vw_zrc w i" using assms unfolding Compressed world_inv_def by (metis count_add_mset Suc_le_lessD)
  show ?thesis
  proof (cases "1 < vw_zrc w i")
    case True
    then show ?thesis using assms c by (auto simp: Compressed drop_tracker_def world_inv_def world_view_def split: if_splits)
  next
    case False
    then obtain z where "zram_tracker_drop i (vw_zram w) = Ret z" "zram_invar z" "zram_used z = zram_used (vw_zram w) - {i}"
      using zram.dealloc_used [of "vw_zram w" i] assms c by (auto simp: world_inv_def)
    then show ?thesis
      using assms c False by (auto simp: Compressed drop_tracker_def world_inv_def world_view_def split: if_splits)
  qed
next
  case (SwappedOut i)
  have c: "count F (SwappedOut i) < vw_src w i" using assms unfolding SwappedOut world_inv_def by (metis count_add_mset Suc_le_lessD)
  show ?thesis
  proof (cases "1 < vw_src w i")
    case True
    then show ?thesis using assms c by (auto simp: SwappedOut drop_tracker_def world_inv_def world_view_def split: if_splits)
  next
    case False
    then obtain s where "swap_discard i (vw_swap w) = Ret s" "swap_invar s" "swap_used s = swap_used (vw_swap w) - {i}"
      using swap.dealloc_used [of "vw_swap w" i] assms c by (auto simp: world_inv_def)
    then show ?thesis
      using assms c False by (auto simp: SwappedOut drop_tracker_def world_inv_def world_view_def split: if_splits)
  qed
next
  case Unallocated
  then show ?thesis using assms by (auto simp: drop_tracker_def world_inv_def)
qed

interpretation sv39_vm: vm_laws "sv39_vm b" "world_inv l" world_view canonical for b l
proof (unfold_locales, goal_cases)
  case (1 w F v)
  then show ?case by (simp add: sv39_vm_def pt_is_mapped_view world_view_def)
next
  case (2 w F v)
  obtain e where "pt_view (vw_pt w, vw_m w) (pt_key v) = Some e" using 2(3) by (auto simp: world_view_def split: if_splits)
  then obtain pt m where u: "pt_unmap v (vw_pt w, vw_m w) = Ret (pt, m)" "pt_invar l (pt, m)"
    "pt_view (pt, m) = (pt_view (vw_pt w, vw_m w))(pt_key v := None)"
    using pt_unmap_ok [of l "(vw_pt w, vw_m w)" v e] 2(1) by (auto simp: world_inv_def)
  then show ?case
    using pt_write_frames(1) [OF u(1)] world_inv_pt [OF 2(1)] world_view_update [OF 2(2) u(3)]
    by (auto simp: sv39_vm_def on_pt_def)
next
  case (3 w f F)
  then show ?case using drop_tracker_ok by (simp add: sv39_vm_def)
next
  case (4 w)
  then show ?case by (simp add: sv39_vm_def drop_tracker_def)
next
  case (5 w F v fl)
  then show ?case
    using pt_update_view [of l "(vw_pt w, vw_m w)" "pte_set_permission fl" v]
    by (simp add: sv39_vm_def world_inv_def world_view_def pt_set_pte_flags_def)
next
  case (6 w F v e fl)
  have v: "pt_view (vw_pt w, vw_m w) (pt_key v) = Some e" using 6(2,3) by (simp add: world_view_def)
  have "pte_is_valid e" by (metis pt_slot world_inv_def 6(1) v)
  then have "pte_is_valid (pte_set_permission fl e)" by (simp add: pte_bits bit_set_permission)
  then obtain pt m where u: "pt_set_pte_flags v fl (vw_pt w, vw_m w) = (Inr (), pt, m)" "pt_invar l (pt, m)"
    "pt_view (pt, m) = (pt_view (vw_pt w, vw_m w))(pt_key v := Some (pte_set_permission fl e))"
    using pt_update_view [of l "(vw_pt w, vw_m w)" "pte_set_permission fl" v] 6(1) v
    by (auto simp: world_inv_def pt_set_pte_flags_def)
  then show ?case
    using pt_write_frames(2) [OF u(1) [unfolded pt_set_pte_flags_def]] world_inv_pt [OF 6(1)] world_view_update [OF 6(2) u(3)]
    by (auto simp: sv39_vm_def)
qed

section \<open>Allocating and copying\<close>

definition world_room :: "'d vm_world \<Rightarrow> nat" where "world_room w = unallocated_frames (vw_m w)"

definition world_content :: "'d vm_world \<Rightarrow> phys_page_num \<Rightarrow> u64 list" where
  "world_content w p = map (dwords (vw_m w) p) [0..<512]"

text \<open>A page table only depends on its own frames.\<close>

lemma node_agree:
  assumes "tree m root F" "\<forall>t \<in> F. dwords m' t = dwords m t" "path q" "length q \<le> 2"
  shows "node m' root q = node m root q"
  using assms(3,4)
proof (induction q rule: rev_induct)
  case (snoc i q)
  then have "node m' root q = node m root q" by simp
  moreover have "entry m' t i = entry m t i" if "node m root q = Some t" for t
  proof -
    have "t \<in> F" using treeD(1) [OF assms(1) _ _ that] snoc.prems by simp
    then show ?thesis using assms(2) by (simp add: entry_def)
  qed
  ultimately show ?case unfolding node_snoc by (cases "node m root q") auto
qed simp

lemma pt_agree:
  assumes inv: "pt_invar l (pt, m)" and d: "\<forall>t \<in> set (pt_frames pt). dwords m' t = dwords m t"
    and s: "sfa_invar l (falloc m')" "sfa_end (falloc m') = sfa_end (falloc m)" "set (pt_frames pt) \<subseteq> sfa_used l (falloc m')"
  shows "pt_invar l (pt, m')" "pt_view (pt, m') = pt_view (pt, m)"
proof -
  have t: "tree m (root_ppn pt) (set (pt_frames pt))" using inv by (simp add: pt_invar_def pt_ok_def)
  note n = node_agree [OF t d]
  have "tree m' (root_ppn pt) (set (pt_frames pt))"
    using t n unfolding tree_def by metis
  then show "pt_invar l (pt, m')" using inv s by (simp add: pt_invar_def pt_ok_def)
  have "pte_view m' (root_ppn pt) js = pte_view m (root_ppn pt) js" if js: "path js" "length js = 3" for js
  proof -
    have b: "path (butlast js)" "length (butlast js) \<le> 2" using js by (auto dest: in_set_butlastD)
    have "entry m' t (last js) = entry m t (last js)" if "node m (root_ppn pt) (butlast js) = Some t" for t
      using treeD(1) [OF t b that] d by (simp add: entry_def)
    then show ?thesis unfolding pte_view_def n [OF b] by (cases "node m (root_ppn pt) (butlast js)") auto
  qed
  then show "pt_view (pt, m') = pt_view (pt, m)" by (auto simp: pt_view_def fun_eq_iff)
qed

lemma find_pte_frame:
  assumes "pt_invar l (pt, m)" "find_pte pt m v = Some (t, i)"
  shows "t \<in> set (pt_frames pt)"
proof -
  obtain q j where k: "pt_key v = q @ [j]" "path q" "length q = 2" "path (pt_key v)" by (rule pt_key_split)
  obtain e where "pt_view (pt, m) (pt_key v) = Some e" using find_pte_view(1) [OF k(1,4), of pt m] assms(2) by fastforce
  from find_pte_view(2) [OF k(1,4) this] have "node m (root_ppn pt) q = Some t" using assms(2) by auto
  then show ?thesis using treeD(1) [of m "root_ppn pt" "set (pt_frames pt)" q t] assms(1) k(2,3) by (simp add: pt_invar_def pt_ok_def)
qed

text \<open>A frame taken from the free list.\<close>

lemma new_frame_ok:
  assumes w: "world_inv l w F" and p: "p \<in> sfa_avail (falloc (vw_m w))"
    and m: "sfa_invar l (falloc m)" "sfa_used l (falloc m) = insert p (sfa_used l (falloc (vw_m w)))"
      "sfa_avail (falloc m) = sfa_avail (falloc (vw_m w)) - {p}" "sfa_end (falloc m) = sfa_end (falloc (vw_m w))"
      "\<forall>q. q \<noteq> p \<longrightarrow> dwords m q = dwords (vw_m w) q"
  defines "w' \<equiv> w\<lparr>vw_m := m, vw_rc := (vw_rc w)(p := 1)\<rparr>"
  shows "InMemory p \<notin># F" "world_inv l w' (add_mset (InMemory p) F)" "world_view w' = world_view w"
    "world_room w' = world_room w - 1" "InMemory q \<in># F \<Longrightarrow> world_content w' q = world_content w q"
proof -
  have ok: "pt_invar l (vw_pt w, vw_m w)" and s: "sfa_invar l (falloc (vw_m w))"
    "set (pt_frames (vw_pt w)) \<subseteq> sfa_used l (falloc (vw_m w))"
    using w by (auto simp: world_inv_def pt_invar_def pt_ok_def)
  have np: "p \<notin> sfa_used l (falloc (vw_m w))" using frames.used_avail [OF s(1)] p by blast
  show nF: "InMemory p \<notin># F"
  proof
    assume "InMemory p \<in># F"
    then have "0 < vw_rc w p" using w unfolding world_inv_def by (metis count_greater_zero_iff order_less_le_trans)
    then show False using w np by (simp add: world_inv_def)
  qed
  then have c: "count F (InMemory p) = 0" by (simp add: not_in_iff)
  have "dwords m t = dwords (vw_m w) t" if "t \<in> set (pt_frames (vw_pt w))" for t
    using m(5) s(2) np that by (metis subsetD)
  then have "\<forall>t \<in> set (pt_frames (vw_pt w)). dwords m t = dwords (vw_m w) t" ..
  note ag = pt_agree [OF ok this m(1,4)]
  have fr: "set (pt_frames (vw_pt w)) \<subseteq> sfa_used l (falloc m)" using s(2) m(2) by blast
  then show "world_inv l w' (add_mset (InMemory p) F)"
    using w ag(1) c m(2) np s(2) unfolding world_inv_def w'_def by auto
  show "world_view w' = world_view w" using ag(2) [OF fr] by (simp add: world_view_def w'_def fun_eq_iff)
  show "world_room w' = world_room w - 1"
    using p m(1,3) s(1) by (simp add: world_room_def w'_def unallocated_frames_def sfa_unallocated_card)
  show "InMemory q \<in># F \<Longrightarrow> world_content w' q = world_content w q" using nF m(5) by (auto simp: world_content_def w'_def)
qed

lemma room_avail: "world_inv l w F \<Longrightarrow> 0 < world_room w \<Longrightarrow> sfa_avail (falloc (vw_m w)) \<noteq> {}"
  by (auto simp: world_room_def unallocated_frames_def world_inv_def pt_invar_def pt_ok_def sfa_unallocated_card)

lemma frame_alloc_uninit_direct:
  assumes "sfa_invar l (falloc m)" "sfa_avail (falloc m) \<noteq> {}"
  shows "\<exists>ppn m'. frame_alloc_uninit oom m = Ret (Some ppn, m') \<and> ppn \<in> sfa_avail (falloc m)
    \<and> sfa_invar l (falloc m') \<and> sfa_used l (falloc m') = insert ppn (sfa_used l (falloc m))
    \<and> sfa_avail (falloc m') = sfa_avail (falloc m) - {ppn} \<and> sfa_end (falloc m') = sfa_end (falloc m) \<and> dwords m' = dwords m"
proof -
  obtain ppn s where t: "sfa_take (falloc m) = Some (ppn, s)"
    using frames.alloc_succeeds [OF assms] by blast
  then have "frame_alloc_uninit oom m = Ret (Some ppn, m\<lparr>falloc := s\<rparr>)"
    by (simp add: frame_alloc_uninit_def sfa_alloc_uninit_def)
  moreover have "sfa_end s = sfa_end (falloc m)" using t by (auto simp: sfa_take_def split: if_splits)
  ultimately show ?thesis using frames.alloc_Some [OF assms(1) t] by auto
qed

interpretation sv39_mem: vm_memory "sv39_vm b" "world_inv l" world_view canonical world_room world_content for b l
proof (unfold_locales, goal_cases)
  case (1 w F)
  have s: "sfa_invar l (falloc (vw_m w))" using 1(1) by (simp add: world_inv_def pt_invar_def pt_ok_def)
  obtain p m where a: "frame_alloc (b_oom b) (vw_m w) = Ret (Some p, m)" "p \<in> sfa_avail (falloc (vw_m w))"
    "sfa_invar l (falloc m)" "sfa_used l (falloc m) = insert p (sfa_used l (falloc (vw_m w)))"
    "sfa_avail (falloc m) = sfa_avail (falloc (vw_m w)) - {p}" "sfa_end (falloc m) = sfa_end (falloc (vw_m w))"
    "\<forall>i<512. dwords m p i = 0" "\<forall>q. q \<noteq> p \<longrightarrow> dwords m q = dwords (vw_m w) q"
    using frame_alloc_direct [OF s room_avail [OF 1]] by blast
  have "map (dwords m p) [0..<512] = replicate 512 0" using a(7) by (intro nth_equalityI) auto
  then show ?case
    using a(1) new_frame_ok [OF 1(1) a(2-6,8)]
    by (intro exI [of _ p] exI [of _ "w\<lparr>vw_m := m, vw_rc := (vw_rc w)(p := 1)\<rparr>"])
      (simp add: sv39_vm_def new_tracker_def world_content_def)
next
  case (2 w F)
  have s: "sfa_invar l (falloc (vw_m w))" using 2(1) by (simp add: world_inv_def pt_invar_def pt_ok_def)
  obtain p m where a: "frame_alloc_uninit (b_oom b) (vw_m w) = Ret (Some p, m)" "p \<in> sfa_avail (falloc (vw_m w))"
    "sfa_invar l (falloc m)" "sfa_used l (falloc m) = insert p (sfa_used l (falloc (vw_m w)))"
    "sfa_avail (falloc m) = sfa_avail (falloc (vw_m w)) - {p}" "sfa_end (falloc m) = sfa_end (falloc (vw_m w))"
    "dwords m = dwords (vw_m w)"
    using frame_alloc_uninit_direct [OF s room_avail [OF 2]] by blast
  have "\<forall>q. q \<noteq> p \<longrightarrow> dwords m q = dwords (vw_m w) q" using a(7) by simp
  then show ?case
    using a(1) new_frame_ok [OF 2(1) a(2-6)]
    by (intro exI [of _ p] exI [of _ "w\<lparr>vw_m := m, vw_rc := (vw_rc w)(p := 1)\<rparr>"])
      (simp add: sv39_vm_def new_tracker_def)
next
  case (3 w F v p fl)
  have v: "pt_view (vw_pt w, vw_m w) (pt_key v) = None" using 3(2,3) by (simp add: world_view_def)
  have ok: "pt_invar l (vw_pt w, vw_m w)" using 3(1) by (simp add: world_inv_def)
  obtain pt m where a: "pt_map (b_oom b) v p fl (vw_pt w, vw_m w) = Ret (pt, m)" "pt_invar l (pt, m)"
    "pt_view (pt, m) = (pt_view (vw_pt w, vw_m w))(pt_key v \<mapsto> pt_new_entry p fl)"
    "sfa_used l (falloc m) - set (pt_frames pt) = sfa_used l (falloc (vw_m w)) - set (pt_frames (vw_pt w))"
    "\<forall>x. x \<notin> set (pt_frames pt) \<longrightarrow> dwords m x = dwords (vw_m w) x" "unallocated_frames (vw_m w) \<le> unallocated_frames m + 2"
    using pt_map_ok [OF ok v, of "b_oom b" p fl] 3(4) by (auto simp: world_room_def)
  have "world_inv l (w\<lparr>vw_pt := pt, vw_m := m\<rparr>) F" using 3(1) a(2,4) by (simp add: world_inv_def)
  moreover have "world_content (w\<lparr>vw_pt := pt, vw_m := m\<rparr>) q = world_content w q" if "InMemory q \<in># F" for q
  proof -
    have "0 < vw_rc w q" using 3(1) that unfolding world_inv_def by (metis count_greater_zero_iff order_less_le_trans)
    then have "q \<notin> set (pt_frames pt)" using 3(1) a(4) by (auto simp: world_inv_def)
    then show ?thesis using a(5) by (simp add: world_content_def)
  qed
  ultimately show ?case using a(1,6) world_view_update [OF 3(2) a(3)] by (simp add: sv39_vm_def on_pt_def world_room_def)
next
  case (4 w F v w')
  have ok: "pt_invar l (vw_pt w, vw_m w)" using 4(1) by (simp add: world_inv_def)
  obtain t i where f: "find_pte (vw_pt w) (vw_m w) v = Some (t, i)" and w': "vw_m w' = mem_write t i pte_empty (vw_m w)"
    using 4(3) by (auto simp: sv39_vm_def on_pt_def pt_unmap_def split: option.splits if_splits)
  have "0 < vw_rc w q" if "InMemory q \<in># F" for q
    using 4(1) that unfolding world_inv_def by (metis count_greater_zero_iff order_less_le_trans)
  then have "q \<noteq> t" if "InMemory q \<in># F" for q using 4(1) that find_pte_frame [OF ok f] by (auto simp: world_inv_def)
  then show ?case by (auto simp: world_room_def world_content_def unallocated_frames_def w' dwords_mem_write)
next
  case (5 w F v fl r w')
  have ok: "pt_invar l (vw_pt w, vw_m w)" using 5(1) by (simp add: world_inv_def)
  have rc: "0 < vw_rc w q" if "InMemory q \<in># F" for q
    using 5(1) that unfolding world_inv_def by (metis count_greater_zero_iff order_less_le_trans)
  show ?case
  proof (cases "find_pte (vw_pt w) (vw_m w) v")
    case None
    then show ?thesis using 5(3) by (auto simp: sv39_vm_def pt_set_pte_flags_def pt_update_def world_content_def)
  next
    case (Some x)
    obtain t i where x: "x = (t, i)" by force
    have "q \<noteq> t" if "InMemory q \<in># F" for q
      using rc [OF that] 5(1) find_pte_frame [OF ok, of v t i] Some x by (auto simp: world_inv_def)
    then show ?thesis using 5(3) Some x by (auto simp: sv39_vm_def pt_set_pte_flags_def pt_update_def world_content_def dwords_mem_write)
  qed
next
  case (6 f w w')
  then show ?case
    by (cases f) (auto simp: sv39_vm_def drop_tracker_def frame_dealloc_def bind_outcome_Ret_iff world_content_def fun_eq_iff split: if_splits)
next
  case (7 w F d p)
  have ok: "pt_invar l (vw_pt w, vw_m w)" using 7(1) by (simp add: world_inv_def)
  have "0 < vw_rc w d" using 7 unfolding world_inv_def by (metis count_greater_zero_iff order_less_le_trans)
  then have d: "d \<notin> set (pt_frames (vw_pt w))" using 7(1) by (simp add: world_inv_def)
  let ?m = "store_page d (page_bytes (vw_m w) p) (vw_m w)"
  have b: "of_dwords_le 512 (page_bytes (vw_m w) p) = map (dwords (vw_m w) p) [0..<512]"
    using of_dwords_le [of "map (dwords (vw_m w) p) [0..<512]"] by (simp add: page_bytes_def)
  have m: "falloc ?m = falloc (vw_m w)" "\<forall>q. q \<noteq> d \<longrightarrow> dwords ?m q = dwords (vw_m w) q"
    "\<forall>i<512. dwords ?m d i = dwords (vw_m w) p i"
    using b by (auto simp: store_page_def Let_def)
  have "dwords ?m t = dwords (vw_m w) t" if "t \<in> set (pt_frames (vw_pt w))" for t using m(2) d that by metis
  then have "\<forall>t \<in> set (pt_frames (vw_pt w)). dwords ?m t = dwords (vw_m w) t" ..
  then have ag: "pt_invar l (vw_pt w, ?m)" "pt_view (vw_pt w, ?m) = pt_view (vw_pt w, vw_m w)"
    using pt_agree [OF ok, of ?m] m(1) ok by (auto simp: pt_invar_def pt_ok_def)
  have "world_inv l (w\<lparr>vw_m := ?m\<rparr>) F" using 7(1) ag(1) m(1) by (simp add: world_inv_def)
  moreover have "world_view (w\<lparr>vw_m := ?m\<rparr>) = world_view w" using ag(2) by (simp add: world_view_def fun_eq_iff)
  moreover have "world_content (w\<lparr>vw_m := ?m\<rparr>) = (world_content w)(d := world_content w p)"
    using m(2,3) by (auto simp: world_content_def fun_eq_iff)
  ultimately show ?case by (simp add: sv39_vm_def)
qed

end
