(* ===== verification/Memory_Set.thy ===== *)
theory Memory_Set
  imports Vm_World Fd_Table
begin

text \<open>
  \<open>mm/memory_set.rs\<close>: the areas of an address space and the operations behind \<open>mmap\<close>, \<open>munmap\<close>, \<open>mprotect\<close> and
  \<open>brk\<close>.  The page table of the address space is part of the world of \<open>'w vm\<close>.
\<close>

section \<open>Areas of an address space\<close>

definition MMAP_BASE :: nat where "MMAP_BASE = 0x60000000"
definition MMAP_END :: nat where "MMAP_END = 0x80000000"
definition SKIP_NUM :: nat where "SKIP_NUM = 2"
definition USER_HEAP_SIZE :: nat where "USER_HEAP_SIZE = PAGE_SIZE * 0x20"
definition ENOMEM :: int where "ENOMEM = - 12"
definition EACCES :: int where "EACCES = - 13"

definition MAP_PRIVATE :: usize where "MAP_PRIVATE = 0x02"
definition MAP_FIXED :: usize where "MAP_FIXED = 0x10"
definition MAP_ANONYMOUS :: usize where "MAP_ANONYMOUS = 0x20"

abbreviation has_flags :: "'a::len word \<Rightarrow> 'a word \<Rightarrow> bool" where
  "has_flags w f \<equiv> w AND f = f"

definition covers :: "virt_page_num \<Rightarrow> 'f map_area \<Rightarrow> bool" where
  "covers vpn a \<longleftrightarrow> ma_start a \<le> vpn \<and> vpn < ma_end a"

text \<open>\<open>Vec::remove\<close>, \<open>Vec::insert\<close> (both panic out of range) and dropping an area.\<close>

definition drop_area :: "'w vm \<Rightarrow> 'f map_area \<Rightarrow> 'w \<Rightarrow> 'w outcome" where
  "drop_area vm a w = drop_all vm (frames (ma_inner a)) w"

definition remove_area :: "'w vm \<Rightarrow> nat \<Rightarrow> 'f map_area list \<Rightarrow> 'w \<Rightarrow> ('f map_area list \<times> 'w) outcome" where
  "remove_area vm idx areas w =
     (if length areas \<le> idx then Panic
      else bind_outcome (drop_area vm (areas ! idx) w) (\<lambda>w. Ret (take idx areas @ drop (Suc idx) areas, w)))"

primrec remove_areas :: "'w vm \<Rightarrow> nat list \<Rightarrow> 'f map_area list \<Rightarrow> 'w \<Rightarrow> ('f map_area list \<times> 'w) outcome" where
  "remove_areas vm [] areas w = Ret (areas, w)"
| "remove_areas vm (idx # idxs) areas w =
     bind_outcome (remove_area vm idx areas w) (\<lambda>(areas, w). remove_areas vm idxs areas w)"

definition insert_area :: "nat \<Rightarrow> 'f map_area \<Rightarrow> 'f map_area list \<Rightarrow> 'f map_area list outcome" where
  "insert_area idx a areas = (if length areas < idx then Panic else Ret (take idx areas @ a # drop idx areas))"

fun find_index :: "('a \<Rightarrow> bool) \<Rightarrow> 'a list \<Rightarrow> nat option" where
  "find_index P [] = None"
| "find_index P (x # xs) = (if P x then Some 0 else map_option Suc (find_index P xs))"

definition remove_area_with_start_vpn ::
  "'w vm \<Rightarrow> virt_page_num \<Rightarrow> 'f map_area list \<Rightarrow> 'w \<Rightarrow> ((memory_error + unit) \<times> 'f map_area list \<times> 'w) outcome" where
  "remove_area_with_start_vpn vm start_vpn areas w =
     (case find_index (\<lambda>a. ma_start a = start_vpn) areas of
        Some idx \<Rightarrow>
          bind_outcome (ma_unmap vm (areas ! idx) w) (\<lambda>(r, a, w).
            bind_outcome (remove_area vm idx (areas[idx := a]) w) (\<lambda>(areas, w). Ret (r, areas, w)))
      | None \<Rightarrow> Ret (Inl AreaNotFound, areas, w))"

text \<open>\<open>push\<close> without data: every page of the area is mapped at once.  An error drops the area with what it holds.\<close>

primrec push_loop ::
  "'w vm \<Rightarrow> virt_page_num list \<Rightarrow> 'f map_area \<Rightarrow> 'w \<Rightarrow> ((memory_error \<times> virt_page_num + unit) \<times> 'f map_area \<times> 'w) outcome" where
  "push_loop vm [] a w = Ret (Inr (), a, w)"
| "push_loop vm (vpn # vpns) a w =
     bind_outcome (map_one vm vpn a w) (\<lambda>(r, a, w).
       case r of Inl e \<Rightarrow> Ret (Inl e, a, w) | Inr _ \<Rightarrow> push_loop vm vpns a w)"

definition push_area ::
  "'w vm \<Rightarrow> 'f map_area \<Rightarrow> 'f map_area list \<Rightarrow> 'w \<Rightarrow> ((memory_error \<times> virt_page_num + unit) \<times> 'f map_area list \<times> 'w) outcome" where
  "push_area vm a areas w =
     bind_outcome (push_loop vm [ma_start a..<ma_end a] a w) (\<lambda>(r, a, w).
       case r of
         Inr _ \<Rightarrow> Ret (Inr (), areas @ [a], w)
       | Inl e \<Rightarrow> bind_outcome (drop_area vm a w) (\<lambda>w. Ret (Inl e, areas, w)))"

definition insert_framed_area ::
  "'w vm \<Rightarrow> virt_addr \<Rightarrow> virt_addr \<Rightarrow> map_permission \<Rightarrow> 'f map_area list \<Rightarrow> 'w \<Rightarrow> ('f map_area list \<times> 'w) outcome" where
  "insert_framed_area vm start_va end_va perm areas w =
     bind_outcome (ma_new start_va end_va Framed perm None) (\<lambda>a.
       bind_outcome (push_area vm a areas w) (\<lambda>(r, areas, w).
         case r of Inl _ \<Rightarrow> Panic | Inr _ \<Rightarrow> Ret (areas, w)))"

primrec push_no_alloc_loop ::
  "'w vm \<Rightarrow> 'f map_area \<Rightarrow> virt_page_num list \<Rightarrow> 'w \<Rightarrow> ((unit + unit) \<times> 'w) outcome" where
  "push_no_alloc_loop vm a [] w = Ret (Inr (), w)"
| "push_no_alloc_loop vm a (vpn # vpns) w =
     bind_outcome (get_in_memory (ma_inner a) vpn) (\<lambda>r.
       case r of
         None \<Rightarrow> Panic
       | Some ppn \<Rightarrow>
           if \<not> vm_is_mapped vm w vpn
           then bind_outcome (vm_map vm vpn ppn (ma_perm a) w) (push_no_alloc_loop vm a vpns)
           else Ret (Inl (), w))"

definition push_no_alloc ::
  "'w vm \<Rightarrow> 'f map_area \<Rightarrow> 'f map_area list \<Rightarrow> 'w \<Rightarrow> ((unit + unit) \<times> 'f map_area list \<times> 'w) outcome" where
  "push_no_alloc vm a areas w =
     bind_outcome (push_no_alloc_loop vm a [ma_start a..<ma_end a] w) (\<lambda>(r, w).
       case r of
         Inr _ \<Rightarrow> Ret (Inr (), areas @ [a], w)
       | Inl _ \<Rightarrow> bind_outcome (drop_area vm a w) (\<lambda>w. Ret (Inl (), areas, w)))"

definition insert_program_area ::
  "'w vm \<Rightarrow> virt_addr \<Rightarrow> map_permission \<Rightarrow> frame list \<Rightarrow> 'f map_area list \<Rightarrow> 'w \<Rightarrow> ((unit + unit) \<times> 'f map_area list \<times> 'w) outcome" where
  "insert_program_area vm start_va perm fs areas w =
     bind_outcome (from_existing_frame start_va Framed perm fs) (\<lambda>a. push_no_alloc vm a areas w)"

definition get_area_by_vpn_range :: "virt_page_num \<Rightarrow> 'f map_area list \<Rightarrow> 'f map_area option" where
  "get_area_by_vpn_range vpn areas = List.find (covers vpn) (rev areas)"

text \<open>The scan from the last area down, without the last \<open>SKIP_NUM\<close>; running off the end is \<open>unreachable!\<close>.\<close>

fun last_mmap_scan :: "(nat \<times> 'f map_area) list \<Rightarrow> nat option outcome" where
  "last_mmap_scan [] = Panic"
| "last_mmap_scan ((idx, a) # rest) =
     (let start_vpn = ma_start a in
      if start_vpn \<ge> MMAP_END div PAGE_SIZE then last_mmap_scan rest
      else if start_vpn \<ge> MMAP_BASE div PAGE_SIZE \<and> start_vpn < MMAP_END div PAGE_SIZE then Ret (Some idx)
      else Ret None)"

definition last_mmap_area_idx :: "'f map_area list \<Rightarrow> nat option outcome" where
  "last_mmap_area_idx areas = last_mmap_scan (drop SKIP_NUM (rev (enumerate 0 areas)))"

definition contains_valid_buffer :: "usize \<Rightarrow> usize \<Rightarrow> map_permission \<Rightarrow> 'f map_area list \<Rightarrow> bool" where
  "contains_valid_buffer buf sz perm areas =
     (let start_vpn = addr_floor buf; end_vpn = addr_ceil (buf + sz) in
      List.find (\<lambda>a. has_flags (ma_perm a) (perm OR PTE_U) \<and> ma_start a \<le> start_vpn \<and> end_vpn \<le> ma_end a) areas \<noteq> None)"

section \<open>Unmapping and protecting\<close>

text \<open>What \<open>munmap\<close> does with one area: the new area, whether the request overlaps it, whether it is to be deleted and
  whether it is to be broken apart.\<close>

definition munmap_one ::
  "'w vm \<Rightarrow> virt_page_num \<Rightarrow> virt_page_num \<Rightarrow> 'f map_area \<Rightarrow> 'w \<Rightarrow> ('f map_area \<times> bool \<times> bool \<times> bool \<times> 'w) outcome" where
  "munmap_one vm start_vpn end_vpn a w =
     (case check_overlapping start_vpn end_vpn a of
        None \<Rightarrow> Ret (a, False, False, False, w)
      | Some (overlap_start, overlap_end) \<Rightarrow>
          if overlap_start = ma_start a \<and> overlap_end = ma_end a then
            bind_outcome (ma_unmap vm a w) (\<lambda>(_, a, w). Ret (a, True, True, False, w))
          else if overlap_start = ma_start a then
            bind_outcome (rshrink_to vm (addr_of_page overlap_end) a w) (\<lambda>(_, a, w). Ret (a, True, False, False, w))
          else if overlap_end = ma_end a then
            bind_outcome (shrink_to vm (addr_of_page overlap_start) a w) (\<lambda>(_, a, w). Ret (a, True, False, False, w))
          else Ret (a, True, False, True, w))"

primrec munmap_scan ::
  "'w vm \<Rightarrow> virt_page_num \<Rightarrow> virt_page_num \<Rightarrow> nat \<Rightarrow> 'f map_area list \<Rightarrow> bool \<times> nat list \<times> nat option \<Rightarrow> 'w
     \<Rightarrow> ('f map_area list \<times> (bool \<times> nat list \<times> nat option) \<times> 'w) outcome" where
  "munmap_scan vm start_vpn end_vpn idx [] st w = Ret ([], st, w)"
| "munmap_scan vm start_vpn end_vpn idx (a # areas) st w =
     bind_outcome (munmap_one vm start_vpn end_vpn a w) (\<lambda>(a, found, del, apart, w).
       let (found_area, delete, break_apart_idx) = st;
           st = (found_area \<or> found, if del then delete @ [idx] else delete, if apart then Some idx else break_apart_idx)
       in bind_outcome (munmap_scan vm start_vpn end_vpn (Suc idx) areas st w) (\<lambda>(areas, st, w). Ret (a # areas, st, w)))"

definition break_apart ::
  "('f, 'w) file_ops \<Rightarrow> 'w vm \<Rightarrow> virt_page_num \<Rightarrow> virt_page_num \<Rightarrow> nat \<Rightarrow> 'f map_area list \<Rightarrow> 'w \<Rightarrow> ('f map_area list \<times> 'w) outcome" where
  "break_apart fo vm start_vpn end_vpn idx areas w =
     (if length areas \<le> idx then Panic
      else bind_outcome (ma_into_three fo vm start_vpn end_vpn (areas ! idx) w) (\<lambda>(r, first, w).
        case r of
          Inl _ \<Rightarrow> Panic
        | Inr (second, third) \<Rightarrow>
            bind_outcome (ma_unmap vm second w) (\<lambda>(_, second, w).
              bind_outcome (insert_area (idx + 1) third (areas[idx := first])) (\<lambda>areas.
                bind_outcome (drop_area vm second w) (\<lambda>w. Ret (areas, w))))))"

definition munmap ::
  "('f, 'w) file_ops \<Rightarrow> 'w vm \<Rightarrow> usize \<Rightarrow> usize \<Rightarrow> 'f map_area list \<Rightarrow> 'w \<Rightarrow> ((int + unit) \<times> 'f map_area list \<times> 'w) outcome" where
  "munmap fo vm start len areas w =
     (let start_va = start; end_va = start + len in
      if \<not> aligned start_va then Ret (Inl EINVAL, areas, w)
      else
        let start_vpn = addr_floor start_va; end_vpn = addr_ceil end_va in
        bind_outcome (munmap_scan vm start_vpn end_vpn 0 areas (False, [], None) w) (\<lambda>(areas, (found_area, delete, break_apart_idx), w).
          bind_outcome (remove_areas vm (rev delete) areas w) (\<lambda>(areas, w).
            bind_outcome (case break_apart_idx of
                Some idx \<Rightarrow> break_apart fo vm start_vpn end_vpn idx areas w
              | None \<Rightarrow> Ret (areas, w)) (\<lambda>(areas, w).
              Ret (if found_area then Inr () else Inl EINVAL, areas, w)))))"

text \<open>\<open>MapPermission::from_bits\<close> knows the bits 1 to 4.\<close>

definition perm_from_bits :: "u8 \<Rightarrow> map_permission option" where
  "perm_from_bits b = (if b AND NOT (PTE_R OR PTE_W OR PTE_X OR PTE_U) = 0 then Some b else None)"

definition perm_from_prot :: "usize \<Rightarrow> map_permission outcome" where
  "perm_from_prot prot =
     (case perm_from_bits (push_bit 1 (ucast prot) OR push_bit 4 1) of Some p \<Rightarrow> Ret p | None \<Rightarrow> Panic)"

primrec set_flags_loop :: "'w vm \<Rightarrow> map_permission \<Rightarrow> virt_page_num list \<Rightarrow> 'w \<Rightarrow> 'w" where
  "set_flags_loop vm perm [] w = w"
| "set_flags_loop vm perm (vpn # vpns) w = set_flags_loop vm perm vpns (snd (vm_set_pte_flags vm vpn perm w))"

text \<open>The part of the area that \<open>mprotect\<close> changes is split off; the index of that part is returned with the areas.\<close>

definition protect_split ::
  "('f, 'w) file_ops \<Rightarrow> 'w vm \<Rightarrow> virt_page_num \<Rightarrow> virt_page_num \<Rightarrow> nat \<Rightarrow> 'f map_area list \<Rightarrow> 'w
     \<Rightarrow> (nat \<times> 'f map_area list \<times> 'w) outcome" where
  "protect_split fo vm start_vpn end_vpn idx areas w =
     (let a = areas ! idx in
      if start_vpn = ma_start a \<and> end_vpn = ma_end a then Ret (idx, areas, w)
      else if start_vpn = ma_start a then
        bind_outcome (ma_into_two fo end_vpn a) (\<lambda>(r, a). case r of Inl _ \<Rightarrow> Panic | Inr second \<Rightarrow>
          bind_outcome (insert_area (idx + 1) second (areas[idx := a])) (\<lambda>areas. Ret (idx, areas, w)))
      else if end_vpn = ma_end a then
        bind_outcome (ma_into_two fo start_vpn a) (\<lambda>(r, a). case r of Inl _ \<Rightarrow> Panic | Inr second \<Rightarrow>
          bind_outcome (insert_area (idx + 1) second (areas[idx := a])) (\<lambda>areas. Ret (idx + 1, areas, w)))
      else
        bind_outcome (ma_into_three fo vm start_vpn end_vpn a w) (\<lambda>(r, a, w). case r of Inl _ \<Rightarrow> Panic | Inr (second, third) \<Rightarrow>
          bind_outcome (insert_area (idx + 1) second (areas[idx := a])) (\<lambda>areas.
            bind_outcome (insert_area (idx + 2) third areas) (\<lambda>areas. Ret (idx + 1, areas, w)))))"

definition mprotect ::
  "('f, 'w) file_ops \<Rightarrow> 'w vm \<Rightarrow> usize \<Rightarrow> usize \<Rightarrow> usize \<Rightarrow> 'f map_area list \<Rightarrow> 'w \<Rightarrow> ((int + unit) \<times> 'f map_area list \<times> 'w) outcome" where
  "mprotect fo vm addr len prot areas w =
     (let start_va = addr; end_va = addr + len in
      if \<not> aligned start_va then Ret (Inl EINVAL, areas, w)
      else bind_outcome (perm_from_prot prot) (\<lambda>prot.
        let start_vpn = addr_floor start_va; end_vpn = addr_ceil end_va in
        case find_index (covers start_vpn) areas of
          None \<Rightarrow> Ret (Inl EINVAL, areas, w)
        | Some idx \<Rightarrow>
            if end_vpn > ma_end (areas ! idx) then Ret (Inl ENOMEM, areas, w)
            else bind_outcome (protect_split fo vm start_vpn end_vpn idx areas w) (\<lambda>(i, areas, w).
              let a = areas ! i;
                  w = set_flags_loop vm (prot AND NOT PTE_W) [ma_start a..<ma_end a] w
              in Ret (Inr (), areas[i := a\<lparr>ma_perm := prot\<rparr>], w))))"

section \<open>Mapping and the program break\<close>

text \<open>The place of a new area: before the first area at or above its start, leaving out leading areas at or above
  \<open>MMAP_END\<close>; at the end when there is none.\<close>

definition insert_place :: "virt_page_num \<Rightarrow> 'f map_area list \<Rightarrow> nat" where
  "insert_place start_vpn areas =
     (case List.find (\<lambda>(_, a). ma_start a \<ge> start_vpn)
             (dropWhile (\<lambda>(_, a). ma_start a \<ge> MMAP_END div PAGE_SIZE) (enumerate 0 areas)) of
        Some (idx, _) \<Rightarrow> idx
      | None \<Rightarrow> length areas)"

text \<open>The start address that \<open>mmap\<close> chooses, or the address it returns at once after growing the last area.  The
  result of \<open>munmap\<close> is thrown away with \<open>unwrap_unchecked\<close>; an error is taken to be ignored.\<close>

definition mmap_start ::
  "('f, 'w) file_ops \<Rightarrow> 'w vm \<Rightarrow> usize \<Rightarrow> usize \<Rightarrow> map_permission \<Rightarrow> usize \<Rightarrow> nat option \<Rightarrow> 'f map_area list \<Rightarrow> 'w
     \<Rightarrow> ((usize + usize) \<times> 'f map_area list \<times> 'w) outcome" where
  "mmap_start fo vm start len prot flags last_idx areas w =
     (if has_flags flags MAP_FIXED then
        bind_outcome (munmap fo vm start len areas w) (\<lambda>(_, areas, w). Ret (Inr start, areas, w))
      else case last_idx of
             None \<Rightarrow> Ret (Inr (of_nat MMAP_BASE), areas, w)
           | Some idx \<Rightarrow>
               let a = areas ! idx; end_va = addr_of_page (ma_end a) in
               if has_flags flags (MAP_PRIVATE OR MAP_ANONYMOUS) \<and> prot = ma_perm a \<and> ma_file a = None then
                 bind_outcome (expand_to vm (end_va + len) a w) (\<lambda>(r, a, w). case r of
                   Inl _ \<Rightarrow> Panic
                 | Inr _ \<Rightarrow> Ret (Inl end_va, areas[idx := a], w))
               else Ret (Inr end_va, areas, w))"

text \<open>The file of a new area: a copy of the file of the descriptor, at the offset.\<close>

definition mmap_file ::
  "('f, 'w) file_ops \<Rightarrow> 'f fd_table \<Rightarrow> usize \<Rightarrow> usize \<Rightarrow> usize \<Rightarrow> (int + 'f option) outcome" where
  "mmap_file fo fd_table flags fd offset =
     (if has_flags flags MAP_ANONYMOUS then Ret (Inr None)
      else case get_ref (unat fd) fd_table of
             Inl errno \<Rightarrow> Ret (Inl errno)
           | Inr d \<Rightarrow>
               if \<not> fo_readable fo (fd_file d) then Ret (Inl EACCES)
               else (case fo_lseek fo offset SEEK_SET (fo_deep_clone fo (fd_file d)) of
                       (Inl _, _) \<Rightarrow> Panic
                     | (Inr _, f) \<Rightarrow> Ret (Inr (Some f))))"

definition mmap ::
  "('f, 'w) file_ops \<Rightarrow> 'w vm \<Rightarrow> 'f fd_table \<Rightarrow> usize \<Rightarrow> usize \<Rightarrow> map_permission \<Rightarrow> usize \<Rightarrow> usize \<Rightarrow> usize
     \<Rightarrow> 'f map_area list \<Rightarrow> 'w \<Rightarrow> (int \<times> 'f map_area list \<times> 'w) outcome" where
  "mmap fo vm fd_table start len prot flags fd offset areas w =
     (if start AND 0xfff \<noteq> 0 then Ret (EINVAL, areas, w)
      else
        let len = (if len = 0 then of_nat PAGE_SIZE else len) in
        bind_outcome (last_mmap_area_idx areas) (\<lambda>last_idx.
        bind_outcome (mmap_start fo vm start len prot flags last_idx areas w) (\<lambda>(r, areas, w). case r of
          Inl addr \<Rightarrow> Ret (sint addr, areas, w)
        | Inr start_va \<Rightarrow>
            bind_outcome (ma_new start_va (start_va + len) Framed prot None) (\<lambda>new_area.
            bind_outcome (mmap_file fo fd_table flags fd offset) (\<lambda>file. case file of
              Inl errno \<Rightarrow> Ret (errno, areas, w)
            | Inr file \<Rightarrow>
                bind_outcome (page_of_addr start_va) (\<lambda>start_vpn.
                bind_outcome (insert_area (insert_place start_vpn areas) (new_area\<lparr>ma_file := file\<rparr>) areas) (\<lambda>areas.
                  Ret (sint start_va, areas, w))))))))"

definition sbrk ::
  "('f, 'w) file_ops \<Rightarrow> 'w vm \<Rightarrow> 'f fd_table \<Rightarrow> usize \<Rightarrow> usize \<Rightarrow> isize \<Rightarrow> 'f map_area list \<Rightarrow> 'w
     \<Rightarrow> (usize \<times> 'f map_area list \<times> 'w) outcome" where
  "sbrk fo vm fd_table heap_pt heap_bottom increment areas w =
     (let old_pt = heap_pt; new_pt = old_pt + increment in
      if sint increment > 0 then
        let limit = heap_bottom + of_nat USER_HEAP_SIZE in
        if new_pt > limit then Ret (old_pt, areas, w)
        else bind_outcome (mmap fo vm fd_table old_pt increment (PTE_R OR PTE_W OR PTE_U)
            (MAP_ANONYMOUS OR MAP_FIXED OR MAP_PRIVATE) (- 1) 0 areas w) (\<lambda>(_, areas, w). Ret (new_pt, areas, w))
      else if sint increment < 0 then
        if new_pt \<le> heap_bottom then Ret (old_pt, areas, w)
        else bind_outcome (munmap fo vm old_pt increment areas w) (\<lambda>(r, areas, w).
          case r of Inl _ \<Rightarrow> Panic | Inr _ \<Rightarrow> Ret (new_pt, areas, w))
      else Ret (new_pt, areas, w))"

definition sys_brk ::
  "('f, 'w) file_ops \<Rightarrow> 'w vm \<Rightarrow> 'f fd_table \<Rightarrow> usize \<Rightarrow> usize \<Rightarrow> usize \<Rightarrow> 'f map_area list \<Rightarrow> 'w
     \<Rightarrow> (usize \<times> 'f map_area list \<times> 'w) outcome" where
  "sys_brk fo vm fd_table brk_addr heap_pt heap_bottom areas w =
     (if brk_addr = 0 then sbrk fo vm fd_table heap_pt heap_bottom 0 areas w
      else bind_outcome (sbrk fo vm fd_table heap_pt heap_bottom 0 areas w) (\<lambda>(former_addr, areas, w).
        sbrk fo vm fd_table heap_pt heap_bottom (brk_addr - former_addr) areas w))"

section \<open>The pages of an address space\<close>

definition area_ok :: "(virt_page_num \<Rightarrow> bool) \<Rightarrow> 'f map_area \<Rightarrow> bool" where
  "area_ok page_ok a \<longleftrightarrow> lm_shape (ma_inner a) \<and> ma_type a = Framed \<and> ma_end a < 2 ^ 52 \<and> (\<forall>v. covers v a \<longrightarrow> page_ok v)"

definition areas_apart :: "'f map_area \<Rightarrow> 'f map_area \<Rightarrow> bool" where
  "areas_apart a b \<longleftrightarrow> ma_end a \<le> ma_start b \<or> ma_end b \<le> ma_start a"

definition space_ok :: "(virt_page_num \<Rightarrow> bool) \<Rightarrow> 'f map_area list \<Rightarrow> bool" where
  "space_ok page_ok areas \<longleftrightarrow> (\<forall>a \<in> set areas. area_ok page_ok a) \<and> sorted_wrt areas_apart areas"

text \<open>What an address space has at a page: the type and permissions of its area and the frame.\<close>

definition page_of :: "'f map_area \<Rightarrow> virt_page_num \<Rightarrow> (map_type \<times> map_permission \<times> frame) option" where
  "page_of a v = (if covers v a then Some (ma_type a, ma_perm a, frames (ma_inner a) ! (v - ma_start a)) else None)"

primrec page_at :: "'f map_area list \<Rightarrow> virt_page_num \<Rightarrow> (map_type \<times> map_permission \<times> frame) option" where
  "page_at [] v = None"
| "page_at (a # areas) v = (if covers v a then page_of a v else page_at areas v)"

primrec held_all :: "'f map_area list \<Rightarrow> frame multiset" where
  "held_all [] = {#}"
| "held_all (a # areas) = held (frames (ma_inner a)) + held_all areas"

lemma held_all_append [simp]: "held_all (xs @ ys) = held_all xs + held_all ys"
  by (induction xs) (simp_all add: ac_simps)

lemma page_at_append: "page_at (xs @ ys) v = (case page_at xs v of None \<Rightarrow> page_at ys v | Some x \<Rightarrow> Some x)"
  by (induction xs) (auto simp: page_of_def)

lemma page_at_None_iff: "page_at areas v = None \<longleftrightarrow> (\<forall>a \<in> set areas. \<not> covers v a)"
  by (induction areas) (auto simp: page_of_def)

lemma area_okD: "area_ok page_ok a \<Longrightarrow> ma_start a < ma_end a"
  by (simp add: area_ok_def lm_shape_def ma_start_def ma_end_def)

text \<open>An area after the pages from \<open>s\<close> up to \<open>e\<close> were cut off one of its ends.\<close>

definition cut_area :: "(virt_page_num \<Rightarrow> bool) \<Rightarrow> virt_page_num \<Rightarrow> virt_page_num \<Rightarrow> 'f map_area \<Rightarrow> 'f map_area \<Rightarrow> bool" where
  "cut_area page_ok s e a a' \<longleftrightarrow> area_ok page_ok a' \<and> ma_start a \<le> ma_start a' \<and> ma_end a' \<le> ma_end a
     \<and> (\<forall>v. page_of a' v = (if s \<le> v \<and> v < e then None else page_of a v))"

lemma cut_areaI:
  assumes "area_ok page_ok a" "lm_shape (ma_inner a')" "ma_type a' = ma_type a" "ma_perm a' = ma_perm a"
    "ma_start a \<le> ma_start a'" "ma_end a' \<le> ma_end a" "\<forall>v. covers v a' \<longleftrightarrow> covers v a \<and> \<not> (s \<le> v \<and> v < e)"
    "\<forall>v. covers v a' \<longrightarrow> frames (ma_inner a') ! (v - ma_start a') = frames (ma_inner a) ! (v - ma_start a)"
  shows "cut_area page_ok s e a a'"
  using assms by (auto simp: cut_area_def area_ok_def page_of_def)

fun del_idx :: "nat \<Rightarrow> ('f map_area \<times> bool) list \<Rightarrow> nat list" where
  "del_idx idx [] = []"
| "del_idx idx ((a, d) # rs) = (if d then [idx] else []) @ del_idx (Suc idx) rs"

lemma del_idx_append: "del_idx idx (rs @ [(a, d)]) = del_idx idx rs @ (if d then [idx + length rs] else [])"
  by (induction idx rs rule: del_idx.induct) auto

abbreviation kept :: "('f map_area \<times> bool) list \<Rightarrow> 'f map_area list" where
  "kept rs \<equiv> map fst (filter (\<lambda>r. \<not> snd r) rs)"

lemma kept_ok:
  assumes "list_all2 (\<lambda>a (a', d). if d then (\<forall>v. covers v a \<longrightarrow> s \<le> v \<and> v < e) else cut_area page_ok s e a a') areas rs"
    and "sorted_wrt areas_apart areas"
  shows "space_ok page_ok (kept rs)" "\<forall>v. page_at (kept rs) v = (if s \<le> v \<and> v < e then None else page_at areas v)"
proof -
  have in_area: "\<exists>a \<in> set areas. ma_start a \<le> ma_start a' \<and> ma_end a' \<le> ma_end a"
    if "list_all2 (\<lambda>a (a', d). if d then (\<forall>v. covers v a \<longrightarrow> s \<le> v \<and> v < e) else cut_area page_ok s e a a') areas rs"
      "a' \<in> set (kept rs)" for a' and areas :: "'a map_area list" and rs
    using that by (induction areas rs rule: list_all2_induct) (fastforce simp: cut_area_def split: if_splits)+
  show "space_ok page_ok (kept rs)"
    using assms
  proof (induction areas rs rule: list_all2_induct)
    case (Cons a areas r rs)
    obtain a' d where r: "r = (a', d)" by force
    have "areas_apart a' b'" if "\<not> d" "b' \<in> set (kept rs)" for b'
      using in_area [OF Cons.hyps(2) that(2)] Cons.hyps(1) Cons.prems that(1) by (fastforce simp: r cut_area_def areas_apart_def)
    then show ?case using Cons by (auto simp: r space_ok_def cut_area_def)
  qed (simp add: space_ok_def)
  have c: "cut_area page_ok s e a a' \<Longrightarrow> covers v a' \<longleftrightarrow> covers v a \<and> \<not> (s \<le> v \<and> v < e)" for a a' :: "'a map_area" and v
    unfolding cut_area_def page_of_def by (metis option.distinct(1))
  show "\<forall>v. page_at (kept rs) v = (if s \<le> v \<and> v < e then None else page_at areas v)"
    using assms(1)
  proof (induction areas rs rule: list_all2_induct)
    case (Cons a areas r rs)
    obtain a' d where r: "r = (a', d)" by force
    show ?case
      using Cons c [of a a'] by (cases d) (auto simp: r cut_area_def)
  qed simp
qed

lemma lm_into_three_ok:
  assumes "lm_shape lm" "lm_start lm < c" "c < d" "d < lm_end lm"
  shows "\<exists>lm1 lm2 lm3. lm_into_three vm c d lm w = Ret (Inr (lm2, lm3), lm1, w) \<and> lm_shape lm1 \<and> lm_shape lm2 \<and> lm_shape lm3
    \<and> vpn_range lm1 = \<lparr>range_l = lm_start lm, range_r = c\<rparr> \<and> vpn_range lm2 = \<lparr>range_l = c, range_r = d\<rparr>
    \<and> vpn_range lm3 = \<lparr>range_l = d, range_r = lm_end lm\<rparr>
    \<and> frames lm = frames lm1 @ frames lm2 @ frames lm3"
proof -
  obtain lm1 rest where 1: "lm_into_two c lm = Ret (Inr rest, lm1)" "lm_shape lm1" "lm_shape rest"
    "frames lm1 = take (c - lm_start lm) (frames lm)" "frames rest = drop (c - lm_start lm) (frames lm)"
    "vpn_range lm1 = \<lparr>range_l = lm_start lm, range_r = c\<rparr>" "vpn_range rest = \<lparr>range_l = c, range_r = lm_end lm\<rparr>"
    using lm_into_two_shape [OF assms(1,2) less_trans [OF assms(3,4)]] by blast
  have r: "lm_start rest = c" "lm_end rest = lm_end lm" using 1(7) by (simp_all add: lm_start_def lm_end_def)
  obtain lm2 lm3 where 2: "lm_into_two d rest = Ret (Inr lm3, lm2)" "lm_shape lm2" "lm_shape lm3"
    "frames lm2 = take (d - c) (frames rest)" "frames lm3 = drop (d - c) (frames rest)"
    "vpn_range lm2 = \<lparr>range_l = c, range_r = d\<rparr>" "vpn_range lm3 = \<lparr>range_l = d, range_r = lm_end lm\<rparr>"
    using lm_into_two_shape [OF 1(3), of d] assms(3,4) unfolding r by blast
  have "frames rest = frames lm2 @ frames lm3" "frames lm = frames lm1 @ frames rest"
    using 1(4,5) 2(4,5) by (simp_all del: drop_drop)
  then have "frames lm = frames lm1 @ frames lm2 @ frames lm3" by simp
  then show ?thesis using 1 2 by (auto simp: lm_into_three_def)
qed

text \<open>The file of an area can be positioned at every page of the area.\<close>

definition seekable :: "('f, 'w) file_ops \<Rightarrow> 'f map_area \<Rightarrow> bool" where
  "seekable fo a \<longleftrightarrow> (\<forall>f v. ma_file a = Some f \<longrightarrow> covers v a \<longrightarrow>
     \<not> isl (fst (fo_lseek fo (fo_get_offset fo f + addr_of_page v - addr_of_page (ma_start a)) SEEK_SET (fo_deep_clone fo f))))"

lemma file_at_ok:
  assumes sk: "seekable fo a" and v: "covers v a"
  shows "\<exists>f. file_at fo (ma_start a) v (ma_file a) = Ret f"
proof (cases "ma_file a")
  case (Some f)
  obtain r f' where l: "fo_lseek fo (fo_get_offset fo f + addr_of_page v - addr_of_page (ma_start a)) SEEK_SET (fo_deep_clone fo f) = (r, f')"
    by force
  then have "\<not> isl r" using sk v Some unfolding seekable_def by (metis fst_conv)
  then show ?thesis using l Some by (cases r) (auto simp: file_at_def)
qed (simp add: file_at_def)

lemma three_parts:
  assumes ok: "area_ok page_ok a" and se: "ma_start a < s" "s < e" "e < ma_end a" and fo: "seekable fo a"
  shows "\<exists>a1 a2 a3. ma_into_three fo vm s e a w = Ret (Inr (a2, a3), a1, w)
    \<and> area_ok page_ok a1 \<and> area_ok page_ok a2 \<and> area_ok page_ok a3
    \<and> ma_start a1 = ma_start a \<and> ma_end a1 = s \<and> ma_start a2 = s \<and> ma_end a2 = e \<and> ma_start a3 = e \<and> ma_end a3 = ma_end a
    \<and> held (frames (ma_inner a)) = held (frames (ma_inner a2)) + (held (frames (ma_inner a1)) + held (frames (ma_inner a3)))
    \<and> (\<forall>v. page_of a v = page_at [a1, a2, a3] v)"
proof -
  obtain lm1 lm2 lm3 where l: "lm_into_three vm s e (ma_inner a) w = Ret (Inr (lm2, lm3), lm1, w)" "lm_shape lm1" "lm_shape lm2"
    "lm_shape lm3" "vpn_range lm1 = \<lparr>range_l = ma_start a, range_r = s\<rparr>" "vpn_range lm2 = \<lparr>range_l = s, range_r = e\<rparr>"
    "vpn_range lm3 = \<lparr>range_l = e, range_r = ma_end a\<rparr>" and fr: "frames (ma_inner a) = frames lm1 @ frames lm2 @ frames lm3"
    using lm_into_three_ok [of "ma_inner a" s e vm w] ok se by (auto simp: area_ok_def ma_start_def ma_end_def)
  obtain f2 f3 where f: "file_at fo (ma_start a) s (ma_file a) = Ret f2" "file_at fo (ma_start a) e (ma_file a) = Ret f3"
    using file_at_ok [OF fo, of s] file_at_ok [OF fo, of e] se by (auto simp: covers_def)
  let ?a1 = "a\<lparr>ma_inner := lm1\<rparr>" and ?a2 = "a\<lparr>ma_inner := lm2, ma_file := f2\<rparr>" and ?a3 = "a\<lparr>ma_inner := lm3, ma_file := f3\<rparr>"
  have r: "ma_start ?a1 = ma_start a" "ma_end ?a1 = s" "ma_start ?a2 = s" "ma_end ?a2 = e" "ma_start ?a3 = e" "ma_end ?a3 = ma_end a"
    using l(5-7) by (simp_all add: ma_start_def ma_end_def lm_start_def lm_end_def)
  have len: "length (frames lm1) = s - ma_start a" "length (frames lm2) = e - s"
    using l(2,3,5,6) by (simp_all add: lm_shape_def lm_start_def lm_end_def)
  have pk: "area_ok page_ok ?a1" "area_ok page_ok ?a2" "area_ok page_ok ?a3"
    using ok l(2-4) r se by (auto simp: area_ok_def covers_def)
  have "page_of a v = page_at [?a1, ?a2, ?a3] v" for v
    using r se len by (auto simp: page_of_def covers_def fr nth_append)
  then show ?thesis
    using l(1) f r pk by (intro exI [of _ ?a1] exI [of _ ?a2] exI [of _ ?a3]) (simp add: ma_into_three_def fr ac_simps)
qed

lemma two_parts:
  assumes ok: "area_ok page_ok a" and c: "ma_start a < c" "c < ma_end a" and fo: "seekable fo a"
  shows "\<exists>a1 a2. ma_into_two fo c a = Ret (Inr a2, a1) \<and> area_ok page_ok a1 \<and> area_ok page_ok a2
    \<and> ma_start a1 = ma_start a \<and> ma_end a1 = c \<and> ma_start a2 = c \<and> ma_end a2 = ma_end a
    \<and> held (frames (ma_inner a)) = held (frames (ma_inner a1)) + held (frames (ma_inner a2))
    \<and> (\<forall>v. page_of a v = page_at [a1, a2] v)"
proof -
  obtain lm1 lm2 where l: "lm_into_two c (ma_inner a) = Ret (Inr lm2, lm1)" "lm_shape lm1" "lm_shape lm2"
    "vpn_range lm1 = \<lparr>range_l = ma_start a, range_r = c\<rparr>" "vpn_range lm2 = \<lparr>range_l = c, range_r = ma_end a\<rparr>"
    and fr: "frames lm1 @ frames lm2 = frames (ma_inner a)"
    using lm_into_two_shape [of "ma_inner a" c] ok c by (fastforce simp: area_ok_def ma_start_def ma_end_def)
  obtain f2 where f: "file_at fo (ma_start a) c (ma_file a) = Ret f2"
    using file_at_ok [OF fo, of c] c by (auto simp: covers_def)
  let ?a1 = "a\<lparr>ma_inner := lm1\<rparr>" and ?a2 = "a\<lparr>ma_inner := lm2, ma_file := f2\<rparr>"
  have r: "ma_start ?a1 = ma_start a" "ma_end ?a1 = c" "ma_start ?a2 = c" "ma_end ?a2 = ma_end a"
    using l(4,5) by (simp_all add: ma_start_def ma_end_def lm_start_def lm_end_def)
  have len: "length (frames lm1) = c - ma_start a" using l(2,4) by (simp add: lm_shape_def lm_start_def lm_end_def)
  have pk: "area_ok page_ok ?a1" "area_ok page_ok ?a2" using ok l(2,3) r c by (auto simp: area_ok_def covers_def)
  have "page_of a v = page_at [?a1, ?a2] v" for v
    using r c len by (auto simp: page_of_def covers_def fr [symmetric] nth_append)
  then show ?thesis
    using l(1) f r pk by (intro exI [of _ ?a1] exI [of _ ?a2]) (simp add: ma_into_two_def fr [symmetric])
qed

lemma page_at_covers:
  assumes "space_ok page_ok (xs @ a # ys)" "covers v a"
  shows "page_at (xs @ a # ys) v = page_of a v"
proof -
  have "\<forall>c \<in> set xs. areas_apart c a" using assms(1) by (auto simp: space_ok_def sorted_wrt_append)
  then have "page_at xs v = None" using assms(2) by (fastforce simp: page_at_None_iff areas_apart_def covers_def)
  then show ?thesis using assms(2) by (simp add: page_at_append)
qed

lemma space_ok_replace:
  assumes "space_ok page_ok (xs @ a # ys)" "area_ok page_ok b" "ma_start b = ma_start a" "ma_end b = ma_end a"
  shows "space_ok page_ok (xs @ b # ys)" "page_at (xs @ b # ys) v = (if covers v a then page_of b v else page_at (xs @ a # ys) v)"
proof -
  show ok: "space_ok page_ok (xs @ b # ys)"
    using assms by (simp add: space_ok_def sorted_wrt_append areas_apart_def)
  have "covers v b = covers v a" using assms(3,4) by (simp add: covers_def)
  then show "page_at (xs @ b # ys) v = (if covers v a then page_of b v else page_at (xs @ a # ys) v)"
    using page_at_covers [OF ok, of v] by (cases "covers v a"; cases "page_at xs v") (simp_all add: page_at_append)
qed

lemma covers_unique:
  assumes "space_ok page_ok areas" "a \<in> set areas" "b \<in> set areas" "covers v a" "covers v b"
  shows "a = b"
proof -
  obtain i j where "i < length areas" "j < length areas" "a = areas ! i" "b = areas ! j"
    using assms(2,3) by (auto simp: in_set_conv_nth)
  moreover have "sorted_wrt areas_apart areas" using assms(1) by (simp add: space_ok_def)
  moreover have "\<not> areas_apart a b" "\<not> areas_apart b a" using assms(4,5) by (auto simp: areas_apart_def covers_def)
  ultimately show ?thesis by (metis linorder_neqE_nat sorted_wrt_nth_less)
qed

lemma find_index_exists: "x \<in> set xs \<Longrightarrow> P x \<Longrightarrow> \<exists>i. find_index P xs = Some i"
  by (induction xs) auto

lemma find_index_Some:
  "find_index P xs = Some i \<Longrightarrow> i < length xs \<and> P (xs ! i) \<and> xs = take i xs @ xs ! i # drop (Suc i) xs"
  by (induction xs arbitrary: i) (auto split: if_splits simp: id_take_nth_drop)

text \<open>The part of an area that \<open>mprotect\<close> changes, split off with the other parts left and right of it.\<close>

lemma protect_split_ok:
  assumes ok: "space_ok page_ok (xs @ a # ys)" and se: "ma_start a \<le> s" "s < e" "e \<le> ma_end a" and fo: "seekable fo a"
  shows "\<exists>ls p rs. protect_split fo vm s e (length xs) (xs @ a # ys) w = Ret (length (xs @ ls), xs @ ls @ p # rs @ ys, w)
    \<and> space_ok page_ok (xs @ ls @ p # rs @ ys) \<and> ma_start p = s \<and> ma_end p = e
    \<and> held_all (xs @ ls @ p # rs @ ys) = held_all (xs @ a # ys)
    \<and> (\<forall>v. page_at (xs @ ls @ p # rs @ ys) v = page_at (xs @ a # ys) v)"
proof -
  have ak: "area_ok page_ok a" using ok by (simp add: space_ok_def)
  have ap: "\<forall>b \<in> set xs. areas_apart b a" "\<forall>b \<in> set ys. areas_apart a b" using ok by (auto simp: space_ok_def sorted_wrt_append)
  have new: "space_ok page_ok (xs @ as @ ys)"
    if "\<forall>b \<in> set as. area_ok page_ok b \<and> ma_start a \<le> ma_start b \<and> ma_end b \<le> ma_end a" "sorted_wrt areas_apart as" for as
    using ok that by (fastforce simp: space_ok_def sorted_wrt_append areas_apart_def)
  have pages: "page_at (xs @ as @ ys) v = page_at (xs @ a # ys) v" if "page_of a v = page_at as v" for as v
    using that by (auto simp: page_at_append page_of_def split: option.splits if_splits)
  consider (all) "s = ma_start a" "e = ma_end a" | (low) "s = ma_start a" "e < ma_end a" | (high) "ma_start a < s" "e = ma_end a"
    | (mid) "ma_start a < s" "e < ma_end a" using se by linarith
  then show ?thesis
  proof cases
    case all
    then show ?thesis
      by (intro exI [of _ "[]"] exI [of _ a] exI [of _ "[]"]) (use ok in \<open>simp add: protect_split_def nth_append\<close>)
  next
    case low
    then obtain a1 a2 where t: "ma_into_two fo e a = Ret (Inr a2, a1)" "area_ok page_ok a1" "area_ok page_ok a2"
      "ma_start a1 = s" "ma_end a1 = e" "ma_start a2 = e" "ma_end a2 = ma_end a"
      "held (frames (ma_inner a)) = held (frames (ma_inner a1)) + held (frames (ma_inner a2))" "\<forall>v. page_of a v = page_at [a1, a2] v"
      using two_parts [OF ak _ _ fo, of e] se by auto
    then show ?thesis
      using low new [of "[a1, a2]"] pages [of _ "[a1, a2]"] se
      by (intro exI [of _ "[]"] exI [of _ a1] exI [of _ "[a2]"])
        (auto simp: protect_split_def nth_append insert_area_def areas_apart_def ac_simps)
  next
    case high
    then obtain a1 a2 where t: "ma_into_two fo s a = Ret (Inr a2, a1)" "area_ok page_ok a1" "area_ok page_ok a2"
      "ma_start a1 = ma_start a" "ma_end a1 = s" "ma_start a2 = s" "ma_end a2 = e"
      "held (frames (ma_inner a)) = held (frames (ma_inner a1)) + held (frames (ma_inner a2))" "\<forall>v. page_of a v = page_at [a1, a2] v"
      using two_parts [OF ak _ _ fo, of s] se by auto
    then show ?thesis
      using high new [of "[a1, a2]"] pages [of _ "[a1, a2]"] se
      by (intro exI [of _ "[a1]"] exI [of _ a2] exI [of _ "[]"])
        (auto simp: protect_split_def nth_append insert_area_def areas_apart_def ac_simps)
  next
    case mid
    then obtain a1 a2 a3 where t: "ma_into_three fo vm s e a w = Ret (Inr (a2, a3), a1, w)"
      "area_ok page_ok a1" "area_ok page_ok a2" "area_ok page_ok a3"
      "ma_start a1 = ma_start a" "ma_end a1 = s" "ma_start a2 = s" "ma_end a2 = e" "ma_start a3 = e" "ma_end a3 = ma_end a"
      "held (frames (ma_inner a)) = held (frames (ma_inner a2)) + (held (frames (ma_inner a1)) + held (frames (ma_inner a3)))"
      "\<forall>v. page_of a v = page_at [a1, a2, a3] v"
      using three_parts [OF ak _ _ _ fo, of s e vm w] se by auto
    then show ?thesis
      using mid new [of "[a1, a2, a3]"] pages [of _ "[a1, a2, a3]"] se
      by (intro exI [of _ "[a1]"] exI [of _ a2] exI [of _ "[a3]"])
        (auto simp: protect_split_def nth_append insert_area_def areas_apart_def ac_simps)
  qed
qed

lemma munmap_scan_none:
  "\<forall>a \<in> set areas. check_overlapping s e a = None \<Longrightarrow> munmap_scan vm s e idx areas st w = Ret (areas, st, w)"
  by (induction areas arbitrary: idx st) (auto simp: munmap_one_def Let_def split: prod.splits)

context vm_laws
begin

lemma ma_unmap_ok:
  assumes "area_ok page_ok a" "inv w (held (frames (ma_inner a)) + F)"
  shows "\<exists>r a' w'. ma_unmap vm a w = Ret (r, a', w') \<and> inv w' (held (frames (ma_inner a')) + F)
    \<and> view w' = (\<lambda>v. if covers v a then None else view w v)"
proof -
  obtain b a' w' where "unmap_loop vm [ma_start a..<ma_end a] a w = Ret (b, a', w')"
    "inv w' (held (frames (ma_inner a')) + F)" "view w' = (\<lambda>u. if u \<in> set [ma_start a..<ma_end a] then None else view w u)"
    using unmap_loop_ok [of a "[ma_start a..<ma_end a]" w F] assms by (auto simp: area_ok_def covers_def)
  then show ?thesis by (auto simp: ma_unmap_def covers_def)
qed

lemma munmap_one_ok:
  assumes ok: "area_ok page_ok a" and w: "inv w (held (frames (ma_inner a)) + F)" and se: "s < e"
    and in_part: "\<not> (ma_start a < s \<and> e < ma_end a)"
  shows "\<exists>a' d w'. munmap_one vm s e a w = Ret (a', check_overlapping s e a \<noteq> None, d, False, w')
    \<and> inv w' (held (frames (ma_inner a')) + F)
    \<and> view w' = (\<lambda>v. if s \<le> v \<and> v < e \<and> covers v a then None else view w v)
    \<and> (if d then (\<forall>v. covers v a \<longrightarrow> s \<le> v \<and> v < e) else cut_area page_ok s e a a')"
proof -
  have sh: "lm_shape (ma_inner a)" "ma_type a = Framed" "ma_start a < ma_end a" "ma_end a < 2 ^ 52"
    using ok area_okD [OF ok] by (simp_all add: area_ok_def)
  have pk: "page_ok v" if "ma_start a \<le> v" "v < ma_end a" for v using ok that by (simp add: area_ok_def covers_def)
  consider (none) "e < ma_start a \<or> ma_end a \<le> s" | (all) "s \<le> ma_start a" "ma_end a \<le> e"
    | (low) "s \<le> ma_start a" "ma_start a \<le> e" "e < ma_end a" | (high) "ma_start a < s" "s < ma_end a" "ma_end a \<le> e"
    using in_part by linarith
  then show ?thesis
  proof cases
    case none
    then have "check_overlapping s e a = None" by (auto simp: check_overlapping_def)
    moreover have "view w = (\<lambda>v. if s \<le> v \<and> v < e \<and> covers v a then None else view w v)"
      using none by (auto simp: covers_def fun_eq_iff)
    moreover have "cut_area page_ok s e a a" by (rule cut_areaI [OF ok sh(1)]) (use none in \<open>auto simp: covers_def\<close>)
    ultimately show ?thesis using w by (auto simp: munmap_one_def)
  next
    case all
    then have c: "check_overlapping s e a = Some (ma_start a, ma_end a)" using sh(3) by (auto simp: check_overlapping_def)
    have in_se: "covers v a \<Longrightarrow> s \<le> v \<and> v < e" for v using all by (auto simp: covers_def)
    obtain r a' w' where u: "ma_unmap vm a w = Ret (r, a', w')" "inv w' (held (frames (ma_inner a')) + F)"
      "view w' = (\<lambda>v. if covers v a then None else view w v)" using ma_unmap_ok [OF ok w] by blast
    have "view w' = (\<lambda>v. if s \<le> v \<and> v < e \<and> covers v a then None else view w v)" unfolding u(3) using in_se by (auto simp: fun_eq_iff)
    then show ?thesis using c u in_se by (intro exI [of _ a'] exI [of _ True] exI [of _ w']) (simp add: munmap_one_def)
  next
    case low
    then have c: "check_overlapping s e a = Some (ma_start a, e)" using sh(3) by (auto simp: check_overlapping_def)
    obtain r a' w' where r: "rshrink_to vm (addr_of_page e) a w = Ret (r, a', w')" "lm_shape (ma_inner a')"
      "ma_start a' = e" "ma_end a' = ma_end a" "ma_type a' = ma_type a" "ma_perm a' = ma_perm a"
      "\<forall>v. e \<le> v \<and> v < ma_end a \<longrightarrow> frames (ma_inner a') ! (v - e) = frames (ma_inner a) ! (v - ma_start a)"
      "inv w' (held (frames (ma_inner a')) + F)" "view w' = (\<lambda>u. if ma_start a \<le> u \<and> u < e then None else view w u)"
      using rshrink_to_ok [OF sh(1,2) low(2,3) _ _ w] sh(4) low(3) pk by fastforce
    have "view w' = (\<lambda>v. if s \<le> v \<and> v < e \<and> covers v a then None else view w v)"
      using r(9) low by (auto simp: covers_def fun_eq_iff)
    moreover have "cut_area page_ok s e a a'"
      by (rule cut_areaI [OF ok r(2,5,6)]) (use low r(3,4,7) in \<open>auto simp: covers_def\<close>)
    ultimately show ?thesis using c r(1,8) low by (auto simp: munmap_one_def)
  next
    case high
    then have c: "check_overlapping s e a = Some (s, ma_end a)" using se by (auto simp: check_overlapping_def)
    obtain r a' w' where r: "shrink_to vm (addr_of_page s) a w = Ret (r, a', w')" "lm_shape (ma_inner a')"
      "ma_start a' = ma_start a" "ma_end a' = s" "ma_type a' = ma_type a" "ma_perm a' = ma_perm a"
      "\<forall>v. ma_start a \<le> v \<and> v < s \<longrightarrow> frames (ma_inner a') ! (v - ma_start a) = frames (ma_inner a) ! (v - ma_start a)"
      "inv w' (held (frames (ma_inner a')) + F)" "view w' = (\<lambda>u. if s \<le> u \<and> u < ma_end a then None else view w u)"
      using shrink_to_ok [OF sh(1,2) high(1) _ _ _ w] sh(4) high(1,2) pk by fastforce
    have "view w' = (\<lambda>v. if s \<le> v \<and> v < e \<and> covers v a then None else view w v)"
      using r(9) high by (auto simp: covers_def fun_eq_iff)
    moreover have "cut_area page_ok s e a a'"
      by (rule cut_areaI [OF ok r(2,5,6)]) (use high r(3,4,7) in \<open>auto simp: covers_def\<close>)
    ultimately show ?thesis using c r(1,8) high by (auto simp: munmap_one_def)
  qed
qed

lemma munmap_scan_ok:
  assumes "\<forall>a \<in> set areas. area_ok page_ok a \<and> \<not> (ma_start a < s \<and> e < ma_end a)" "inv w (held_all areas + F)" "s < e"
  shows "\<exists>rs w'. munmap_scan vm s e idx areas (found, delete, ba) w
      = Ret (map fst rs, (found \<or> (\<exists>a \<in> set areas. check_overlapping s e a \<noteq> None), delete @ del_idx idx rs, ba), w')
    \<and> inv w' (held_all (map fst rs) + F)
    \<and> view w' = (\<lambda>v. if s \<le> v \<and> v < e \<and> page_at areas v \<noteq> None then None else view w v)
    \<and> list_all2 (\<lambda>a (a', d). if d then (\<forall>v. covers v a \<longrightarrow> s \<le> v \<and> v < e) else cut_area page_ok s e a a') areas rs"
  using assms(1,2)
proof (induction areas arbitrary: idx found delete w F)
  case Nil
  then show ?case by (intro exI [of _ "[]"] exI [of _ w]) simp
next
  case (Cons a areas)
  have "inv w (held (frames (ma_inner a)) + (held_all areas + F))" using Cons.prems(2) by (simp add: add.assoc)
  from munmap_one_ok [OF _ this assms(3)] Cons.prems(1) obtain a' d w1 where
    1: "munmap_one vm s e a w = Ret (a', check_overlapping s e a \<noteq> None, d, False, w1)"
      "inv w1 (held (frames (ma_inner a')) + (held_all areas + F))"
      "view w1 = (\<lambda>v. if s \<le> v \<and> v < e \<and> covers v a then None else view w v)"
      "if d then (\<forall>v. covers v a \<longrightarrow> s \<le> v \<and> v < e) else cut_area page_ok s e a a'" by auto
  have "inv w1 (held_all areas + (held (frames (ma_inner a')) + F))" using 1(2) by (simp add: ac_simps)
  from Cons.IH [OF _ this, of "Suc idx" "found \<or> check_overlapping s e a \<noteq> None" "if d then delete @ [idx] else delete"] Cons.prems(1)
  obtain rs w' where
    2: "munmap_scan vm s e (Suc idx) areas (found \<or> check_overlapping s e a \<noteq> None, if d then delete @ [idx] else delete, ba) w1
        = Ret (map fst rs, ((found \<or> check_overlapping s e a \<noteq> None) \<or> (\<exists>a \<in> set areas. check_overlapping s e a \<noteq> None),
            (if d then delete @ [idx] else delete) @ del_idx (Suc idx) rs, ba), w')"
      "inv w' (held_all (map fst rs) + (held (frames (ma_inner a')) + F))"
      "view w' = (\<lambda>v. if s \<le> v \<and> v < e \<and> page_at areas v \<noteq> None then None else view w1 v)"
      "list_all2 (\<lambda>a (a', d). if d then (\<forall>v. covers v a \<longrightarrow> s \<le> v \<and> v < e) else cut_area page_ok s e a a') areas rs" by auto
  have "inv w' (held_all (map fst ((a', d) # rs)) + F)" using 2(2) by (simp add: ac_simps)
  moreover have "view w' = (\<lambda>v. if s \<le> v \<and> v < e \<and> page_at (a # areas) v \<noteq> None then None else view w v)"
    unfolding 2(3) 1(3) by (auto simp: fun_eq_iff page_of_def)
  ultimately show ?case
    using 1(1,4) 2(1,4) by (intro exI [of _ "(a', d) # rs"] exI [of _ w']) (auto simp: Let_def)
qed

lemma remove_areas_ok:
  assumes "inv w (held_all (map fst rs) + held_all zs + F)"
  shows "\<exists>w'. remove_areas vm (rev (del_idx 0 rs)) (map fst rs @ zs) w = Ret (kept rs @ zs, w')
    \<and> inv w' (held_all (kept rs) + held_all zs + F) \<and> view w' = view w"
  using assms
proof (induction rs arbitrary: zs w rule: rev_induct)
  case Nil
  then show ?case by simp
next
  case (snoc r rs)
  obtain a d where r: "r = (a, d)" by force
  show ?case
  proof (cases d)
    case True
    have "inv w (held (frames (ma_inner a)) + (held_all (map fst rs) + held_all zs + F))"
      using snoc.prems by (simp add: r ac_simps)
    from drop_all_ok [OF this] obtain w1 where 1: "drop_area vm a w = Ret w1"
      "inv w1 (held_all (map fst rs) + held_all zs + F)" "view w1 = view w" by (auto simp: drop_area_def)
    have "(map fst rs @ a # zs) ! length rs = a" by (simp add: nth_append)
    then show ?thesis
      using snoc.IH [OF 1(2)] 1 True by (auto simp: r del_idx_append remove_area_def)
  next
    case False
    have "inv w (held_all (map fst rs) + held_all (a # zs) + F)" using snoc.prems by (simp add: r ac_simps)
    from snoc.IH [OF this] show ?thesis using False by (auto simp: r del_idx_append ac_simps)
  qed
qed

lemma munmap_scan_skip:
  "\<forall>a \<in> set xs. check_overlapping s e a = None \<Longrightarrow> munmap_scan vm s e idx (xs @ ys) st w
     = bind_outcome (munmap_scan vm s e (idx + length xs) ys st w) (\<lambda>(bs, st, w). Ret (xs @ bs, st, w))"
proof (induction xs arbitrary: idx st)
  case Nil
  show ?case by (cases "munmap_scan vm s e idx ys st w") (auto simp: split_beta)
next
  case (Cons x xs)
  then show ?case
    by (cases "munmap_scan vm s e (Suc (idx + length xs)) ys st w") (auto simp: munmap_one_def Let_def split_beta)
qed

lemma break_apart_ok:
  assumes ok: "space_ok page_ok (xs @ a # ys)" and se: "ma_start a < s" "s < e" "e < ma_end a" and fo: "seekable fo a"
    and w: "inv w (held_all (xs @ a # ys) + F)"
  shows "\<exists>areas' w'. break_apart fo vm s e (length xs) (xs @ a # ys) w = Ret (areas', w') \<and> space_ok page_ok areas'
    \<and> inv w' (held_all areas' + F) \<and> view w' = (\<lambda>v. if s \<le> v \<and> v < e then None else view w v)
    \<and> (\<forall>v. page_at areas' v = (if s \<le> v \<and> v < e then None else page_at (xs @ a # ys) v))"
proof -
  have "area_ok page_ok a" using ok by (simp add: space_ok_def)
  from three_parts [OF this se fo, of vm w] obtain a1 a2 a3 where
    t: "ma_into_three fo vm s e a w = Ret (Inr (a2, a3), a1, w)"
    and p: "area_ok page_ok a1" "area_ok page_ok a2" "area_ok page_ok a3"
    and r: "ma_start a1 = ma_start a" "ma_end a1 = s" "ma_start a2 = s" "ma_end a2 = e" "ma_start a3 = e" "ma_end a3 = ma_end a"
    and h: "held (frames (ma_inner a)) = held (frames (ma_inner a2)) + (held (frames (ma_inner a1)) + held (frames (ma_inner a3)))"
    and pg: "\<forall>v. page_of a v = page_at [a1, a2, a3] v" by blast
  let ?as = "xs @ a1 # a3 # ys"
  have "inv w (held (frames (ma_inner a2)) + (held_all ?as + F))" using w by (simp add: h ac_simps)
  from ma_unmap_ok [OF p(2) this] obtain q a2' w1 where u: "ma_unmap vm a2 w = Ret (q, a2', w1)"
    "inv w1 (held (frames (ma_inner a2')) + (held_all ?as + F))" "view w1 = (\<lambda>v. if covers v a2 then None else view w v)" by blast
  from drop_all_ok [OF u(2)] obtain w2 where d: "drop_area vm a2' w1 = Ret w2" "inv w2 (held_all ?as + F)" "view w2 = view w1"
    by (auto simp: drop_area_def)
  have "break_apart fo vm s e (length xs) (xs @ a # ys) w = Ret (?as, w2)"
    using t u(1) d(1) by (simp add: break_apart_def nth_append insert_area_def)
  moreover have "space_ok page_ok ?as"
    using ok p r se by (auto simp: space_ok_def sorted_wrt_append areas_apart_def)
  moreover have "view w2 = (\<lambda>v. if s \<le> v \<and> v < e then None else view w v)" unfolding d(3) u(3) covers_def r ..
  moreover have "page_at ?as v = (if s \<le> v \<and> v < e then None else page_at (xs @ a # ys) v)" for v
  proof -
    have "page_at xs v = None" if "s \<le> v" "v < e"
      using ok se that by (auto simp: page_at_None_iff space_ok_def sorted_wrt_append areas_apart_def covers_def)
    moreover have "page_at ys v = None" if "s \<le> v" "v < e"
      using ok se that by (auto simp: page_at_None_iff space_ok_def sorted_wrt_append areas_apart_def covers_def)
    moreover have "covers v a \<longleftrightarrow> covers v a1 \<or> covers v a2 \<or> covers v a3" "covers v a2 \<longleftrightarrow> s \<le> v \<and> v < e"
      "covers v a1 \<Longrightarrow> v < s" "covers v a3 \<Longrightarrow> e \<le> v"
      using r se by (auto simp: covers_def)
    ultimately show ?thesis
      using pg by (auto simp: page_at_append split: option.splits)
  qed
  ultimately show ?thesis using d(2) by blast
qed

lemma munmap_ok:
  assumes ok: "space_ok page_ok areas" and fo: "\<forall>a \<in> set areas. seekable fo a" and w: "inv w (held_all areas + F)"
    and al: "aligned start" and se: "addr_floor start < addr_ceil (start + len)"
  defines "s \<equiv> addr_floor start" and "e \<equiv> addr_ceil (start + len)"
  shows "\<exists>r areas' w'. munmap fo vm start len areas w = Ret (r, areas', w') \<and> space_ok page_ok areas'
    \<and> inv w' (held_all areas' + F) \<and> view w' = (\<lambda>v. if s \<le> v \<and> v < e \<and> page_at areas v \<noteq> None then None else view w v)
    \<and> (\<forall>v. page_at areas' v = (if s \<le> v \<and> v < e then None else page_at areas v))
    \<and> ((\<exists>v. s \<le> v \<and> v < e \<and> page_at areas v \<noteq> None) \<longrightarrow> r = Inr ())"
proof (cases "\<exists>a \<in> set areas. ma_start a < s \<and> e < ma_end a")
  case True
  then obtain xs a ys where as: "areas = xs @ a # ys" and a: "ma_start a < s" "e < ma_end a" by (metis split_list)
  have se': "s < e" and fo': "seekable fo a" using se fo by (simp_all add: s_def e_def as)
  have "check_overlapping s e b = None" if "areas_apart b a" for b
    using that a by (auto simp: areas_apart_def check_overlapping_def)
  moreover have "\<forall>b \<in> set xs. areas_apart b a" "\<forall>b \<in> set ys. areas_apart b a"
    using ok unfolding as space_ok_def sorted_wrt_append by (auto simp: areas_apart_def)
  ultimately have none: "\<forall>b \<in> set xs. check_overlapping s e b = None" "\<forall>b \<in> set ys. check_overlapping s e b = None"
    by blast+
  have ov: "check_overlapping s e a = Some (s, e)" using a se' by (auto simp: check_overlapping_def)
  have "munmap_scan vm s e 0 areas (False, [], None) w = Ret (areas, (True, [], Some (length xs)), w)"
    unfolding as munmap_scan_skip [OF none(1)] using ov a by (simp add: munmap_one_def Let_def munmap_scan_none [OF none(2)])
  moreover obtain areas' w' where b: "break_apart fo vm s e (length xs) areas w = Ret (areas', w')" "space_ok page_ok areas'"
    "inv w' (held_all areas' + F)" "view w' = (\<lambda>v. if s \<le> v \<and> v < e then None else view w v)"
    "\<forall>v. page_at areas' v = (if s \<le> v \<and> v < e then None else page_at areas v)"
    using break_apart_ok [OF ok [unfolded as] a(1) se' a(2) fo' w [unfolded as]] unfolding as by blast
  ultimately have "munmap fo vm start len areas w = Ret (Inr (), areas', w')"
    using al by (simp add: munmap_def Let_def s_def e_def)
  moreover have "page_at areas v \<noteq> None" if "s \<le> v" "v < e" for v
    using that a by (auto simp: as page_at_None_iff covers_def intro: bexI [of _ a])
  then have "view w' = (\<lambda>v. if s \<le> v \<and> v < e \<and> page_at areas v \<noteq> None then None else view w v)"
    unfolding b(4) by (auto simp: fun_eq_iff)
  ultimately show ?thesis using b by blast
next
  case False
  have se': "s < e" using se by (simp add: s_def e_def)
  have "\<forall>a \<in> set areas. area_ok page_ok a \<and> \<not> (ma_start a < s \<and> e < ma_end a)" using ok False by (auto simp: space_ok_def)
  from munmap_scan_ok [OF this w se', of 0 False "[]" None] obtain rs w1 where
    1: "munmap_scan vm s e 0 areas (False, [], None) w
        = Ret (map fst rs, (\<exists>a \<in> set areas. check_overlapping s e a \<noteq> None, del_idx 0 rs, None), w1)"
      "inv w1 (held_all (map fst rs) + F)" "view w1 = (\<lambda>v. if s \<le> v \<and> v < e \<and> page_at areas v \<noteq> None then None else view w v)"
      "list_all2 (\<lambda>a (a', d). if d then (\<forall>v. covers v a \<longrightarrow> s \<le> v \<and> v < e) else cut_area page_ok s e a a') areas rs"
    by auto
  note kp = kept_ok [OF 1(4)]
  obtain w2 where 2: "remove_areas vm (rev (del_idx 0 rs)) (map fst rs) w1 = Ret (kept rs, w2)"
    "inv w2 (held_all (kept rs) + F)" "view w2 = view w1"
    using remove_areas_ok [of w1 rs "[]" F] 1(2) by auto
  let ?found = "\<exists>a \<in> set areas. check_overlapping s e a \<noteq> None"
  have "munmap fo vm start len areas w = Ret (if ?found then Inr () else Inl EINVAL, kept rs, w2)"
    using al 1(1) 2(1) by (simp add: munmap_def Let_def s_def [symmetric] e_def [symmetric])
  moreover have ?found if v: "s \<le> v" "v < e" "page_at areas v \<noteq> None" for v
  proof -
    obtain a where a: "a \<in> set areas" "covers v a" using v(3) unfolding page_at_None_iff by blast
    then have "check_overlapping s e a \<noteq> None" using v(1,2) by (simp add: check_overlapping_def covers_def)
    then show ?thesis using a(1) by blast
  qed
  ultimately show ?thesis using 1(3) 2 kp ok unfolding space_ok_def by fastforce
qed

lemma set_flags_loop_ok:
  assumes "inv w F" "\<forall>v \<in> set vs. page_ok v" "distinct vs"
  shows "inv (set_flags_loop vm fl vs w) F \<and> view (set_flags_loop vm fl vs w)
    = (\<lambda>v. if v \<in> set vs then map_option (pte_set_permission fl) (view w v) else view w v)"
  using assms
proof (induction vs arbitrary: w)
  case (Cons v vs)
  let ?w = "snd (vm_set_pte_flags vm v fl w)"
  have "inv ?w F \<and> view ?w = (view w)(v := map_option (pte_set_permission fl) (view w v))"
  proof (cases "view w v")
    case None
    then have "view w = (view w)(v := None)" by auto
    then show ?thesis using set_flags_absent [OF Cons.prems(1) _ None] Cons.prems None by simp
  next
    case (Some e)
    then show ?thesis using set_flags_ok [OF Cons.prems(1) _ Some, of fl] Cons.prems(2) by auto
  qed
  then show ?case using Cons by (auto simp: fun_eq_iff)
qed simp

lemma mprotect_ok:
  fixes addr len :: usize
  assumes ok: "space_ok page_ok areas" and fo: "\<forall>a \<in> set areas. seekable fo a" and w: "inv w (held_all areas + F)"
    and al: "aligned addr" and prot: "perm_from_prot prot = Ret perm"
  defines "s \<equiv> addr_floor addr" and "e \<equiv> addr_ceil (addr + len)"
  assumes se: "s < e" "a \<in> set areas" "ma_start a \<le> s" "e \<le> ma_end a"
  shows "\<exists>areas' w'. mprotect fo vm addr len prot areas w = Ret (Inr (), areas', w') \<and> space_ok page_ok areas'
    \<and> inv w' (held_all areas' + F)
    \<and> (\<forall>v. page_at areas' v = (if s \<le> v \<and> v < e then map_option (\<lambda>(t, _, f). (t, perm, f)) (page_at areas v) else page_at areas v))
    \<and> view w' = (\<lambda>v. if s \<le> v \<and> v < e then map_option (pte_set_permission (perm AND NOT PTE_W)) (view w v) else view w v)"
proof -
  have ca: "covers s a" using se by (simp add: covers_def)
  obtain i where i: "find_index (covers s) areas = Some i"
    using find_index_exists [where P = "covers s", OF se(2) ca] by auto
  let ?xs = "take i areas" and ?a = "areas ! i" and ?ys = "drop (Suc i) areas"
  have fi: "i < length areas" "covers s ?a" and as: "areas = ?xs @ ?a # ?ys" using find_index_Some [OF i] by auto
  have "?a = a" using covers_unique [OF ok _ se(2) fi(2) ca] fi(1) by simp
  then have r: "ma_start ?a \<le> s" "e \<le> ma_end ?a" using fi(2) se(4) by (auto simp: covers_def)
  obtain ls p rs where sp: "protect_split fo vm s e i areas w = Ret (length (?xs @ ls), ?xs @ ls @ p # rs @ ?ys, w)"
    "space_ok page_ok (?xs @ ls @ p # rs @ ?ys)" "ma_start p = s" "ma_end p = e"
    "held_all (?xs @ ls @ p # rs @ ?ys) = held_all areas" "\<forall>v. page_at (?xs @ ls @ p # rs @ ?ys) v = page_at areas v"
    using protect_split_ok [of page_ok ?xs ?a ?ys s e fo vm w] ok r se(1) fo fi(1) as [symmetric] by (auto simp: min_absorb2)
  let ?as = "?xs @ ls @ p # rs @ ?ys" and ?p = "p\<lparr>ma_perm := perm\<rparr>"
  let ?as' = "?xs @ ls @ ?p # rs @ ?ys"
  have pp: "ma_start ?p = s" "ma_end ?p = e" "covers v ?p = covers v p" for v using sp(3,4) by (simp_all add: ma_start_def ma_end_def covers_def)
  have "inv w (held_all areas + F)" by (rule w)
  moreover have "\<forall>v \<in> set [s..<e]. page_ok v" using sp(2-4) by (auto simp: space_ok_def area_ok_def covers_def)
  ultimately have fl: "inv (set_flags_loop vm (perm AND NOT PTE_W) [s..<e] w) (held_all areas + F)"
    "view (set_flags_loop vm (perm AND NOT PTE_W) [s..<e] w)
      = (\<lambda>v. if v \<in> set [s..<e] then map_option (pte_set_permission (perm AND NOT PTE_W)) (view w v) else view w v)"
    using set_flags_loop_ok [of w "held_all areas + F" "[s..<e]"] by auto
  have "mprotect fo vm addr len prot areas w = Ret (Inr (), ?as', set_flags_loop vm (perm AND NOT PTE_W) [s..<e] w)"
    using al prot i r(2) sp(1,3,4) fi(1) by (simp add: mprotect_def Let_def s_def [symmetric] e_def [symmetric] nth_append list_update_append min_absorb2)
  moreover have pk: "area_ok page_ok ?p" using sp(2) by (auto simp: space_ok_def area_ok_def covers_def ma_start_def ma_end_def)
  have "space_ok page_ok ?as'"
    using space_ok_replace(1) [of page_ok "?xs @ ls" p "rs @ ?ys" ?p] sp(2-4) pp pk by simp
  moreover have "held_all ?as' = held_all areas" using sp(5) by simp
  moreover have "page_at ?as' v = (if s \<le> v \<and> v < e then map_option (\<lambda>(t, _, f). (t, perm, f)) (page_at areas v) else page_at areas v)" for v
  proof -
    have c: "covers v p \<longleftrightarrow> s \<le> v \<and> v < e" using sp(3,4) by (simp add: covers_def)
    have "page_at ?as' v = (if covers v p then page_of ?p v else page_at ?as v)"
      using space_ok_replace(2) [of page_ok "?xs @ ls" p "rs @ ?ys" ?p v] sp(2-4) pp pk by simp
    moreover have "covers v p \<Longrightarrow> page_at ?as v = page_of p v"
      using page_at_covers [of page_ok "?xs @ ls" p "rs @ ?ys" v] sp(2) by simp
    moreover have "covers v p \<Longrightarrow> page_of ?p v = map_option (\<lambda>(t, _, f). (t, perm, f)) (page_of p v)"
      using pp sp(3) by (simp add: page_of_def)
    ultimately show ?thesis using c sp(6) by metis
  qed
  ultimately show ?thesis using fl by (auto simp: fun_eq_iff)
qed

end

section \<open>Properties\<close>

text \<open>The world after boot and an area of three lazily allocated pages, for the examples.\<close>

definition demo_build :: "(nat \<Rightarrow> u8) build" where
  "demo_build = \<lparr>b_debug = False, b_oom = no_oom, b_compress = id, b_decompress = Some, b_dev = byte_dev\<rparr>"

definition boot_world :: "sv39_page_table \<Rightarrow> machine \<Rightarrow> (nat \<Rightarrow> u8) vm_world" where
  "boot_world pt m = \<lparr>vw_pt = pt, vw_m = m, vw_rc = (\<lambda>_. 0), vw_zram = zram_new 2, vw_zrc = (\<lambda>_. 0),
     vw_swap = swap_new (\<lambda>n. [100..<100 + n]) 16, vw_src = (\<lambda>_. 0), vw_dev = (\<lambda>_. 0)\<rparr>"

definition demo_start :: "(nat \<Rightarrow> u8) vm_world" where
  "demo_start = boot_world \<lparr>root_ppn = 0x80300, pt_frames = [0x80300]\<rparr> demo_machine"

definition demo_area :: "unit map_area" where
  "demo_area = \<lparr>ma_inner = lm_new \<lparr>range_l = 0x60000, range_r = 0x60003\<rparr>, ma_type = Framed,
     ma_perm = PTE_R OR PTE_W OR PTE_U, ma_file = None\<rparr>"

definition demo_files :: "(unit, 'w) file_ops" where
  "demo_files = \<lparr>fo_readable = (\<lambda>_. True), fo_deep_clone = id, fo_lseek = (\<lambda>_ _ f. (Inr 0, f)), fo_get_offset = (\<lambda>_. 0),
     fo_get_size = (\<lambda>_. 0), fo_read_page = (\<lambda>_ f w. (f, w)), fo_get_single_cache = (\<lambda>_ _ _. Panic)\<rparr>"

lemma demo_world:
  obtains pt m where "pt_new no_oom demo_machine = Ret (pt, m)" "world_inv 0x80300 (boot_world pt m) {#}"
    "world_view (boot_world pt m) = Map.empty" "world_room (boot_world pt m) = 0xff"
proof -
  obtain pt m where d: "pt_new no_oom demo_machine = Ret (pt, m)" "pt_invar 0x80300 (pt, m)" "pt_view (pt, m) = Map.empty"
    "unallocated_frames m = 0xff"
    by (rule demo_pt)
  have "world_inv 0x80300 (boot_world pt m) {#}"
    using d(2) zram_new_invar [of 2] swap_new_invar(1) [of 100 16] by (simp add: world_inv_def boot_world_def)
  then show ?thesis
    using that [OF d(1)] d by (simp add: world_view_def world_room_def boot_world_def fun_eq_iff)
qed

lemma demo_space:
  "space_ok canonical [demo_area]" "held_all [demo_area] = {#}" "\<forall>a \<in> set [demo_area]. seekable (demo_files :: (unit, 'w) file_ops) a"
  "ma_start demo_area = 0x60000" "ma_end demo_area = 0x60003"
  by (auto simp: space_ok_def area_ok_def demo_area_def lm_shape_def lm_new_def covers_def canonical_def seekable_def demo_files_def
      ma_start_def ma_end_def lm_start_def lm_end_def held_def)



text \<open>(C14) \<open>mprotect\<close> of a range inside one area gives exactly the pages of the range the new permissions: the areas are
  split as needed, every page keeps its frame, the other pages their permissions, and the page table entries of the range
  get the new permissions without the write bit, which a write fault adds when the page is private.\<close>

theorem mprotect_correct:
  fixes addr len prot :: usize
  assumes "space_ok canonical areas" "\<forall>a \<in> set areas. seekable fo a" "world_inv l w (held_all areas + F)" "aligned addr" "perm_from_prot prot = Ret perm"
    "addr_floor addr < addr_ceil (addr + len)" "a \<in> set areas" "ma_start a \<le> addr_floor addr" "addr_ceil (addr + len) \<le> ma_end a"
  shows "\<exists>areas' w'. mprotect fo (sv39_vm b) addr len prot areas w = Ret (Inr (), areas', w') \<and> space_ok canonical areas'
    \<and> world_inv l w' (held_all areas' + F)
    \<and> (\<forall>v. page_at areas' v = (if addr_floor addr \<le> v \<and> v < addr_ceil (addr + len)
         then map_option (\<lambda>(t, _, f). (t, perm, f)) (page_at areas v) else page_at areas v))
    \<and> world_view w' = (\<lambda>v. if addr_floor addr \<le> v \<and> v < addr_ceil (addr + len)
         then map_option (pte_set_permission (perm AND NOT PTE_W)) (world_view w v) else world_view w v)"
  by (rule sv39_vm.mprotect_ok [OF assms])

theorem mprotect_correct_witness:
  "\<exists>pt m areas' w'. pt_new no_oom demo_machine = Ret (pt, m)
    \<and> mprotect demo_files (sv39_vm demo_build) 0x60001000 0x1000 1 [demo_area] (boot_world pt m) = Ret (Inr (), areas', w')
    \<and> page_at areas' 0x60000 = Some (Framed, PTE_R OR PTE_W OR PTE_U, Unallocated)
    \<and> page_at areas' 0x60001 = Some (Framed, PTE_R OR PTE_U, Unallocated)"
proof -
  obtain pt m where d: "pt_new no_oom demo_machine = Ret (pt, m)" "world_inv 0x80300 (boot_world pt m) (held_all [demo_area] + {#})"
    using demo_world demo_space(2) by (metis add.right_neutral)
  have a: "aligned 0x60001000" "addr_floor 0x60001000 = 0x60001" "addr_ceil (0x60001000 + 0x1000) = 0x60002"
    by (simp_all add: aligned_def page_offset_def addr_floor_def addr_ceil_def layout_defs)
  have prot: "perm_from_prot 1 = Ret (PTE_R OR PTE_U)" by code_simp
  have p: "page_at [demo_area] v = Some (Framed, PTE_R OR PTE_W OR PTE_U, Unallocated)" if "v = 0x60000 \<or> v = 0x60001" for v
    using that demo_space(4,5) by (auto simp: covers_def page_of_def) (simp_all add: demo_area_def lm_new_def)
  from mprotect_correct [OF demo_space(1,3) d(2) a(1) prot, of "0x1000" demo_area demo_build] obtain areas' w' where
    r: "mprotect demo_files (sv39_vm demo_build) 0x60001000 0x1000 1 [demo_area] (boot_world pt m) = Ret (Inr (), areas', w')"
    "\<forall>v. page_at areas' v = (if 0x60001 \<le> v \<and> v < 0x60002
       then map_option (\<lambda>(t, _, f). (t, PTE_R OR PTE_U, f)) (page_at [demo_area] v) else page_at [demo_area] v)"
    unfolding a demo_space(4,5) by auto
  show ?thesis using d(1) r(1) r(2) [rule_format, of "0x60000"] r(2) [rule_format, of "0x60001"] p [of "0x60000"] p [of "0x60001"]
    by (intro exI [of _ pt] exI [of _ m] exI [of _ areas'] exI [of _ w']) simp
qed

lemma unat_lt: "unat (x :: usize) < 2 ^ 64"
  using unsigned_less [of x] by simp

lemma aligned_ceil:
  assumes "aligned a"
  shows "addr_ceil a = addr_floor a"
proof -
  have "addr_floor a < 2 ^ 52" using unat_lt [of a] by (simp add: addr_floor_nat layout_defs)
  moreover have "addr_of_page (addr_floor a) = a"
    using addr_split [of a] assms by (simp add: aligned_def page_offset_addr_def addr_of_page_def)
  ultimately show ?thesis using ceil_addr_of_page by metis
qed

lemma protect_split_empty:
  assumes "lm_shape (ma_inner a)" "covers s a" "areas ! i = a"
  shows "protect_split fo vm s s i areas w = Panic"
proof (cases "s = ma_start a")
  case True
  then have "s < ma_end a" using assms(2) by (simp add: covers_def)
  moreover have "lm_into_two s (ma_inner a) = Ret (Inl (), ma_inner a)" using True by (simp add: lm_into_two_def ma_start_def)
  ultimately show ?thesis
    using True assms(3) by (cases "file_at fo s s (ma_file a)") (simp_all add: protect_split_def ma_into_two_def)
next
  case False
  then have c: "lm_start (ma_inner a) < s" "s < lm_end (ma_inner a)" using assms(2) by (auto simp: covers_def ma_start_def ma_end_def)
  obtain lm1 lm2 where l: "lm_into_two s (ma_inner a) = Ret (Inr lm2, lm1)" "vpn_range lm2 = \<lparr>range_l = s, range_r = lm_end (ma_inner a)\<rparr>"
    using lm_into_two_shape [OF assms(1) c] by blast
  then have "lm_into_two s lm2 = Ret (Inl (), lm2)" by (simp add: lm_into_two_def lm_start_def)
  then have "ma_into_three fo vm s s a w = Panic \<or> (\<exists>x w'. ma_into_three fo vm s s a w = Ret (Inl (), x, w'))"
    using l(1) by (cases "drop_all vm (frames lm2) w") (simp_all add: ma_into_three_def lm_into_three_def)
  then show ?thesis using c assms(3) by (auto simp: protect_split_def ma_start_def ma_end_def)
qed

text \<open>(C33) \<open>mprotect\<close> with length zero on a mapped, aligned address panics the kernel: the empty range is split off with
  \<open>into_two\<close> or \<open>into_three\<close>, whose error is unwrapped.\<close>

theorem mprotect_zero_length_panics:
  fixes addr prot :: usize
  assumes "space_ok page_ok areas" "aligned addr" "a \<in> set areas" "covers (addr_floor addr) a"
  shows "mprotect fo vm addr 0 prot areas w = Panic"
proof -
  let ?s = "addr_floor addr"
  obtain i where i: "find_index (covers ?s) areas = Some i"
    using find_index_exists [where P = "covers ?s", OF assms(3,4)] by auto
  have f: "i < length areas" "covers ?s (areas ! i)" using find_index_Some [OF i] by blast+
  have "lm_shape (ma_inner (areas ! i))" using assms(1) f(1) by (simp add: space_ok_def area_ok_def)
  then have "protect_split fo vm ?s ?s i areas w = Panic" using f(2) by (intro protect_split_empty) auto
  moreover have "\<not> ma_end (areas ! i) < ?s" using f(2) by (simp add: covers_def)
  ultimately show ?thesis
    using i assms(2) aligned_ceil [OF assms(2)] by (cases "perm_from_prot prot") (simp_all add: mprotect_def Let_def)
qed

theorem mprotect_zero_length_panics_witness:
  "mprotect demo_files (sv39_vm demo_build) 0x60000000 0 1 [demo_area] demo_start = Panic"
proof -
  have "aligned 0x60000000" "covers (addr_floor 0x60000000) demo_area"
    using demo_space(4,5) by (simp_all add: aligned_def page_offset_def addr_floor_def layout_defs covers_def)
  then show ?thesis using mprotect_zero_length_panics [OF demo_space(1), of "0x60000000" demo_area] by simp
qed

section \<open>The program break\<close>


lemma ceil_below:
  assumes "aligned y" "x < y"
  shows "addr_ceil x \<le> addr_floor y"
proof -
  have "unat y mod PAGE_SIZE = 0" using assms(1) page_offset_nat [of y] by (simp add: aligned_def)
  then obtain k where k: "unat y = k * PAGE_SIZE" by (metis dvd_def mod_0_imp_dvd mult.commute)
  have xy: "unat x < k * 4096" "k * 4096 < 2 ^ 64" using assms(2) k unat_lt [of y] by (simp_all add: word_less_nat_alt layout_defs)
  then have "unat x \<le> 2 ^ 64 - PAGE_SIZE" by (simp add: layout_defs)
  from addr_ceil_nat [OF this] show ?thesis using xy k by (simp add: addr_floor_nat layout_defs)
qed

text \<open>(C31) Lowering the program break panics the kernel, whenever the new break is above the bottom of the heap and no
  area has the page at the old break (the page after the heap): \<open>sbrk\<close> hands \<open>munmap\<close> the old break with the negative
  increment as length, a range that ends before it starts, and unwraps the error.\<close>

theorem sbrk_shrink_panics:
  assumes "sint increment < 0" "heap_bottom < heap_pt + increment" "heap_pt + increment < heap_pt"
    "\<forall>a \<in> set areas. \<not> covers (addr_floor heap_pt) a"
  shows "sbrk fo vm fds heap_pt heap_bottom increment areas w = Panic"
proof -
  have "munmap fo vm heap_pt increment areas w = Ret (Inl EINVAL, areas, w)"
  proof (cases "aligned heap_pt")
    case True
    note c = ceil_below [OF True assms(3)]
    have "\<forall>a \<in> set areas. check_overlapping (addr_floor heap_pt) (addr_ceil (heap_pt + increment)) a = None"
      using assms(4) c by (fastforce simp: check_overlapping_def covers_def)
    then show ?thesis using True by (simp add: munmap_def Let_def munmap_scan_none)
  qed (simp add: munmap_def)
  then show ?thesis using assms(1,2) by (simp add: sbrk_def Let_def)
qed

theorem sbrk_shrink_panics_witness:
  "sbrk demo_files (sv39_vm demo_build) (fdt_new []) 0x60003000 0x60000000 (- 0x1000) [demo_area] demo_start = Panic"
proof -
  have "\<forall>a \<in> set [demo_area]. \<not> covers (addr_floor 0x60003000) a"
    using demo_space(4,5) by (simp add: addr_floor_def layout_defs covers_def)
  then show ?thesis using sbrk_shrink_panics [of "- 0x1000" "0x60000000" "0x60003000" "[demo_area]"] by simp
qed

text \<open>(C34) Raising the program break from an address inside a page moves the break and maps nothing, however many pages the
  new break adds: \<open>mmap\<close> refuses the unaligned start and \<open>sbrk\<close> drops its result.\<close>

theorem sbrk_unaligned_maps_nothing:
  assumes "\<not> aligned heap_pt" "0 < sint increment" "heap_pt + increment \<le> heap_bottom + of_nat USER_HEAP_SIZE"
  shows "sbrk fo vm fds heap_pt heap_bottom increment areas w = Ret (heap_pt + increment, areas, w)"
proof -
  have "heap_pt AND 0xfff \<noteq> 0" using assms(1) by (simp add: aligned_def page_offset_def layout_defs)
  then show ?thesis using assms(2,3) by (auto simp: sbrk_def mmap_def Let_def not_less)
qed

theorem sbrk_unaligned_maps_nothing_witness:
  "sbrk demo_files (sv39_vm demo_build) (fdt_new [] :: unit fd_table) 0x10010 0x10000 0x3000 [] demo_start
     = Ret (0x13010, [], demo_start)"
  using sbrk_unaligned_maps_nothing [of "0x10010" "0x3000" "0x10000"]
  by (simp add: aligned_def page_offset_def layout_defs USER_HEAP_SIZE_def)

end

