(* ===== verification/Pid.thy ===== *)
theory Pid
  imports Id_Alloc Address
begin

text \<open>
  \<open>task/pid.rs\<close>: the recycling allocator behind process ids, thread ids and kernel-stack ids, with
  \<open>Vec::push\<close>/\<open>Vec::pop\<close> at the end of the list; and the address arithmetic of
  \<open>hal/arch/riscv/kern_stack.rs\<close> that turns such an id into a stack or trap-context address.
\<close>

section \<open>RecycleAllocator\<close>

record recycle_allocator =
  ra_current :: nat
  ra_recycled :: "nat list"

definition recycle_new :: recycle_allocator where
  "recycle_new = \<lparr>ra_current = 1, ra_recycled = []\<rparr>"

definition recycle_alloc :: "recycle_allocator \<Rightarrow> nat \<times> recycle_allocator" where
  "recycle_alloc s =
     (if ra_recycled s \<noteq> []
      then (last (ra_recycled s), s\<lparr>ra_recycled := butlast (ra_recycled s)\<rparr>)
      else (ra_current s + 1 - 1, s\<lparr>ra_current := ra_current s + 1\<rparr>))"

definition recycle_dealloc :: "nat \<Rightarrow> recycle_allocator \<Rightarrow> recycle_allocator outcome" where
  "recycle_dealloc i s =
     (if \<not> i < ra_current s then Panic
      else if list_ex (\<lambda>j. j = i) (ra_recycled s) then Panic
      else Ret (s\<lparr>ra_recycled := ra_recycled s @ [i]\<rparr>))"

definition get_allocated :: "recycle_allocator \<Rightarrow> nat" where
  "get_allocated s = ra_current s - length (ra_recycled s)"

text \<open>\<open>pid_alloc\<close> wraps the global allocator's answer in a \<open>PidHandle\<close>; dropping the handle gives
  the id back.\<close>

datatype pid_handle = PidHandle nat

definition pid_alloc :: "recycle_allocator \<Rightarrow> pid_handle \<times> recycle_allocator" where
  "pid_alloc s = (case recycle_alloc s of (i, s') \<Rightarrow> (PidHandle i, s'))"

fun pid_drop :: "pid_handle \<Rightarrow> recycle_allocator \<Rightarrow> recycle_allocator outcome" where
  "pid_drop (PidHandle i) s = recycle_dealloc i s"

subsection \<open>Invariant and contract\<close>

definition recycle_invar :: "recycle_allocator \<Rightarrow> bool" where
  "recycle_invar s \<longleftrightarrow> 1 \<le> ra_current s \<and> distinct (ra_recycled s)
     \<and> set (ra_recycled s) \<subseteq> {1..<ra_current s}"

definition recycle_used :: "recycle_allocator \<Rightarrow> nat set" where
  "recycle_used s = {1..<ra_current s} - set (ra_recycled s)"

definition recycle_avail :: "recycle_allocator \<Rightarrow> nat set" where
  "recycle_avail s = set (ra_recycled s) \<union> {ra_current s..}"

lemmas recycle_defs [alloc_defs] = recycle_alloc_def recycle_dealloc_def recycle_invar_def
  recycle_used_def recycle_avail_def

lemma recycle_new_invar: "recycle_invar recycle_new" "recycle_used recycle_new = {}"
  by (simp_all add: recycle_new_def alloc_defs)

lemma list_ex_eq_iff [simp]: "list_ex (\<lambda>j. j = i) xs \<longleftrightarrow> i \<in> set xs"
  by (auto simp: list_ex_iff)

interpretation pid: id_allocator "\<lambda>s. Some (recycle_alloc s)" recycle_dealloc
  recycle_invar recycle_used recycle_avail
proof (unfold_locales, goal_cases)
  case (1 s i s')
  show ?case
  proof (cases "ra_recycled s" rule: rev_cases)
    case Nil
    with 1 show ?thesis by (auto simp: alloc_defs)
  next
    case (snoc ys y)
    with 1(2) have "i = y" "s' = s\<lparr>ra_recycled := ys\<rparr>"
      by (auto simp: recycle_alloc_def)
    with 1(1) snoc show ?thesis by (auto simp: alloc_defs)
  qed
next
  case (2 s)
  then show ?case by simp
next
  case (3 s)
  then show ?case by (auto simp: alloc_defs)
next
  case (4 s i)
  then show ?case by (auto simp: alloc_defs)
qed

text \<open>
  \<open>dealloc\<close>'s two assertions reject exactly the ids that are not allocated, id 0 apart (which no
  allocator ever hands out and which passes both assertions).
\<close>

lemma recycle_dealloc_panics_iff:
  assumes "recycle_invar s" "1 \<le> i"
  shows "recycle_dealloc i s = Panic \<longleftrightarrow> i \<notin> recycle_used s"
  using assms by (auto simp: alloc_defs)

lemma recycle_dealloc_0:
  assumes "recycle_invar s"
  shows "\<exists>s'. recycle_dealloc 0 s = Ret s' \<and> fst (recycle_alloc s') = 0"
  using assms by (auto simp: alloc_defs)

lemma card_recycle_used:
  assumes "recycle_invar s"
  shows "get_allocated s = card (recycle_used s) + 1"
proof -
  have "card (recycle_used s) = ra_current s - 1 - length (ra_recycled s)"
    using assms by (simp add: alloc_defs card_Diff_subset distinct_card)
  moreover have "length (ra_recycled s) \<le> ra_current s - 1"
    using assms card_mono [of "{1..<ra_current s}" "set (ra_recycled s)"]
    by (simp add: recycle_invar_def distinct_card)
  ultimately show ?thesis
    using assms unfolding get_allocated_def recycle_invar_def by linarith
qed

section \<open>Stack and trap-context addresses\<close>

text \<open>
  Addresses are 64-bit words, so that the subtractions wrap where the source's do in a release
  build.
\<close>

definition kernel_stack_position :: "usize \<Rightarrow> usize \<times> usize" where
  "kernel_stack_position kstack_id =
     (let top = of_nat TRAMPOLINE - kstack_id * (of_nat KERNEL_STACK_SIZE + of_nat PAGE_SIZE);
          bottom = top - of_nat KERNEL_STACK_SIZE
      in (bottom, top))"

definition trap_cx_bottom_from_tid :: "usize \<Rightarrow> usize" where
  "trap_cx_bottom_from_tid tid = of_nat TRAP_CONTEXT_BASE - tid * of_nat PAGE_SIZE"

definition ustack_bottom_from_tid :: "usize \<Rightarrow> usize" where
  "ustack_bottom_from_tid tid =
     of_nat USER_STACK_BASE - tid * (of_nat PAGE_SIZE + of_nat USER_STACK_SIZE)"

lemma kernel_stack_position_unat:
  assumes "unat i * (KERNEL_STACK_SIZE + PAGE_SIZE) + KERNEL_STACK_SIZE \<le> TRAMPOLINE"
  shows "unat (snd (kernel_stack_position i)) = TRAMPOLINE - unat i * (KERNEL_STACK_SIZE + PAGE_SIZE)"
    and "unat (fst (kernel_stack_position i))
      = TRAMPOLINE - unat i * (KERNEL_STACK_SIZE + PAGE_SIZE) - KERNEL_STACK_SIZE"
proof -
  let ?B = "KERNEL_STACK_SIZE + PAGE_SIZE"
  have top: "snd (kernel_stack_position i) = of_nat TRAMPOLINE - i * of_nat ?B"
    by (simp add: kernel_stack_position_def Let_def)
  show t: "unat (snd (kernel_stack_position i)) = TRAMPOLINE - unat i * ?B"
    unfolding top using assms by (intro unat_base_minus) (simp_all add: layout_defs)
  have bot: "fst (kernel_stack_position i)
      = of_nat (unat (snd (kernel_stack_position i))) - 1 * of_nat KERNEL_STACK_SIZE"
    by (simp add: kernel_stack_position_def Let_def)
  have "unat (fst (kernel_stack_position i))
      = unat (snd (kernel_stack_position i)) - unat (1 :: usize) * KERNEL_STACK_SIZE"
    unfolding bot using assms t
    by (subst unat_base_minus) (simp_all add: layout_defs)
  then show "unat (fst (kernel_stack_position i)) = TRAMPOLINE - unat i * ?B - KERNEL_STACK_SIZE"
    by (simp add: t)
qed

lemma ustack_bottom_unat:
  assumes "unat tid * (PAGE_SIZE + USER_STACK_SIZE) \<le> USER_STACK_BASE"
  shows "unat (ustack_bottom_from_tid tid) = USER_STACK_BASE - unat tid * (PAGE_SIZE + USER_STACK_SIZE)"
proof -
  have "ustack_bottom_from_tid tid
      = of_nat USER_STACK_BASE - tid * of_nat (PAGE_SIZE + USER_STACK_SIZE)"
    by (simp add: ustack_bottom_from_tid_def)
  then show ?thesis
    using assms by (simp only:) (intro unat_base_minus, simp_all add: layout_defs)
qed

section \<open>Properties\<close>

text \<open>Whatever sequence of allocations and handle drops the kernel performs on a fresh id
  allocator (process ids, thread ids, kernel-stack ids), no drop panics, no two live handles carry
  the same id, no id is 0, and the allocator accounts for exactly the live handles.\<close>

theorem pid_history_safe:
  "\<exists>held s. id_history (\<lambda>s. Some (recycle_alloc s)) recycle_dealloc es [] recycle_new = Ret (held, s)
     \<and> recycle_invar s \<and> distinct held \<and> recycle_used s = set held \<and> 0 \<notin> set held"
proof -
  obtain held s where "id_history (\<lambda>s. Some (recycle_alloc s)) recycle_dealloc es [] recycle_new
      = Ret (held, s)" "recycle_invar s" "distinct held" "set held \<subseteq> recycle_used s"
    "recycle_used s - set held = {}"
    using pid.history_safe [of recycle_new "[]" es] recycle_new_invar by auto
  moreover from this have "recycle_used s = set held" by blast
  moreover have "0 \<notin> recycle_used s"
    by (simp add: recycle_used_def)
  ultimately show ?thesis by auto
qed

text \<open>\<open>get_allocated\<close>, documented as the count of currently allocated ids, is one more than
  the number of live ids; so \<open>get_allocated() > 1\<close>, which \<open>load_elf\<close> uses to ask whether the process
  has more than one thread, holds as soon as there is one.\<close>

theorem get_allocated_off_by_one:
  assumes "recycle_invar s"
  shows "get_allocated s = card (recycle_used s) + 1 \<and> (get_allocated s > 1 \<longleftrightarrow> recycle_used s \<noteq> {})"
  using card_recycle_used [OF assms] by (simp add: card_gt_0_iff recycle_used_def)

theorem get_allocated_off_by_one_witness:
  "get_allocated (snd (recycle_alloc recycle_new)) > 1"
proof -
  have "recycle_invar (snd (recycle_alloc recycle_new))"
    "recycle_used (snd (recycle_alloc recycle_new)) \<noteq> {}"
    by (auto simp: recycle_new_def alloc_defs)
  then show ?thesis using get_allocated_off_by_one by blast
qed

text \<open>(C29) The kernel stacks of two different ids, and the user stacks of two different threads,
  never overlap: an unmapped page lies between the higher one and the lower one. The bound on the
  ids is that the lower region stays inside the address space (no wrap-around).\<close>

theorem stacks_disjoint:
  assumes "unat i < unat j"
    and kj: "unat j * (KERNEL_STACK_SIZE + PAGE_SIZE) + KERNEL_STACK_SIZE \<le> TRAMPOLINE"
    and uj: "unat u < unat v" "(unat v + 1) * (PAGE_SIZE + USER_STACK_SIZE) \<le> USER_STACK_BASE"
  shows "unat (snd (kernel_stack_position j)) + PAGE_SIZE \<le> unat (fst (kernel_stack_position i))
    \<and> unat (fst (kernel_stack_position i)) + KERNEL_STACK_SIZE = unat (snd (kernel_stack_position i))
    \<and> unat (snd (kernel_stack_position i)) \<le> TRAMPOLINE
    \<and> unat (ustack_bottom_from_tid v) + PAGE_SIZE \<le> unat (ustack_bottom_from_tid u) - USER_STACK_SIZE"
proof -
  have step: "a * k + k \<le> b * k" if "a < b" for a b k :: nat
    using that mult_le_mono1 [of "Suc a" b k] by simp
  note m = step [OF assms(1), of "KERNEL_STACK_SIZE + PAGE_SIZE"]
    and n = step [OF uj(1), of "PAGE_SIZE + USER_STACK_SIZE"]
  have i: "unat i * (KERNEL_STACK_SIZE + PAGE_SIZE) + KERNEL_STACK_SIZE \<le> TRAMPOLINE"
    using kj m by linarith
  have v': "unat v * (PAGE_SIZE + USER_STACK_SIZE) + (PAGE_SIZE + USER_STACK_SIZE) \<le> USER_STACK_BASE"
    using uj(2) by (simp add: distrib_right)
  then have b: "unat u * (PAGE_SIZE + USER_STACK_SIZE) \<le> USER_STACK_BASE"
    "unat v * (PAGE_SIZE + USER_STACK_SIZE) \<le> USER_STACK_BASE"
    using n by linarith+
  show ?thesis
    unfolding kernel_stack_position_unat [OF i] kernel_stack_position_unat [OF kj]
      ustack_bottom_unat [OF b(1)] ustack_bottom_unat [OF b(2)]
    using m i kj n v' by linarith
qed

theorem stacks_disjoint_witness:
  "unat (snd (kernel_stack_position 2)) + PAGE_SIZE \<le> unat (fst (kernel_stack_position 1))
   \<and> unat (ustack_bottom_from_tid 2) + PAGE_SIZE \<le> unat (ustack_bottom_from_tid 1) - USER_STACK_SIZE"
  using stacks_disjoint [of 1 2 1 2] by (simp add: layout_defs)

end
