(* ===== verification/Page_Fault.thy ===== *)
theory Page_Fault
  imports Memory_Set User_Access Pid
begin

text \<open>
  \<open>mm/memory_set.rs\<close>, continued: page faults (lazy allocation, file pages, pages brought back from compressed memory and
  swap, copy on write), the reclaim of a whole address space, and the stacks and trap contexts of threads.
\<close>

section \<open>Page faults\<close>

text \<open>A page of a file mapping: writable pages are read into a new frame, others are mapped from the page cache.\<close>

definition fault_file ::
  "('f, 'w) file_ops \<Rightarrow> 'w vm \<Rightarrow> 'f \<Rightarrow> virt_page_num \<Rightarrow> 'f map_area \<Rightarrow> 'w
     \<Rightarrow> ((memory_error + phys_page_num) \<times> 'f map_area \<times> 'w) outcome" where
  "fault_file fo vm file vpn a w =
     (let old_offset = fo_get_offset fo file;
          offset_in_area = addr_of_page vpn - addr_of_page (ma_start a)
      in
      if old_offset + offset_in_area > (fo_get_size fo file + of_nat PAGE_SIZE - 1) AND NOT 0xfff then Ret (Inl BeyondEOF, a, w)
      else if has_flags (ma_perm a) PTE_W then
        bind_outcome (map_one_zeroed_unchecked vm vpn a w) (\<lambda>(allocated_ppn, a, w).
          case fo_lseek fo offset_in_area SEEK_CUR file of
            (Inl _, _) \<Rightarrow> Panic
          | (Inr _, file) \<Rightarrow>
              (case fo_read_page fo allocated_ppn file w of (file, w) \<Rightarrow>
                (case fo_lseek fo old_offset SEEK_SET file of
                   (Inl _, _) \<Rightarrow> Panic
                 | (Inr _, file) \<Rightarrow> Ret (Inr allocated_ppn, a\<lparr>ma_file := Some file\<rparr>, w))))
      else
        bind_outcome (fo_get_single_cache fo (old_offset + offset_in_area) file w) (\<lambda>(cache_ppn, w).
          bind_outcome (vm_map vm vpn cache_ppn (ma_perm a) w) (\<lambda>w.
            bind_outcome (alloc_in_memory vpn cache_ppn (ma_inner a)) (\<lambda>lm.
              Ret (Inr cache_ppn, a\<lparr>ma_inner := lm\<rparr>, w)))))"

text \<open>A page that was brought back is mapped and put on the active list; the frame is at index \<open>i\<close>.\<close>

definition fault_restored ::
  "'w vm \<Rightarrow> virt_page_num \<Rightarrow> nat \<Rightarrow> 'f map_area \<Rightarrow> (memory_error + phys_page_num) \<times> frame \<times> 'w
     \<Rightarrow> (phys_page_num \<times> 'f map_area \<times> 'w) outcome" where
  "fault_restored vm vpn i a = (\<lambda>(r, f, w).
     case r of
       Inl _ \<Rightarrow> Panic
     | Inr ppn \<Rightarrow>
         bind_outcome (vm_map vm vpn ppn (ma_perm a) w) (\<lambda>w.
           let lm = ma_inner a in
           Ret (ppn, a\<lparr>ma_inner := lm\<lparr>frames := (frames lm)[i := f], active := active lm @ [of_nat (vpn - ma_start a)]\<rparr>\<rparr>, w)))"

definition fault_anon ::
  "'w vm \<Rightarrow> virt_page_num \<Rightarrow> 'f map_area \<Rightarrow> 'w \<Rightarrow> (phys_page_num \<times> 'f map_area \<times> 'w) outcome" where
  "fault_anon vm vpn a w =
     bind_outcome (lm_index (ma_inner a) vpn) (\<lambda>i.
       let f = frames (ma_inner a) ! i in
       case f of
         InMemory _ \<Rightarrow> Panic
       | Unallocated \<Rightarrow> map_one_zeroed_unchecked vm vpn a w
       | Compressed _ \<Rightarrow>
           bind_outcome (bind_outcome (unzip_frame vm f w) (fault_restored vm vpn i a)) (\<lambda>(ppn, a, w).
             Ret (ppn, a\<lparr>ma_inner := (ma_inner a)\<lparr>compressed := compressed (ma_inner a) - 1\<rparr>\<rparr>, w))
       | SwappedOut _ \<Rightarrow>
           bind_outcome (bind_outcome (swap_in vm f w) (fault_restored vm vpn i a)) (\<lambda>(ppn, a, w).
             Ret (ppn, a\<lparr>ma_inner := (ma_inner a)\<lparr>swapped := swapped (ma_inner a) - 1\<rparr>\<rparr>, w)))"

definition fault_area ::
  "('f, 'w) file_ops \<Rightarrow> 'w vm \<Rightarrow> virt_page_num \<Rightarrow> 'f map_area \<Rightarrow> 'w \<Rightarrow> ((memory_error + phys_page_num) \<times> 'f map_area \<times> 'w) outcome" where
  "fault_area fo vm vpn a w =
     (if \<not> vm_is_mapped vm w vpn then
        (case ma_file a of
           Some file \<Rightarrow> fault_file fo vm file vpn a w
         | None \<Rightarrow> bind_outcome (fault_anon vm vpn a w) (\<lambda>(ppn, a, w). Ret (Inr ppn, a, w)))
      else if has_flags (ma_perm a) PTE_W then
        bind_outcome (copy_on_write vm vpn a w) (\<lambda>(ppn, a, w). Ret (Inr ppn, a, w))
      else Ret (Inl NoPermission, a, w))"

definition do_page_fault ::
  "('f, 'w) file_ops \<Rightarrow> 'w vm \<Rightarrow> virt_addr \<Rightarrow> 'f map_area list \<Rightarrow> 'w \<Rightarrow> ((memory_error + phys_addr) \<times> 'f map_area list \<times> 'w) outcome" where
  "do_page_fault fo vm addr areas w =
     (let vpn = addr_floor addr in
      case find_index (\<lambda>a. has_flags (ma_perm a) (PTE_R OR PTE_U) \<and> covers vpn a) areas of
        Some idx \<Rightarrow>
          bind_outcome (fault_area fo vm vpn (areas ! idx) w) (\<lambda>(r, a, w).
            Ret (map_sum id (\<lambda>ppn. page_offset_addr ppn (page_offset addr)) r, areas[idx := a], w))
      | None \<Rightarrow> Ret (Inl BadAddress, areas, w))"

definition check_page_fault ::
  "('f, 'd vm_world) file_ops \<Rightarrow> 'd build \<Rightarrow> virt_addr \<Rightarrow> 'f map_area list \<Rightarrow> 'd vm_world
     \<Rightarrow> ((int + phys_addr) \<times> 'f map_area list \<times> 'd vm_world) outcome" where
  "check_page_fault fo b addr areas w =
     bind_outcome (frame_reserve (b_oom b) 3 (vw_m w)) (\<lambda>m.
       bind_outcome (do_page_fault fo (sv39_vm b) addr areas (w\<lparr>vw_m := m\<rparr>)) (\<lambda>(r, areas, w).
         case r of
           Inr pa \<Rightarrow> Ret (Inr pa, areas, w)
         | Inl e \<Rightarrow> if e = BeyondEOF \<or> e = NoPermission \<or> e = BadAddress then Ret (Inl EFAULT, areas, w) else Panic))"

section \<open>Reclaiming an address space\<close>

primrec clean_loop ::
  "('f map_area \<Rightarrow> bool) \<Rightarrow> ('f map_area \<Rightarrow> 'w \<Rightarrow> (usize \<times> 'f map_area \<times> 'w) outcome) \<Rightarrow> 'f map_area list \<Rightarrow> 'w
     \<Rightarrow> (usize \<times> 'f map_area list \<times> 'w) outcome" where
  "clean_loop P f [] w = Ret (0, [], w)"
| "clean_loop P f (a # areas) w =
     bind_outcome (if P a then f a w else Ret (0, a, w)) (\<lambda>(n, a, w).
       bind_outcome (clean_loop P f areas w) (\<lambda>(m, areas, w). Ret (n + m, a # areas, w)))"

definition do_shallow_clean :: "'w vm \<Rightarrow> 'f map_area list \<Rightarrow> 'w \<Rightarrow> (usize \<times> 'f map_area list \<times> 'w) outcome" where
  "do_shallow_clean vm areas w =
     clean_loop (\<lambda>a. ma_start a \<ge> MMAP_BASE div PAGE_SIZE \<and> ma_start a < TASK_SIZE div PAGE_SIZE \<and> ma_file a = None)
       (ma_do_oom vm) areas w"

definition do_deep_clean :: "'w vm \<Rightarrow> 'f map_area list \<Rightarrow> 'w \<Rightarrow> (usize \<times> 'f map_area list \<times> 'w) outcome" where
  "do_deep_clean vm areas w =
     clean_loop (\<lambda>a. ma_start a < TASK_SIZE div PAGE_SIZE \<and> ma_file a = None)
       (\<lambda>a. if ma_start a < MMAP_BASE div PAGE_SIZE then force_swap vm a else ma_do_oom vm a) areas w"

section \<open>Stacks and trap contexts of threads\<close>

definition alloc_user_res :: "'w vm \<Rightarrow> usize \<Rightarrow> bool \<Rightarrow> 'f map_area list \<Rightarrow> 'w \<Rightarrow> ('f map_area list \<times> 'w) outcome" where
  "alloc_user_res vm tid alloc_stack areas w =
     bind_outcome
       (if alloc_stack then
          let ustack_bottom = ustack_bottom_from_tid tid; ustack_top = ustack_bottom - of_nat USER_STACK_SIZE
          in insert_framed_area vm ustack_top ustack_bottom (PTE_R OR PTE_W OR PTE_U) areas w
        else Ret (areas, w)) (\<lambda>(areas, w).
       let trap_cx_bottom = trap_cx_bottom_from_tid tid; trap_cx_top = trap_cx_bottom + of_nat PAGE_SIZE
       in insert_framed_area vm trap_cx_bottom trap_cx_top (PTE_R OR PTE_W) areas w)"

definition dealloc_user_res :: "'w vm \<Rightarrow> usize \<Rightarrow> 'f map_area list \<Rightarrow> 'w \<Rightarrow> ('f map_area list \<times> 'w) outcome" where
  "dealloc_user_res vm tid areas w =
     bind_outcome (page_of_addr (ustack_bottom_from_tid tid - of_nat USER_STACK_SIZE)) (\<lambda>ustack_top_vpn.
     bind_outcome (remove_area_with_start_vpn vm ustack_top_vpn areas w) (\<lambda>(r, areas, w).
       if r = Inr () \<or> r = Inl AreaNotFound \<or> r = Inl NotMapped then
         bind_outcome (page_of_addr (trap_cx_bottom_from_tid tid)) (\<lambda>trap_cx_vpn.
         bind_outcome (remove_area_with_start_vpn vm trap_cx_vpn areas w) (\<lambda>(r, areas, w).
           case r of Inl _ \<Rightarrow> Panic | Inr _ \<Rightarrow> Ret (areas, w)))
       else Panic))"

section \<open>Correctness of page faults\<close>

lemma find_index_append: "\<forall>x \<in> set xs. \<not> P x \<Longrightarrow> P a \<Longrightarrow> find_index P (xs @ a # ys) = Some (length xs)"
  by (induction xs) auto

lemma do_page_fault_area:
  assumes "space_ok page_ok (xs @ a # ys)" "covers (addr_floor addr) a" "has_flags (ma_perm a) (PTE_R OR PTE_U)"
  shows "do_page_fault fo vm addr (xs @ a # ys) w = bind_outcome (fault_area fo vm (addr_floor addr) a w) (\<lambda>(r, a', w').
    Ret (map_sum id (\<lambda>ppn. page_offset_addr ppn (page_offset addr)) r, xs @ a' # ys, w'))"
proof -
  have "\<forall>c \<in> set xs. areas_apart c a" using assms(1) by (auto simp: space_ok_def sorted_wrt_append)
  then have "\<forall>c \<in> set xs. \<not> (has_flags (ma_perm c) (PTE_R OR PTE_U) \<and> covers (addr_floor addr) c)"
    using assms(2) by (fastforce simp: areas_apart_def covers_def)
  from find_index_append [where P = "\<lambda>c. has_flags (ma_perm c) (PTE_R OR PTE_U) \<and> covers (addr_floor addr) c", OF this] assms(2,3)
  show ?thesis by (simp add: do_page_fault_def Let_def)
qed

text \<open>An address space in which one page of an area got a new frame.\<close>

lemma set_page_ok:
  fixes f :: frame and act :: "16 word list"
  assumes ok: "space_ok page_ok (xs @ a # ys)" and v: "covers v a"
  defines "b \<equiv> a\<lparr>ma_inner := (ma_inner a)\<lparr>active := act, frames := (frames (ma_inner a))[v - ma_start a := f]\<rparr>\<rparr>"
  shows "space_ok page_ok (xs @ b # ys)" "page_at (xs @ b # ys) = (page_at (xs @ a # ys))(v \<mapsto> (ma_type a, ma_perm a, f))"
proof -
  have r: "ma_start b = ma_start a" "ma_end b = ma_end a" by (simp_all add: b_def ma_start_def ma_end_def lm_start_def lm_end_def)
  have a: "area_ok page_ok a" using ok by (simp add: space_ok_def)
  have k: "area_ok page_ok b"
    using a r by (auto simp: area_ok_def b_def lm_shape_def lm_start_def lm_end_def covers_def ma_start_def ma_end_def)
  have i: "v - ma_start a < length (frames (ma_inner a))"
    using a v by (auto simp: area_ok_def lm_shape_def covers_def ma_start_def ma_end_def)
  note rep = space_ok_replace [OF ok k r]
  show "space_ok page_ok (xs @ b # ys)" by (rule rep(1))
  have c: "covers u b = covers u a" for u using r by (simp add: covers_def)
  have "page_of b u = (if u = v then Some (ma_type a, ma_perm a, f) else page_of a u)" if "covers u a" for u
  proof -
    have "u - ma_start a = v - ma_start a \<longleftrightarrow> u = v" using that v by (auto simp: covers_def)
    then show ?thesis using that c [of u] r i v by (auto simp: page_of_def b_def nth_list_update ma_start_def lm_start_def)
  qed
  then show "page_at (xs @ b # ys) = (page_at (xs @ a # ys))(v \<mapsto> (ma_type a, ma_perm a, f))"
    using page_at_covers [OF ok] rep(2) v by (intro ext) auto
qed

lemma held_all_area: "held_all (xs @ a # ys) + F = held (frames (ma_inner a)) + (held_all xs + held_all ys + F)"
  by (simp add: ac_simps)

lemma held_update:
  assumes "i < length fs"
  shows "held (fs[i := InMemory p]) = add_mset (InMemory p) (held (fs[i := Unallocated]))"
    and "fs ! i = InMemory q \<Longrightarrow> add_mset (InMemory q) (held (fs[i := InMemory p])) = add_mset (InMemory p) (held fs)"
    and "fs ! i = Unallocated \<Longrightarrow> held (fs[i := InMemory p]) = add_mset (InMemory p) (held fs)"
proof -
  show 1: "held (fs[i := InMemory p]) = add_mset (InMemory p) (held (fs[i := Unallocated]))"
    using held_clear [of i "fs[i := InMemory p]"] assms by simp
  show "add_mset (InMemory q) (held (fs[i := InMemory p])) = add_mset (InMemory p) (held fs)" if "fs ! i = InMemory q"
    unfolding 1 using held_clear [OF assms] that by simp
  show "held (fs[i := InMemory p]) = add_mset (InMemory p) (held fs)" if "fs ! i = Unallocated"
    unfolding 1 using that list_update_id [of fs i] by simp
qed

context vm_memory
begin

lemma fault_lazy_ok:
  assumes ok: "space_ok page_ok (xs @ a # ys)" and v: "covers (addr_floor addr) a" "has_flags (ma_perm a) (PTE_R OR PTE_U)"
    and w: "inv w (held_all (xs @ a # ys) + F)" "3 \<le> room w"
    and pg: "page_at (xs @ a # ys) (addr_floor addr) = Some (t, pm, Unallocated)" "view w (addr_floor addr) = None" "ma_file a = None"
  shows "\<exists>p areas' w'. do_page_fault fo vm addr (xs @ a # ys) w = Ret (Inr (page_offset_addr p (page_offset addr)), areas', w')
    \<and> space_ok page_ok areas' \<and> inv w' (held_all areas' + F)
    \<and> page_at areas' = (page_at (xs @ a # ys))(addr_floor addr \<mapsto> (t, pm, InMemory p))
    \<and> view w' = (view w)(addr_floor addr \<mapsto> pt_new_entry p pm) \<and> room w \<le> room w' + 3
    \<and> InMemory p \<notin># held_all (xs @ a # ys) + F \<and> held_all areas' = add_mset (InMemory p) (held_all (xs @ a # ys))
    \<and> content w' p = replicate 512 0
    \<and> (\<forall>q. InMemory q \<in># held_all (xs @ a # ys) + F \<longrightarrow> content w' q = content w q)"
proof -
  define u where "u = addr_floor addr"
  have a: "lm_shape (ma_inner a)" "ma_start a \<le> u" "u < ma_end a" "page_ok u"
    using ok v(1) by (auto simp: space_ok_def area_ok_def covers_def u_def)
  have pf: "page_of a u = Some (t, pm, Unallocated)" using page_at_covers [OF ok v(1)] pg(1) by (simp add: u_def)
  then have f: "frames (ma_inner a) ! (u - ma_start a) = Unallocated" "t = ma_type a" "pm = ma_perm a"
    by (auto simp: page_of_def split: if_splits)
  from map_one_zeroed_ok [OF a f(1) pg(2) [folded u_def] w(2) w(1) [unfolded held_all_area]] obtain p a' w' where
    m: "map_one_zeroed_unchecked vm u a w = Ret (p, a', w')"
    "a' = a\<lparr>ma_inner := (ma_inner a)\<lparr>active := active (ma_inner a) @ [of_nat (u - ma_start a)],
        frames := (frames (ma_inner a))[u - ma_start a := InMemory p]\<rparr>\<rparr>"
    "inv w' (held (frames (ma_inner a')) + (held_all xs + held_all ys + F))" "view w' = (view w)(u \<mapsto> pt_new_entry p (ma_perm a))"
    "room w \<le> room w' + 3" "InMemory p \<notin># held (frames (ma_inner a)) + (held_all xs + held_all ys + F)" "content w' p = replicate 512 0"
    "\<forall>q. InMemory q \<in># held (frames (ma_inner a)) + (held_all xs + held_all ys + F) \<longrightarrow> content w' q = content w q"
    by blast
  have "fault_area fo vm u a w = Ret (Inr p, a', w')"
    using m(1) pg(2,3) f(1) lm_index_ok [OF a(1), of u] a(2,3) mapped_view [OF w(1) a(4)]
    by (simp add: fault_area_def fault_anon_def u_def ma_start_def ma_end_def)
  then have "do_page_fault fo vm addr (xs @ a # ys) w = Ret (Inr (page_offset_addr p (page_offset addr)), xs @ a' # ys, w')"
    by (simp add: u_def do_page_fault_area [OF ok v])
  moreover have "space_ok page_ok (xs @ a' # ys)" "page_at (xs @ a' # ys) = (page_at (xs @ a # ys))(u \<mapsto> (t, pm, InMemory p))"
    unfolding m(2) f(2,3) using set_page_ok [OF ok v(1) [folded u_def]] by blast+
  moreover have "held_all (xs @ a' # ys) = add_mset (InMemory p) (held_all (xs @ a # ys))"
    using held_update(3) [OF lm_index_ok(2) [OF a(1)], of u p] a(2,3) f(1) by (simp add: m(2) ma_start_def ma_end_def)
  ultimately show ?thesis
    unfolding u_def [symmetric] using m(3-8) [folded f(3) held_all_area] by blast
qed

lemma fault_cow_ok:
  assumes ok: "space_ok page_ok (xs @ a # ys)" and v: "covers (addr_floor addr) a" "has_flags (ma_perm a) (PTE_R OR PTE_U)"
    "has_flags (ma_perm a) PTE_W"
    and w: "inv w (held_all (xs @ a # ys) + F)" "3 \<le> room w"
    and pg: "page_at (xs @ a # ys) (addr_floor addr) = Some (t, pm, InMemory p)" "view w (addr_floor addr) = Some e"
  shows "\<exists>p' areas' w'. do_page_fault fo vm addr (xs @ a # ys) w = Ret (Inr (page_offset_addr p' (page_offset addr)), areas', w')
    \<and> space_ok page_ok areas' \<and> inv w' (held_all areas' + F)
    \<and> page_at areas' = (page_at (xs @ a # ys))(addr_floor addr \<mapsto> (t, pm, InMemory p'))
    \<and> add_mset (InMemory p) (held_all areas') = add_mset (InMemory p') (held_all (xs @ a # ys))
    \<and> content w' p' = content w p
    \<and> (\<forall>q. InMemory q \<in># held_all (xs @ a # ys) + F \<longrightarrow> content w' q = content w q)
    \<and> (if vm_strong_count vm w p = 1
       then p' = p \<and> view w' = (view w)(addr_floor addr \<mapsto> pte_set_permission pm e)
       else InMemory p' \<notin># held_all (xs @ a # ys) + F \<and> view w' = (view w)(addr_floor addr \<mapsto> pt_new_entry p' pm))"
proof -
  define u where "u = addr_floor addr"
  have a: "lm_shape (ma_inner a)" "ma_start a \<le> u" "u < ma_end a" "page_ok u"
    using ok v(1) by (auto simp: space_ok_def area_ok_def covers_def u_def)
  have pf: "page_of a u = Some (t, pm, InMemory p)" using page_at_covers [OF ok v(1)] pg(1) by (simp add: u_def)
  then have f: "frames (ma_inner a) ! (u - ma_start a) = InMemory p" "t = ma_type a" "pm = ma_perm a"
    by (auto simp: page_of_def split: if_splits)
  from copy_on_write_ok [OF a f(1) pg(2) [folded u_def] w(2) w(1) [unfolded held_all_area]] obtain p' a' w' act where
    m: "copy_on_write vm u a w = Ret (p', a', w')"
    "a' = a\<lparr>ma_inner := (ma_inner a)\<lparr>active := act, frames := (frames (ma_inner a))[u - ma_start a := InMemory p']\<rparr>\<rparr>"
    "inv w' (held (frames (ma_inner a')) + (held_all xs + held_all ys + F))" "content w' p' = content w p"
    "\<forall>q. InMemory q \<in># held (frames (ma_inner a)) + (held_all xs + held_all ys + F) \<longrightarrow> content w' q = content w q"
    "if vm_strong_count vm w p = 1 then p' = p \<and> view w' = (view w)(u \<mapsto> pte_set_permission (ma_perm a) e)
       else InMemory p' \<notin># held (frames (ma_inner a)) + (held_all xs + held_all ys + F) \<and> view w' = (view w)(u \<mapsto> pt_new_entry p' (ma_perm a))"
    by blast
  have "fault_area fo vm u a w = Ret (Inr p', a', w')"
    using m(1) pg(2) v(3) mapped_view [OF w(1) a(4)] by (simp add: fault_area_def u_def)
  then have "do_page_fault fo vm addr (xs @ a # ys) w = Ret (Inr (page_offset_addr p' (page_offset addr)), xs @ a' # ys, w')"
    by (simp add: u_def do_page_fault_area [OF ok v(1,2)])
  moreover have "space_ok page_ok (xs @ a' # ys)" "page_at (xs @ a' # ys) = (page_at (xs @ a # ys))(u \<mapsto> (t, pm, InMemory p'))"
    unfolding m(2) f(2,3) using set_page_ok [OF ok v(1) [folded u_def]] by blast+
  moreover have "add_mset (InMemory p) (held_all (xs @ a' # ys)) = add_mset (InMemory p') (held_all (xs @ a # ys))"
    using held_update(2) [OF lm_index_ok(2) [OF a(1)], of u p p'] a(2,3) f(1) by (simp add: m(2) ma_start_def ma_end_def)
  ultimately show ?thesis
    unfolding u_def [symmetric] using m(3-6) [folded f(3) held_all_area] by blast
qed

end

section \<open>Properties\<close>

lemma page_at_held:
  assumes "space_ok page_ok areas" "page_at areas v = Some (t, pm, InMemory p)"
  shows "InMemory p \<in># held_all areas"
  using assms
proof (induction areas)
  case (Cons a areas)
  have sp: "space_ok page_ok areas" "area_ok page_ok a" using Cons.prems(1) by (simp_all add: space_ok_def)
  show ?case
  proof (cases "covers v a")
    case True
    then have i: "v - ma_start a < length (frames (ma_inner a))" "frames (ma_inner a) ! (v - ma_start a) = InMemory p"
      using Cons.prems(2) sp(2) by (auto simp: page_of_def area_ok_def lm_shape_def covers_def ma_start_def ma_end_def)
    then show ?thesis using held_clear [OF i(1)] by simp
  qed (use Cons sp in simp)
qed simp

text \<open>(C15) The first access to a page of an anonymous area succeeds: the page gets a frame that no one holds, filled with
  zeros, and an entry with the permissions of its area; no other page of the address space, no other entry and no frame
  held by anyone changes, the new frame has one holder, and at most three frames are taken, as many as
  \<open>check_page_fault\<close> reserves.\<close>

theorem page_fault_lazy_zeroed:
  fixes addr :: virt_addr
  assumes "space_ok canonical (xs @ a # ys)" "covers (addr_floor addr) a" "has_flags (ma_perm a) (PTE_R OR PTE_U)"
    "world_inv l w (held_all (xs @ a # ys) + F)" "3 \<le> world_room w"
    "page_at (xs @ a # ys) (addr_floor addr) = Some (t, pm, Unallocated)" "world_view w (addr_floor addr) = None" "ma_file a = None"
  shows "\<exists>p areas' w'. do_page_fault fo (sv39_vm b) addr (xs @ a # ys) w = Ret (Inr (page_offset_addr p (page_offset addr)), areas', w')
    \<and> space_ok canonical areas' \<and> world_inv l w' (held_all areas' + F)
    \<and> page_at areas' = (page_at (xs @ a # ys))(addr_floor addr \<mapsto> (t, pm, InMemory p))
    \<and> world_view w' = (world_view w)(addr_floor addr \<mapsto> pt_new_entry p pm) \<and> world_room w \<le> world_room w' + 3
    \<and> count (held_all areas' + F) (InMemory p) = 1 \<and> world_content w' p = replicate 512 0
    \<and> (\<forall>q. InMemory q \<in># held_all (xs @ a # ys) + F \<longrightarrow> q \<noteq> p \<and> world_content w' q = world_content w q)"
proof -
  from sv39_mem.fault_lazy_ok [OF assms, of fo b] obtain p areas' w' where
    "do_page_fault fo (sv39_vm b) addr (xs @ a # ys) w = Ret (Inr (page_offset_addr p (page_offset addr)), areas', w')"
    "space_ok canonical areas'" "world_inv l w' (held_all areas' + F)"
    "page_at areas' = (page_at (xs @ a # ys))(addr_floor addr \<mapsto> (t, pm, InMemory p))"
    "world_view w' = (world_view w)(addr_floor addr \<mapsto> pt_new_entry p pm)" "world_room w \<le> world_room w' + 3" "world_content w' p = replicate 512 0"
    "\<forall>q. InMemory q \<in># held_all (xs @ a # ys) + F \<longrightarrow> world_content w' q = world_content w q"
    and h: "InMemory p \<notin># held_all (xs @ a # ys) + F" "held_all areas' = add_mset (InMemory p) (held_all (xs @ a # ys))"
    by blast
  moreover have "count (held_all areas' + F) (InMemory p) = 1" using h by (simp add: count_eq_zero_iff)
  moreover have "InMemory q \<in># held_all (xs @ a # ys) + F \<Longrightarrow> q \<noteq> p" for q using h(1) by blast
  ultimately show ?thesis by blast
qed

text \<open>(C3) A write to a mapped page of a writable area (the fault of a page shared after fork) succeeds and makes the page
  private: it gets a frame with the same contents that has exactly one holder, the old frame itself when no one shares it;
  no other page of the address space and no other entry changes, and every frame held by anyone keeps its contents, so the
  other holders never see the write.\<close>

theorem page_fault_copies_on_write:
  fixes addr :: virt_addr
  assumes "space_ok canonical (xs @ a # ys)" "covers (addr_floor addr) a" "has_flags (ma_perm a) (PTE_R OR PTE_U)"
    "has_flags (ma_perm a) PTE_W" "world_inv l w (held_all (xs @ a # ys) + F)" "3 \<le> world_room w"
    "page_at (xs @ a # ys) (addr_floor addr) = Some (t, pm, InMemory p)" "world_view w (addr_floor addr) = Some e"
  shows "\<exists>p' areas' w'. do_page_fault fo (sv39_vm b) addr (xs @ a # ys) w = Ret (Inr (page_offset_addr p' (page_offset addr)), areas', w')
    \<and> space_ok canonical areas' \<and> world_inv l w' (held_all areas' + F)
    \<and> page_at areas' = (page_at (xs @ a # ys))(addr_floor addr \<mapsto> (t, pm, InMemory p'))
    \<and> world_view w' = (world_view w)(addr_floor addr \<mapsto> (if p' = p then pte_set_permission pm e else pt_new_entry p' pm))
    \<and> count (held_all areas' + F) (InMemory p') = 1 \<and> world_content w' p' = world_content w p
    \<and> (\<forall>q. InMemory q \<in># held_all (xs @ a # ys) + F \<longrightarrow> world_content w' q = world_content w q)
    \<and> (p' = p \<longleftrightarrow> vw_rc w p = 1)"
proof -
  have rc: "vm_strong_count (sv39_vm b) w p = vw_rc w p" by (simp add: sv39_vm_def)
  from sv39_mem.fault_cow_ok [OF assms, of fo b] obtain p' areas' w' where
    r: "do_page_fault fo (sv39_vm b) addr (xs @ a # ys) w = Ret (Inr (page_offset_addr p' (page_offset addr)), areas', w')"
    "space_ok canonical areas'" "world_inv l w' (held_all areas' + F)"
    "page_at areas' = (page_at (xs @ a # ys))(addr_floor addr \<mapsto> (t, pm, InMemory p'))" "world_content w' p' = world_content w p"
    "\<forall>q. InMemory q \<in># held_all (xs @ a # ys) + F \<longrightarrow> world_content w' q = world_content w q"
    and h: "add_mset (InMemory p) (held_all areas') = add_mset (InMemory p') (held_all (xs @ a # ys))"
    and c: "if vw_rc w p = 1 then p' = p \<and> world_view w' = (world_view w)(addr_floor addr \<mapsto> pte_set_permission pm e)
       else InMemory p' \<notin># held_all (xs @ a # ys) + F \<and> world_view w' = (world_view w)(addr_floor addr \<mapsto> pt_new_entry p' pm)"
    unfolding rc by blast
  have hF: "add_mset (InMemory p) (held_all areas' + F) = add_mset (InMemory p') (held_all (xs @ a # ys) + F)"
    using h by (metis union_mset_add_mset_left)
  have in_p: "InMemory p \<in># held_all (xs @ a # ys)"
    by (rule page_at_held [OF assms(1,7)])
  define H where "H = held_all (xs @ a # ys) + F"
  have H: "count H (InMemory p) \<le> vw_rc w p" "0 < count H (InMemory p)"
    using assms(5) in_p by (simp_all add: world_inv_def H_def)
  have "count (held_all areas' + F) (InMemory p') = 1 \<and> (p' = p \<longleftrightarrow> vw_rc w p = 1)"
  proof (cases "vw_rc w p = 1")
    case True
    have "held_all areas' + F = H" using True c hF [folded H_def] by simp
    moreover have "count H (InMemory p) = 1" using H True by linarith
    ultimately show ?thesis using c True by simp
  next
    case False
    then have n: "count H (InMemory p') = 0" using c [folded H_def] by (simp add: count_eq_zero_iff)
    then have "p' \<noteq> p" using H(2) by (metis less_irrefl)
    moreover have "count (add_mset (InMemory p) (held_all areas' + F)) (InMemory p') = Suc (count H (InMemory p'))"
      unfolding hF [folded H_def] by simp
    ultimately show ?thesis using False n by simp
  qed
  moreover from this have "world_view w' = (world_view w)(addr_floor addr \<mapsto> (if p' = p then pte_set_permission pm e else pt_new_entry p' pm))"
    using c by (simp split: if_splits)
  ultimately show ?thesis using r by blast
qed

lemma demo_page:
  "covers (addr_floor 0x60001008) demo_area" "has_flags (ma_perm demo_area) (PTE_R OR PTE_U)" "has_flags (ma_perm demo_area) PTE_W"
  "page_at [demo_area] (addr_floor 0x60001008) = Some (Framed, PTE_R OR PTE_W OR PTE_U, Unallocated)" "ma_file demo_area = None"
  "addr_floor 0x60001008 = 0x60001" "page_offset 0x60001008 = 8"
  using demo_space(4,5)
  by (simp_all add: addr_floor_def page_offset_def layout_defs covers_def page_of_def demo_area_def lm_new_def flag_defs numeral_3_eq_3)

theorem page_fault_lazy_zeroed_witness:
  "\<exists>pt m p areas' w'. pt_new no_oom demo_machine = Ret (pt, m)
    \<and> do_page_fault demo_files (sv39_vm demo_build) 0x60001008 [demo_area] (boot_world pt m) = Ret (Inr (page_offset_addr p 8), areas', w')
    \<and> page_at areas' 0x60001 = Some (Framed, PTE_R OR PTE_W OR PTE_U, InMemory p) \<and> world_content w' p = replicate 512 0"
proof -
  obtain pt m where d: "pt_new no_oom demo_machine = Ret (pt, m)" "world_inv 0x80300 (boot_world pt m) {#}"
    "world_view (boot_world pt m) = Map.empty" "world_room (boot_world pt m) = 0xff"
    by (rule demo_world)
  from page_fault_lazy_zeroed [of "[]" demo_area "[]" "0x60001008" "0x80300" "boot_world pt m" "{#}" _ _ demo_files demo_build]
  show ?thesis using d demo_space(1,2) demo_page by fastforce
qed

text \<open>A frame with one more holder, as after fork.\<close>

lemma clone_tracker_ok:
  assumes "world_inv l w F" "InMemory p \<in># F"
  shows "world_inv l (clone_tracker (InMemory p) w) (add_mset (InMemory p) F)"
    "world_view (clone_tracker (InMemory p) w) = world_view w" "world_room (clone_tracker (InMemory p) w) = world_room w"
    "vw_rc (clone_tracker (InMemory p) w) p \<noteq> 1"
proof -
  have "0 < vw_rc w p" using assms unfolding world_inv_def by (metis count_greater_zero_iff order_less_le_trans)
  then show "world_inv l (clone_tracker (InMemory p) w) (add_mset (InMemory p) F)" "vw_rc (clone_tracker (InMemory p) w) p \<noteq> 1"
    using assms(1) by (auto simp: world_inv_def clone_tracker_def)
qed (simp_all add: world_view_def world_room_def clone_tracker_def fun_eq_iff)

theorem page_fault_copies_on_write_witness:
  "\<exists>pt m p areas w p' areas' w'. pt_new no_oom demo_machine = Ret (pt, m)
    \<and> do_page_fault demo_files (sv39_vm demo_build) 0x60001008 [demo_area] (boot_world pt m) = Ret (Inr (page_offset_addr p 8), areas, w)
    \<and> do_page_fault demo_files (sv39_vm demo_build) 0x60001008 areas (clone_tracker (InMemory p) w)
        = Ret (Inr (page_offset_addr p' 8), areas', w')
    \<and> p' \<noteq> p \<and> world_content w' p' = replicate 512 0 \<and> world_content w' p = replicate 512 0"
proof -
  obtain pt m where d: "pt_new no_oom demo_machine = Ret (pt, m)" "world_inv 0x80300 (boot_world pt m) {#}"
    "world_view (boot_world pt m) = Map.empty" "world_room (boot_world pt m) = 0xff"
    by (rule demo_world)
  let ?v = "0x60001" and ?pm = "PTE_R OR PTE_W OR PTE_U"
  from sv39_mem.fault_lazy_ok [of "[]" demo_area "[]" "0x60001008" "0x80300" "boot_world pt m" "{#}" _ _ demo_files demo_build]
  obtain p areas w where
    f: "do_page_fault demo_files (sv39_vm demo_build) 0x60001008 [demo_area] (boot_world pt m) = Ret (Inr (page_offset_addr p 8), areas, w)"
    "space_ok canonical areas" "world_inv 0x80300 w (held_all areas)" "page_at areas ?v = Some (Framed, ?pm, InMemory p)"
    "world_view w ?v = Some (pt_new_entry p ?pm)" "world_room w \<ge> 3" "world_content w p = replicate 512 0"
    using d demo_space(1,2) demo_page by fastforce
  obtain a where a: "a \<in> set areas" "covers ?v a" using f(4) page_at_None_iff [of areas ?v] by auto
  then obtain xs ys where as: "areas = xs @ a # ys" by (meson split_list)
  have pa: "ma_perm a = ?pm" using page_at_covers [OF f(2) [unfolded as] a(2)] f(4) a(2) by (simp add: as page_of_def)
  have hp: "InMemory p \<in># held_all areas" by (rule page_at_held [OF f(2,4)])
  note k = clone_tracker_ok [OF f(3) hp]
  have inv: "world_inv 0x80300 (clone_tracker (InMemory p) w) (held_all (xs @ a # ys) + {#InMemory p#})" using k(1) by (simp add: as)
  have fl: "has_flags (ma_perm a) (PTE_R OR PTE_U)" "has_flags (ma_perm a) PTE_W" by (simp_all add: pa flag_defs)
  have c: "world_content (clone_tracker (InMemory p) w) = world_content w" by (simp add: world_content_def clone_tracker_def fun_eq_iff)
  from page_fault_copies_on_write [OF f(2) [unfolded as], of "0x60001008" "0x80300" "clone_tracker (InMemory p) w" "{#InMemory p#}" Framed ?pm p
      "pt_new_entry p ?pm" demo_files demo_build]
  obtain p' areas' w' where
    "do_page_fault demo_files (sv39_vm demo_build) 0x60001008 (xs @ a # ys) (clone_tracker (InMemory p) w)
        = Ret (Inr (page_offset_addr p' 8), areas', w')" "world_content w' p' = world_content w p" "p' = p \<longleftrightarrow> vw_rc (clone_tracker (InMemory p) w) p = 1"
    "world_content w' p = world_content w p"
    unfolding demo_page(6,7) c using a(2) fl inv f(4-6) k(2,3) by (auto simp: as)
  then show ?thesis using d(1) f(1,7) k(4) unfolding as by (metis (no_types, lifting))
qed

text \<open>(C32) Reclaim after the lower part of an area was unmapped panics the kernel: \<open>set_start\<close> moves the frames of an area
  down but leaves the indexes of its active list, so that an index of a page that stays in memory can lie beyond the frames
  that are left.  It does whenever the page was further from the start than the number of pages left.\<close>

theorem reclaim_after_rshrink_panics:
  assumes "lm_shape (ma_inner a)" "ma_type a = Framed" "ma_start a \<le> n" "n < ma_end a" "n < 2 ^ 52"
    "\<forall>v. ma_start a \<le> v \<and> v < n \<longrightarrow> canonical v" "world_inv l w (held (frames (ma_inner a)) + F)"
    "idx \<in> set (active (ma_inner a))" "n \<le> ma_start a + unat idx" "ma_end a - n \<le> unat idx"
  shows "\<exists>r a' w'. rshrink_to (sv39_vm b) (addr_of_page n) a w = Ret (r, a', w') \<and> ma_do_oom (sv39_vm b) a' w' = Panic"
proof -
  obtain r a' w' where s: "rshrink_to (sv39_vm b) (addr_of_page n) a w = Ret (r, a', w')" "lm_shape (ma_inner a')"
    "ma_start a' = n" "ma_end a' = ma_end a" "idx \<in> set (active (ma_inner a'))"
    using sv39_vm.rshrink_to_ok [OF assms(1-7), of b] assms(8,9) by blast
  have "length (frames (ma_inner a')) \<le> unat idx" using s(2-4) assms(10) by (simp add: lm_shape_def ma_start_def ma_end_def)
  then have "oom_loop (sv39_vm b) (ma_inner a') (active (ma_inner a')) w' \<noteq> Ret x" for x using oom_loop_in_range [OF _ s(5)] by fastforce
  then have "ma_do_oom (sv39_vm b) a' w' = Panic"
    by (cases "oom_loop (sv39_vm b) (ma_inner a') (active (ma_inner a')) w'") (auto simp: ma_do_oom_def)
  then show ?thesis using s(1) by blast
qed

theorem reclaim_after_rshrink_panics_witness:
  "\<exists>pt m p a w r a' w'. pt_new no_oom demo_machine = Ret (pt, m)
    \<and> map_one_zeroed_unchecked (sv39_vm demo_build) 0x60002 demo_area (boot_world pt m) = Ret (p, a, w)
    \<and> rshrink_to (sv39_vm demo_build) (addr_of_page 0x60002) a w = Ret (r, a', w') \<and> ma_do_oom (sv39_vm demo_build) a' w' = Panic"
proof -
  obtain pt m where d: "pt_new no_oom demo_machine = Ret (pt, m)" "world_inv 0x80300 (boot_world pt m) {#}"
    "world_view (boot_world pt m) = Map.empty" "world_room (boot_world pt m) = 0xff"
    by (rule demo_world)
  have da: "lm_shape (ma_inner demo_area)" "frames (ma_inner demo_area) ! 2 = Unallocated" "held (frames (ma_inner demo_area)) = {#}"
    "canonical 0x60002" "\<forall>v. 0x60000 \<le> v \<and> v < 0x60002 \<longrightarrow> canonical v" "ma_type demo_area = Framed"
    using demo_space(1,2) by (auto simp: space_ok_def area_ok_def canonical_def demo_area_def lm_new_def)
  from sv39_mem.map_one_zeroed_ok [of demo_area "0x60002" "boot_world pt m" "0x80300" "{#}" demo_build] obtain p a w where
    f: "map_one_zeroed_unchecked (sv39_vm demo_build) 0x60002 demo_area (boot_world pt m) = Ret (p, a, w)"
    "a = demo_area\<lparr>ma_inner := (ma_inner demo_area)\<lparr>active := active (ma_inner demo_area) @ [2],
        frames := (frames (ma_inner demo_area))[2 := InMemory p]\<rparr>\<rparr>"
    "world_inv 0x80300 w (held (frames (ma_inner a)) + {#})"
    using d da demo_space(4,5) by auto
  have a: "lm_shape (ma_inner a)" "ma_type a = Framed" "ma_start a = 0x60000" "ma_end a = 0x60003" "2 \<in> set (active (ma_inner a))"
    using da demo_space(4,5) by (simp_all add: f(2) lm_shape_def ma_start_def ma_end_def lm_start_def lm_end_def)
  from reclaim_after_rshrink_panics [OF a(1,2), of "0x60002" "0x80300" w "{#}" 2 demo_build]
  show ?thesis using d(1) f(1,3) a(3-5) da(5) by fastforce
qed

end
