(* ===== verification/Spec2Isabelle.thy ===== *)
theory Spec2Isabelle
  imports Bitmap_Alloc Pipe Timer Process_State Signal Page_Fault
begin

text \<open>
  A verification development of the NPUCore kernel (\<open>src/os/src\<close>), a Unix-like kernel in Rust.  The build modelled is
  the riscv one for QEMU with the features \<open>oom_handler\<close>, \<open>swap\<close> and \<open>zram\<close>, compiled in release mode, in which
  integer arithmetic wraps.

  \<^bold>\<open>The program.\<close>  Memory comes from a frame allocator (\<open>mm/frame_allocator.rs\<close>).  Each process has an address
  space (\<open>mm/memory_set.rs\<close>): a list of areas (\<open>mm/map_area.rs\<close>) over a page table (\<open>hal/arch/riscv/sv39.rs\<close>).
  Pages get a frame at the first fault, are shared after fork and copied on the first write; under memory pressure they
  move to compressed memory (\<open>mm/zram.rs\<close>) or swap space (\<open>fs/swap.rs\<close>) and come back on a fault.  System calls reach
  user memory through \<open>mm/page_table.rs\<close>.  Tasks (\<open>task/\<close>) are queued per CPU in three scheduling classes, sleep and
  wake with timeouts, wait on futexes and receive signals.  Files are reached through a descriptor table
  (\<open>fs/file_descriptor.rs\<close>); pipes (\<open>fs/dev/pipe.rs\<close>) are the files with state of their own that are modelled.

  \<^bold>\<open>Conventions.\<close>  An operation that can panic returns an \<open>outcome\<close> (\<open>Panic\<close> or \<open>Ret\<close>); \<open>Result\<close> is a sum with the
  error on the left.  Machine integers are words where wrapping matters; page numbers are natural numbers.  State is
  passed explicitly.  A shared reference is an index into a store, an \<open>Arc\<close> tracker is counted.  Log output is left out.

  \<^bold>\<open>Theories.\<close>
  \<^item> \<open>Prelude\<close>, \<open>Le_Bytes\<close>, \<open>BTree_Map\<close>: shared types, \<open>outcome\<close>, bytes of integers, Rust's ordered map.
  \<^item> \<open>Address\<close>: \<open>mm/address.rs\<close> and the memory layout.  \<open>Id_Alloc\<close>: the contract of the allocators, which \<open>Pid\<close>
    (\<open>task/pid.rs\<close>, stacks of \<open>kern_stack.rs\<close>), \<open>Frame_Alloc\<close>, \<open>Bitmap_Alloc\<close> (\<open>mm/bitmap_alloc.rs\<close>), \<open>Zram\<close> and
    \<open>Swap\<close> interpret: over any history no identifier is handed out twice and no release panics.  Pages written to
    compressed memory or swap read back.
  \<^item> \<open>Sv39\<close>, \<open>Page_Table\<close>: the three-level table in physical memory, bit by bit, refines a map from pages to entries.
  \<^item> \<open>Map_Area\<close>, \<open>Vm_World\<close>, \<open>Memory_Set\<close>, \<open>Page_Fault\<close>: areas are written over a record of operations on a world; the
    locales \<open>vm_laws\<close> and \<open>vm_memory\<close> are the laws used, and \<open>Vm_World\<close> proves them for the Sv39 table, the frame
    allocator and the two devices.  The invariant speaks of the multiset of frames held, so that what an operation does
    not own it leaves alone.  Shown: \<open>munmap\<close> and \<open>mprotect\<close> act on exactly the pages asked for, a lazily allocated page
    is fresh and zeroed, copy on write makes a page private without touching other holders, and the bookkeeping for
    reclaim is exact; also four ways to panic the kernel or to lose pages.
  \<^item> \<open>User_Buffer\<close>, \<open>User_Access\<close>: buffers of slices and the copies from and to user memory of \<open>mm/page_table.rs\<close>.
  \<^item> \<open>Cfs\<close>, \<open>Sched_Class\<close>, \<open>Task_Manager\<close>, \<open>Timer\<close>: the fair queue does not starve a task, classes are served in order,
    waking is exact; the clock arithmetic of \<open>timer.rs\<close>.
  \<^item> \<open>Process_State\<close>: the state machine under interleaved atomic accesses.  \<open>Futex\<close>: \<open>task/threads.rs\<close>.  \<open>Signal\<close>:
    \<open>task/signal.rs\<close> with \<open>sys_sigreturn\<close>; delivery and return restore the program.
  \<^item> \<open>Fd_Table\<close>: the descriptor table refines the POSIX one; the calls of \<open>syscall/fs.rs\<close> that only use it.  \<open>Pipe\<close>: the
    ring buffer is a byte stream, and its loops end.

  \<^bold>\<open>Bounds and fuel.\<close>  The copying loops of pipes are partial functions whose termination is proved.  Area theorems are
  for the canonical pages of the 39-bit address space; the exact bookkeeping is for areas of at most \<open>2 ^ 16\<close> pages, since
  the code keeps page indexes in 16 bits.  A fault assumes three free frames, as many as \<open>check_page_fault\<close> reserves.
  \<open>munmap\<close> and \<open>mprotect\<close> assume that the file of an area can be positioned at each of its pages.

  \<^bold>\<open>Parameters.\<close>  The block device, LZ4, the files behind a mapping or a descriptor, the reading of the time register, the
  locks held by other CPUs and the out-of-memory handler inside the frame allocator are arguments.

  \<^bold>\<open>Modelled without a correctness theorem.\<close>  \<open>mmap\<close> and \<open>sbrk\<close> beyond the cases named, faults on file pages and on
  compressed or swapped pages, the success of reclaim, and the stacks and trap contexts of threads are definitions only.
  \<open>mmap\<close> uses \<open>unwrap_unchecked\<close> on the result of \<open>munmap\<close>, which is undefined behaviour for an error; the model goes on.

  \<^bold>\<open>Not modelled.\<close>  The ext4 and FAT32 file systems, the directory tree, the page cache and the other device files are
  large parts of the kernel that this development has not reached.  Fork, exec and exit (\<open>task/task.rs\<close>,
  \<open>task/processor.rs\<close>), new address spaces and program loading join all components with assembly and an ELF library.
  The network is a wrapper around a library.  Drivers, firmware calls, trap entry and the task switch are device
  registers, control registers and assembly.  Dispatch, tracing and error names hold no state the theorems need.  The
  LoongArch port, the user programs and the vendored packages are outside the build modelled.
\<close>

end
